(* ===== verification/Prelude.thy ===== *)
theory Prelude
  imports Main "HOL-Library.Word" "HOL-Library.List_Lexorder"
begin

text \<open>
  Shared vocabulary of the development.

  \<^item> Byte strings: \<open>byte\<close> is an 8-bit word, \<open>bytes\<close> a Go \<open>[]byte\<close> whose nil-ness does not
    matter, \<open>slice\<close> a Go \<open>[]byte\<close> whose nil-ness does (\<open>None\<close> is the nil slice,
    \<open>Some []\<close> an allocated empty one).
  \<^item> The outcome of a Go call: a value, an error value, or a run-time panic.
  \<^item> \<open>encoding/binary\<close> little-endian integers, \<open>bytes.Compare\<close>, \<open>io.ReadFull\<close>,
    \<open>File.ReadAt\<close>, \<open>make\<close> and the uint64 to int64 conversion, as far as the
    sources use them.
  \<^item> The lemmas on these and on key-sorted association lists that the components share,
    collected in \<open>codec_simps\<close> (byte encodings) and \<open>order_simps\<close> (key comparisons).
\<close>

unbundle bit_operations_syntax

named_theorems codec_simps
named_theorems order_simps

section \<open>Types\<close>

type_synonym byte = "8 word"
type_synonym bytes = "byte list"
type_synonym slice = "bytes option"

datatype ('e, 'a) outcome = Ok 'a | Err 'e | Panic

definition slice_bytes :: "slice \<Rightarrow> bytes" where
  "slice_bytes v = (case v of None \<Rightarrow> [] | Some b \<Rightarrow> b)"

lemma slice_bytes_simps [simp]:
  "slice_bytes None = []"
  "slice_bytes (Some b) = b"
  by (simp_all add: slice_bytes_def)

section \<open>Little-endian integers\<close>

text \<open>
  \<open>le w n\<close> is what \<open>binary.LittleEndian.PutUint16/32/64\<close> writes for \<open>n\<close> converted to
  the \<open>w\<close>-byte unsigned type: byte \<open>i\<close> is \<open>byte(n >> 8i)\<close>. \<open>unle\<close> is the matching read.
\<close>

fun le :: "nat \<Rightarrow> nat \<Rightarrow> bytes" where
  "le 0 n = []"
| "le (Suc w) n = of_nat n # le w (n div 256)"

fun unle :: "bytes \<Rightarrow> nat" where
  "unle [] = 0"
| "unle (b # bs) = unat b + 256 * unle bs"

lemma length_le [simp]: "length (le w n) = w"
  by (induction w arbitrary: n) auto

lemma unat_byte_of_nat: "unat (of_nat n :: byte) = n mod 256"
  by (simp add: unat_of_nat)

lemma unat_byte_less [simp]: "unat (b :: byte) < 256"
  using unsigned_less [of b] by simp

lemma unle_le: "unle (le w n) = n mod 256 ^ w"
proof (induction w arbitrary: n)
  case 0
  show ?case by simp
next
  case (Suc w)
  have "unle (le (Suc w) n) = n mod 256 + 256 * (n div 256 mod 256 ^ w)"
    by (simp add: Suc.IH unat_byte_of_nat)
  also have "\<dots> = n mod (256 * 256 ^ w)"
    by (simp add: mod_mult2_eq)
  finally show ?case by simp
qed

lemma unle_le_id [codec_simps]: "n < 256 ^ w \<Longrightarrow> unle (le w n) = n"
  by (simp add: unle_le)

lemma le_unle: "le (length bs) (unle bs) = bs"
proof (induction bs)
  case Nil
  show ?case by simp
next
  case (Cons b bs)
  have div: "(unat b + 256 * unle bs) div 256 = unle bs"
    using unat_byte_less [of b] by simp
  have "(of_nat (unat b + 256 * unle bs) :: byte) = of_nat (unat b) + of_nat 256 * of_nat (unle bs)"
    by (simp only: of_nat_add of_nat_mult)
  also have "(of_nat 256 :: byte) = 0"
    by simp
  finally have hd: "(of_nat (unat b + 256 * unle bs) :: byte) = b"
    by simp
  show ?case
    using Cons.IH div hd by simp
qed

lemma unle_less: "unle bs < 256 ^ length bs"
proof (induction bs)
  case Nil
  show ?case by simp
next
  case (Cons b bs)
  have "unle bs + 1 \<le> 256 ^ length bs"
    using Cons.IH by simp
  then have "256 * unle bs + 256 \<le> 256 * 256 ^ length bs"
    by linarith
  then have "unat b + 256 * unle bs < 256 * 256 ^ length bs"
    using unat_byte_less [of b] by linarith
  then show ?case by simp
qed

lemma le_mod: "le w (n mod 256 ^ w) = le w n"
  by (metis length_le le_unle unle_le)

lemma le_inj: "\<lbrakk>le w m = le w n; m < 256 ^ w; n < 256 ^ w\<rbrakk> \<Longrightarrow> m = n"
  by (metis unle_le_id)

text \<open>Closed forms for the three widths the formats use, so that \<open>simp\<close> computes them.\<close>

lemma le_2 [codec_simps]: "le 2 n = [of_nat n, of_nat (n div 256)]"
  by (simp add: numeral_2_eq_2)

lemma le_4 [codec_simps]:
  "le 4 n = [of_nat n, of_nat (n div 256), of_nat (n div 65536), of_nat (n div 16777216)]"
proof -
  have "le (Suc (Suc (Suc (Suc 0)))) n =
    [of_nat n, of_nat (n div 256), of_nat (n div 65536), of_nat (n div 16777216)]"
    by (simp add: div_mult2_eq [symmetric])
  moreover have "(4 :: nat) = Suc (Suc (Suc (Suc 0)))"
    by simp
  ultimately show ?thesis by (simp only:)
qed

lemma le_add: "le (v + w) n = le v n @ le w (n div 256 ^ v)"
  by (induction v arbitrary: n) (simp_all add: div_mult2_eq)

lemma le_8 [codec_simps]: "le 8 n = le 4 n @ le 4 (n div 4294967296)"
  using le_add [of 4 4 n] by simp

section \<open>Byte-string comparison\<close>

text \<open>\<open>bytes.Compare\<close>: lexicographic, with results -1, 0 and 1.\<close>

fun bytes_Compare :: "bytes \<Rightarrow> bytes \<Rightarrow> int" where
  "bytes_Compare [] [] = 0"
| "bytes_Compare [] (y # ys) = -1"
| "bytes_Compare (x # xs) [] = 1"
| "bytes_Compare (x # xs) (y # ys) =
     (if x < y then -1 else if y < x then 1 else bytes_Compare xs ys)"

lemma bytes_Compare_order [order_simps]:
  "bytes_Compare a b < 0 \<longleftrightarrow> a < b"
  "bytes_Compare a b = 0 \<longleftrightarrow> a = b"
  "0 < bytes_Compare a b \<longleftrightarrow> b < a"
  by (induction a b rule: bytes_Compare.induct) auto

lemma bytes_Compare_le [order_simps]: "bytes_Compare a b \<le> 0 \<longleftrightarrow> a \<le> b"
  using bytes_Compare_order(3) [of a b] by (simp add: not_less [symmetric])

section \<open>Reading files\<close>

text \<open>
  \<open>read_full n s\<close> is \<open>io.ReadFull\<close> into a buffer of \<open>n\<close> bytes from the unread bytes
  \<open>s\<close>: the bytes read and those left, or \<open>None\<close> for \<open>io.EOF\<close> and
  \<open>io.ErrUnexpectedEOF\<close>. \<open>read_at f n off\<close> is \<open>File.ReadAt\<close> into a buffer of \<open>n\<close>
  bytes: an empty buffer succeeds at once, a negative offset and a short read fail.
\<close>

definition read_full :: "nat \<Rightarrow> bytes \<Rightarrow> (bytes \<times> bytes) option" where
  "read_full n s = (if n \<le> length s then Some (take n s, drop n s) else None)"

definition read_at :: "bytes \<Rightarrow> nat \<Rightarrow> int \<Rightarrow> bytes option" where
  "read_at f n off =
     (if n = 0 then (if off < 0 then None else Some [])
      else if off < 0 \<or> int (length f) < off + int n then None
      else Some (take n (drop (nat off) f)))"

lemma read_full_append [simp]: "length a = n \<Longrightarrow> read_full n (a @ b) = Some (a, b)"
  by (auto simp: read_full_def)

lemma read_full_0 [simp]: "read_full 0 s = Some ([], s)"
  by (simp add: read_full_def)

lemma read_full_SomeD:
  "read_full n s = Some (a, b) \<Longrightarrow> s = a @ b \<and> length a = n"
  by (auto simp: read_full_def split: if_splits)

lemma read_full_None: "read_full n s = None \<longleftrightarrow> length s < n"
  by (auto simp: read_full_def)

lemma read_at_append:
  "\<lbrakk>length b = n; off = int (length a)\<rbrakk> \<Longrightarrow> read_at (a @ b @ c) n off = Some b"
  by (auto simp: read_at_def)

lemma read_at_SomeD: "read_at f n off = Some b \<Longrightarrow> length b = n"
  by (auto simp: read_at_def split: if_splits)

lemma read_at_bounds:
  "0 < n \<Longrightarrow> read_at f n off = Some b \<Longrightarrow> 0 \<le> off \<and> off + int n \<le> int (length f)"
  by (auto simp: read_at_def split: if_splits)

text \<open>\<open>int64(u)\<close> of an unsigned 64-bit value, and when \<open>make([]byte, n)\<close> panics
  (a negative length, or one beyond the \<open>2 ^ 48\<close> bytes of address space of a 64-bit platform).\<close>

definition int64_of :: "nat \<Rightarrow> int" where
  "int64_of u = (let v = u mod 2 ^ 64 in if v < 2 ^ 63 then int v else int v - 2 ^ 64)"

text \<open>Signed 64-bit arithmetic wraps around.\<close>

definition wrap64 :: "int \<Rightarrow> int" where
  "wrap64 x = (x + 2 ^ 63) mod 2 ^ 64 - 2 ^ 63"

definition make_panics :: "int \<Rightarrow> bool" where
  "make_panics n \<longleftrightarrow> n < 0 \<or> 2 ^ 48 < n"

lemma wrap64_id: "- (2 ^ 63) \<le> x \<Longrightarrow> x < 2 ^ 63 \<Longrightarrow> wrap64 x = x"
  by (simp add: wrap64_def)

lemma int64_of_small [simp]: "u < 2 ^ 63 \<Longrightarrow> int64_of u = int u"
  by (simp add: int64_of_def)

end
