(* ===== verification/Config.thy ===== *)
theory Config
  imports Prelude
begin

text \<open>
  Node configuration (\<open>internal/config/config.go\<close>): the record, its defaults, \<open>Validate\<close>,
  \<open>ClusterSize\<close> and \<open>Quorum\<close>. Durations are signed 64-bit nanoseconds. The locale
  \<open>quorum_system\<close> is what the consensus layer uses of a quorum size; the configuration's
  \<open>Quorum\<close> is its instance.
\<close>

section \<open>Configuration\<close>

record Config =
  NodeID :: string
  ListenAddr :: string
  Peers :: "string list"
  DataDir :: string
  MemTableMaxBytes :: int
  HeartbeatInterval :: int
  ElectionTimeoutMin :: int
  ElectionTimeoutMax :: int

definition Millisecond :: int where "Millisecond = 1000000"

definition DefaultConfig :: Config where
  "DefaultConfig =
     \<lparr>NodeID = [], ListenAddr = [], Peers = [], DataDir = [],
      MemTableMaxBytes = 64 * 1024 * 1024,
      HeartbeatInterval = 50 * Millisecond,
      ElectionTimeoutMin = 150 * Millisecond,
      ElectionTimeoutMax = 300 * Millisecond\<rparr>"

datatype config_error =
    EmptyNodeID | EmptyListenAddr | EmptyDataDir | NoPeers | HeartbeatNotPositive
  | ElectionNotPositive | ElectionMinNotLess | ElectionMinTooSmall

definition Validate :: "Config \<Rightarrow> config_error option" where
  "Validate c =
     (if NodeID c = [] then Some EmptyNodeID
      else if ListenAddr c = [] then Some EmptyListenAddr
      else if DataDir c = [] then Some EmptyDataDir
      else if length (Peers c) = 0 then Some NoPeers
      else if HeartbeatInterval c \<le> 0 then Some HeartbeatNotPositive
      else if ElectionTimeoutMin c \<le> 0 \<or> ElectionTimeoutMax c \<le> 0 then Some ElectionNotPositive
      else if ElectionTimeoutMin c \<ge> ElectionTimeoutMax c then Some ElectionMinNotLess
      else if ElectionTimeoutMin c < wrap64 (HeartbeatInterval c * 3) then Some ElectionMinTooSmall
      else None)"

definition ClusterSize :: "Config \<Rightarrow> nat" where
  "ClusterSize c = 1 + length (Peers c)"

definition Quorum :: "Config \<Rightarrow> nat" where
  "Quorum c = ClusterSize c div 2 + 1"

section \<open>Quorums\<close>

text \<open>
  A quorum size for a cluster of \<open>n\<close> members: more than half of them, but not more than all.
\<close>

locale quorum_system =
  fixes n :: nat and q :: nat
  assumes majority: "n < 2 * q"
    and attainable: "q \<le> n"
begin

lemma quorum_positive: "0 < q"
  using majority by simp

lemma intersect:
  assumes "finite N" "card N \<le> n" "A \<subseteq> N" "B \<subseteq> N" "q \<le> card A" "q \<le> card B"
  shows "A \<inter> B \<noteq> {}"
proof
  assume "A \<inter> B = {}"
  then have "card A + card B = card (A \<union> B)"
    using assms by (simp add: card_Un_disjoint finite_subset)
  also have "\<dots> \<le> card N"
    using assms by (intro card_mono) auto
  finally show False
    using assms majority by simp
qed

lemma survives:
  assumes "finite N" "card N = n" "F \<subseteq> N" "card F \<le> n - q"
  shows "q \<le> card (N - F)"
  using assms attainable by (simp add: card_Diff_subset finite_subset)

end

interpretation cfg: quorum_system "ClusterSize c" "Quorum c"
  by unfold_locales (auto simp: Quorum_def ClusterSize_def)

section \<open>Properties\<close>

text \<open>Fact. The quorum of a configuration is a strict majority that every cluster can form:
  any two sets of at least \<open>Quorum\<close> members of the cluster share a member, and the members
  that remain after any \<open>ClusterSize - Quorum\<close> of them failed still contain a quorum.\<close>

theorem quorum_intersection:
  assumes "finite N" and "card N = ClusterSize c"
  shows "(\<forall>A B. A \<subseteq> N \<and> B \<subseteq> N \<and> Quorum c \<le> card A \<and> Quorum c \<le> card B \<longrightarrow> A \<inter> B \<noteq> {}) \<and>
    (\<forall>F. F \<subseteq> N \<and> card F \<le> ClusterSize c - Quorum c \<longrightarrow> Quorum c \<le> card (N - F))"
  using assms cfg.intersect [of N c] cfg.survives [of N c] by auto

theorem quorum_intersection_witness:
  "Quorum (DefaultConfig\<lparr>Peers := [''b'', ''c'']\<rparr>) = 2 \<and>
   {''a'', ''b''} \<inter> {''b'', ''c''} \<noteq> {}"
proof -
  let ?c = "DefaultConfig\<lparr>Peers := [''b'', ''c'']\<rparr>"
  have "card {''a'', ''b'', ''c''} = ClusterSize ?c"
    by (simp add: ClusterSize_def)
  from quorum_intersection [OF _ this] show ?thesis
    by (simp add: Quorum_def ClusterSize_def)
qed

text \<open>Fact. A configuration that \<open>Validate\<close> accepts names a node, an address, a directory and
  at least one peer (so a quorum is at least two nodes), has positive timeouts with
  \<open>Min < Max\<close>, and three heartbeats fit into the shortest election timeout, as long as
  three heartbeat intervals do not overflow a duration.\<close>

theorem validate_accepts:
  assumes "Validate c = None" and "HeartbeatInterval c * 3 < 2 ^ 63"
  shows "NodeID c \<noteq> [] \<and> ListenAddr c \<noteq> [] \<and> DataDir c \<noteq> [] \<and> 2 \<le> Quorum c \<and>
    0 < HeartbeatInterval c \<and> 3 * HeartbeatInterval c \<le> ElectionTimeoutMin c \<and>
    ElectionTimeoutMin c < ElectionTimeoutMax c"
proof -
  have "0 < HeartbeatInterval c"
    using assms(1) by (auto simp: Validate_def split: if_splits)
  then have "wrap64 (HeartbeatInterval c * 3) = HeartbeatInterval c * 3"
    using assms(2) by (intro wrap64_id) auto
  then show ?thesis
    using assms(1) by (cases "Peers c") (auto simp: Validate_def Quorum_def ClusterSize_def split: if_splits)
qed

theorem validate_accepts_witness:
  "2 \<le> Quorum (DefaultConfig\<lparr>NodeID := ''n1'', ListenAddr := '':5001'', Peers := [''p2'', ''p3''],
     DataDir := ''d''\<rparr>)"
  using validate_accepts [of "DefaultConfig\<lparr>NodeID := ''n1'', ListenAddr := '':5001'',
     Peers := [''p2'', ''p3''], DataDir := ''d''\<rparr>"]
  by (simp add: Validate_def DefaultConfig_def Millisecond_def wrap64_def)

text \<open>Fact. The guard on the heartbeat is evaluated in wrapping 64-bit arithmetic: with a
  heartbeat of \<open>2 ^ 62\<close> nanoseconds \<open>Validate\<close> accepts a configuration whose heartbeat is
  longer than both election timeouts.\<close>

theorem validate_overflow:
  "\<exists>c. Validate c = None \<and> ElectionTimeoutMax c < HeartbeatInterval c"
  by (rule exI [of _ "DefaultConfig\<lparr>NodeID := ''n1'', ListenAddr := '':5001'', Peers := [''p2''],
     DataDir := ''d'', HeartbeatInterval := 2 ^ 62\<rparr>"])
    (simp add: Validate_def DefaultConfig_def Millisecond_def wrap64_def)

end
