(* ===== verification/WAL.thy ===== *)
theory WAL
  imports Prelude "HOL-Library.AList"
begin

text \<open>
  The write-ahead log (\<open>internal/storage/wal.go\<close>): the record format with its CRC-32,
  \<open>OpenWAL\<close>, \<open>WAL.Append\<close>, \<open>WAL.Close\<close> and \<open>ReadWALRecords\<close>.

  The data directory is an association list from file names to contents. A write can fail
  after any number of bytes and the sync after it can fail; both are chosen by the
  environment through \<open>write_fault\<close>, as are read errors (\<open>read_fault\<close>) and those of \<open>Close\<close>. The lemmas give the round trip of the format, the
  behaviour on a torn tail, the detection of a damaged byte by the checksum, and that the
  records read are exactly a prefix of the file.
\<close>

section \<open>Files\<close>

type_synonym fs = "(string \<times> bytes) list"

abbreviation fs_read :: "fs \<Rightarrow> string \<Rightarrow> bytes option" where
  "fs_read d \<equiv> map_of d"

abbreviation fs_write :: "string \<Rightarrow> bytes \<Rightarrow> fs \<Rightarrow> fs" where
  "fs_write \<equiv> AList.update"

abbreviation fs_remove :: "string \<Rightarrow> fs \<Rightarrow> fs" where
  "fs_remove \<equiv> AList.delete"

lemma remove_written [simp]: "fs_remove a (fs_write a f d) = fs_remove a d"
  by (induction d) auto

definition fs_rename :: "string \<Rightarrow> string \<Rightarrow> fs \<Rightarrow> fs" where
  "fs_rename a b d = (case fs_read d a of None \<Rightarrow> d | Some f \<Rightarrow> fs_write b f (fs_remove a d))"

lemma fs_rename_written [simp]: "fs_rename a b (fs_write a f d) = fs_write b f (fs_remove a d)"
  by (simp add: fs_rename_def update_conv')

section \<open>CRC-32 (IEEE), as \<open>hash/crc32\<close> computes it\<close>

definition crc_poly :: "32 word" where
  "crc_poly = 0xEDB88320"

definition crc_bit :: "32 word \<Rightarrow> 32 word" where
  "crc_bit c = (if odd c then drop_bit 1 c XOR crc_poly else drop_bit 1 c)"

lemma crc_bit_code [code]: "crc_bit c = (if bit c 0 then drop_bit 1 c XOR crc_poly else drop_bit 1 c)"
  by (simp add: crc_bit_def bit_0)

definition crc_byte :: "32 word \<Rightarrow> byte \<Rightarrow> 32 word" where
  "crc_byte c b =
     crc_bit (crc_bit (crc_bit (crc_bit (crc_bit (crc_bit (crc_bit (crc_bit
       (c XOR ucast b))))))))"

fun crc_update :: "32 word \<Rightarrow> bytes \<Rightarrow> 32 word" where
  "crc_update c [] = c"
| "crc_update c (b # bs) = crc_update (crc_byte c b) bs"

definition ChecksumIEEE :: "bytes \<Rightarrow> 32 word" where
  "ChecksumIEEE bs = NOT (crc_update (NOT 0) bs)"

section \<open>Records\<close>

type_synonym OpType = byte

definition OpPut :: OpType where "OpPut = 1"
definition OpDelete :: OpType where "OpDelete = 2"

definition walHeaderSize :: nat where "walHeaderSize = 11"

record WALRecord =
  rec_Op :: OpType
  rec_Key :: bytes
  rec_Value :: slice

datatype wal_error =
    WalKeyTooLarge nat | WalWriteFailed | WalSyncFailed | WalOpenFailed | WalReadFailed
  | WalFinalSyncFailed | WalCloseFailed | WalTruncateFailed

datatype write_fault = NoFault | WriteFails nat | SyncFails

text \<open>What can happen to a reader of the log: the file cannot be opened (for another reason than that it
  does not exist), or the bytes from a position on cannot be read.\<close>

datatype read_fault = ReadOk | OpenFails | ReadFailsAt nat

datatype close_fault = CloseOk | FinalSyncFails | CloseFails

text \<open>The body and the record that \<open>WAL.Append\<close> assembles.\<close>

definition wal_body :: "OpType \<Rightarrow> bytes \<Rightarrow> slice \<Rightarrow> bytes" where
  "wal_body op key value =
     [op] @ le 2 (length key) @ le 4 (length (slice_bytes value)) @ key @ slice_bytes value"

definition wal_record :: "OpType \<Rightarrow> bytes \<Rightarrow> slice \<Rightarrow> bytes" where
  "wal_record op key value =
     (let body = wal_body op key value in le 4 (unat (ChecksumIEEE body)) @ body)"

text \<open>\<open>file\<close> is open from \<open>OpenWAL\<close> to \<open>Close\<close>; every operation on a closed \<open>os.File\<close> is an error.\<close>

record WAL =
  wal_path :: string
  file_open :: bool

definition OpenWAL :: "fs \<Rightarrow> string \<Rightarrow> bool \<Rightarrow> (wal_error, fs \<times> WAL) outcome" where
  "OpenWAL d path fails =
     (if fails then Err WalOpenFailed
      else Ok (case fs_read d path of
                 None \<Rightarrow> fs_write path [] d
               | Some _ \<Rightarrow> d, \<lparr>wal_path = path, file_open = True\<rparr>))"

text \<open>The bytes are appended to the file; a failing write leaves the part it wrote.\<close>

definition wal_Append ::
  "fs \<Rightarrow> WAL \<Rightarrow> OpType \<Rightarrow> bytes \<Rightarrow> slice \<Rightarrow> write_fault \<Rightarrow> fs \<times> (wal_error, unit) outcome" where
  "wal_Append d w op key value fault =
     (if length key > 65535 then (d, Err (WalKeyTooLarge (length key)))
      else if \<not> file_open w then (d, Err WalWriteFailed)
      else
        let record = wal_record op key value;
            old = (case fs_read d (wal_path w) of None \<Rightarrow> [] | Some f \<Rightarrow> f)
        in case fault of
             WriteFails n \<Rightarrow> (fs_write (wal_path w) (old @ take n record) d, Err WalWriteFailed)
           | SyncFails \<Rightarrow> (fs_write (wal_path w) (old @ record) d, Err WalSyncFailed)
           | NoFault \<Rightarrow> (fs_write (wal_path w) (old @ record) d, Ok ()))"

text \<open>A failed final sync leaves the file open; \<open>os.File.Close\<close> leaves it closed even when it fails.\<close>

definition wal_Close :: "WAL \<Rightarrow> close_fault \<Rightarrow> WAL \<times> (wal_error, unit) outcome" where
  "wal_Close w fault =
     (if \<not> file_open w \<or> fault = FinalSyncFails then (w, Err WalFinalSyncFailed)
      else if fault = CloseFails then (w\<lparr>file_open := False\<rparr>, Err WalCloseFailed)
      else (w\<lparr>file_open := False\<rparr>, Ok ()))"

text \<open>
  \<open>ReadWALRecords\<close>'s loop on the unread bytes. The length of the key is a \<open>uint16\<close>, so the
  bound \<open>7+keyLen\<close> of \<open>body[7:7+keyLen]\<close> is computed modulo \<open>2 ^ 16\<close>; a bound below 7 is
  a slice-bounds panic. \<open>fault\<close> tells whether the bytes end in an I/O error rather than in the end
  of the file: the read of a header reports it, the read of a body only stops the loop.
\<close>

function read_records :: "bool \<Rightarrow> bytes \<Rightarrow> (wal_error, WALRecord list) outcome" where
  "read_records fault s =
     (case read_full walHeaderSize s of
        None \<Rightarrow> if fault then Err WalReadFailed else Ok []
      | Some (header, s1) \<Rightarrow>
          let storedChecksum = unle (take 4 header);
              op = header ! 4;
              keyLen = unle (take 2 (drop 5 header));
              valueLen = unle (take 4 (drop 7 header))
          in case read_full (keyLen + valueLen) s1 of
               None \<Rightarrow> Ok []
             | Some (rest, s2) \<Rightarrow>
                 let body = [op] @ le 2 keyLen @ le 4 valueLen @ rest;
                     bound = (7 + keyLen) mod 65536
                 in if unat (ChecksumIEEE body) \<noteq> storedChecksum then Ok []
                    else if bound < 7 then Panic
                    else
                      let key = take (bound - 7) (drop 7 body);
                          value = (if valueLen > 0 then Some (take valueLen (drop bound body))
                                   else None)
                      in case read_records fault s2 of
                           Ok rs \<Rightarrow> Ok (\<lparr>rec_Op = op, rec_Key = key, rec_Value = value\<rparr> # rs)
                         | Err e \<Rightarrow> Err e
                         | Panic \<Rightarrow> Panic)"
  by pat_completeness auto
termination
  by (relation "measure (length \<circ> snd)") (auto simp: walHeaderSize_def dest!: read_full_SomeD)

declare read_records.simps [simp del]

definition ReadWALRecords :: "fs \<Rightarrow> string \<Rightarrow> read_fault \<Rightarrow> (wal_error, WALRecord list) outcome" where
  "ReadWALRecords d path fault =
     (case fs_read d path of
        None \<Rightarrow> Ok []
      | Some f \<Rightarrow>
          (case fault of
             ReadOk \<Rightarrow> read_records False f
           | OpenFails \<Rightarrow> Err WalOpenFailed
           | ReadFailsAt p \<Rightarrow> if p < length f then read_records True (take p f) else read_records False f))"

section \<open>Codec lemmas\<close>

text \<open>Encoding of a record value, and the records the format represents faithfully.\<close>

definition rec_bytes :: "WALRecord \<Rightarrow> bytes" where
  "rec_bytes r = wal_record (rec_Op r) (rec_Key r) (rec_Value r)"

definition rec_fits :: "WALRecord \<Rightarrow> bool" where
  "rec_fits r \<longleftrightarrow> length (rec_Key r) < 65529 \<and> length (slice_bytes (rec_Value r)) < 2 ^ 32"

definition nil_if_empty :: "slice \<Rightarrow> slice" where
  "nil_if_empty v = (if slice_bytes v = [] then None else v)"

definition rec_read :: "WALRecord \<Rightarrow> WALRecord" where
  "rec_read r = r\<lparr>rec_Value := nil_if_empty (rec_Value r)\<rparr>"

lemma length_wal_body: "length (wal_body op k v) = 7 + length k + length (slice_bytes v)"
  by (simp add: wal_body_def)

lemma length_wal_record:
  "length (wal_record op k v) = walHeaderSize + length k + length (slice_bytes v)"
  by (simp add: wal_record_def length_wal_body walHeaderSize_def Let_def)

lemma unat_crc_less: "unat (ChecksumIEEE b) < 256 ^ 4"
  using unsigned_less [of "ChecksumIEEE b"] by simp

text \<open>One iteration of the loop on a file that starts with a header and enough bytes.\<close>

lemma read_records_header:
  assumes c: "length c = 4" and lens: "kl < 65536" "vl < 2 ^ 32" "length kv = kl + vl"
  shows "read_records ft (c @ [op] @ le 2 kl @ le 4 vl @ kv @ s) =
    (if unat (ChecksumIEEE ([op] @ le 2 kl @ le 4 vl @ kv)) \<noteq> unle c then Ok []
     else if 65529 \<le> kl then Panic
     else case read_records ft s of
            Ok rs \<Rightarrow> Ok (\<lparr>rec_Op = op, rec_Key = take kl kv,
                          rec_Value = (if vl > 0 then Some (drop kl kv) else None)\<rparr> # rs)
          | Err e \<Rightarrow> Err e
          | Panic \<Rightarrow> Panic)"
proof -
  let ?h = "c @ [op] @ le 2 kl @ le 4 vl"
  have h: "read_full walHeaderSize (?h @ kv @ s) = Some (?h, kv @ s)"
    by (rule read_full_append) (simp add: walHeaderSize_def c)
  have kl: "unle (le 2 kl) = kl" and vl: "unle (le 4 vl) = vl"
    using lens by (simp_all add: unle_le_id)
  have bound: "(7 + kl) mod 65536 = (if 65529 \<le> kl then kl - 65529 else 7 + kl)"
    using lens(1) by (simp add: mod_if)
  have ix: "?h ! 4 = op" "take 4 ?h = c" "take 2 (drop 5 ?h) = le 2 kl" "take 4 (drop 7 ?h) = le 4 vl"
    using c by (simp_all add: nth_append)
  have kv: "read_full (kl + vl) (kv @ s) = Some (kv, s)"
    using lens(3) by (rule read_full_append)
  have body: "take n (drop (7 + m) ([op] @ le 2 kl @ le 4 vl @ kv)) = take n (drop m kv)" for n m
    by (simp add: drop_Cons')
  have drop7: "drop 7 ([op] @ le 2 kl @ le 4 vl @ kv) = kv"
    by simp
  have whole: "take vl (drop kl kv) = drop kl kv"
    using lens(3) by simp
  have step: "read_records ft (?h @ kv @ s) =
    (if unat (ChecksumIEEE ([op] @ le 2 kl @ le 4 vl @ kv)) \<noteq> unle c then Ok []
     else if (7 + kl) mod 65536 < 7 then Panic
     else case read_records ft s of
            Ok rs \<Rightarrow> Ok (\<lparr>rec_Op = op, rec_Key = take ((7 + kl) mod 65536 - 7) kv,
              rec_Value = (if vl > 0 then Some (take vl (drop ((7 + kl) mod 65536)
                ([op] @ le 2 kl @ le 4 vl @ kv))) else None)\<rparr> # rs)
          | Err e \<Rightarrow> Err e
          | Panic \<Rightarrow> Panic)"
    by (simp only: read_records.simps [of ft "?h @ kv @ s"] h kv option.case prod.case Let_def ix
        kl vl drop7)
  show ?thesis
  proof (cases "65529 \<le> kl")
    case True
    then have "(7 + kl) mod 65536 < 7"
      using bound lens(1) by simp
    with step True show ?thesis by (simp only: append_assoc if_True)
  next
    case False
    then have "(7 + kl) mod 65536 = 7 + kl"
      using bound by simp
    with step False show ?thesis
      by (simp only: append_assoc body whole add_diff_cancel_left') simp
  qed
qed

lemma read_records_short: "length s < walHeaderSize \<Longrightarrow> read_records False s = Ok []"
  by (subst read_records.simps) (simp add: read_full_def)

lemma read_records_Nil [simp]: "read_records False [] = Ok []"
  by (simp add: read_records_short walHeaderSize_def)

lemma read_records_short_body:
  assumes "length c = 4" "kl < 65536" "vl < 2 ^ 32" "length s < kl + vl"
  shows "read_records ft (c @ [op] @ le 2 kl @ le 4 vl @ s) = Ok []"
proof -
  let ?h = "c @ [op] @ le 2 kl @ le 4 vl"
  have h: "read_full walHeaderSize (?h @ s) = Some (?h, s)"
    by (rule read_full_append) (simp add: walHeaderSize_def assms(1))
  have kl: "unle (le 2 kl) = kl" and vl: "unle (le 4 vl) = vl"
    using assms by (simp_all add: unle_le_id)
  have ix: "take 2 (drop 5 ?h) = le 2 kl" "take 4 (drop 7 ?h) = le 4 vl"
    using assms(1) by simp_all
  have s: "read_full (kl + vl) s = None"
    using assms(4) by (simp add: read_full_None)
  have "read_records ft (?h @ s) = Ok []"
    by (simp only: read_records.simps [of ft "?h @ s"] h s option.case prod.case Let_def ix kl vl)
  then show ?thesis by (simp only: append_assoc)
qed

lemma wal_record_parts:
  "wal_record op k v =
     le 4 (unat (ChecksumIEEE (wal_body op k v))) @ [op] @ le 2 (length k)
       @ le 4 (length (slice_bytes v)) @ k @ slice_bytes v"
  by (simp add: wal_record_def wal_body_def Let_def)

text \<open>An intact record is read back, up to the nil/empty distinction, and the loop goes on.\<close>

lemma read_records_record:
  assumes "rec_fits r"
  shows "read_records ft (rec_bytes r @ s) =
    (case read_records ft s of
       Ok rs \<Rightarrow> Ok (rec_read r # rs) | Err e \<Rightarrow> Err e | Panic \<Rightarrow> Panic)"
proof -
  obtain op k v where r: "r = \<lparr>rec_Op = op, rec_Key = k, rec_Value = v\<rparr>"
    by (cases r)
  have crc: "unle (le 4 (unat (ChecksumIEEE b))) = unat (ChecksumIEEE b)" for b
    by (rule unle_le_id) (rule unat_crc_less)
  have rv: "nil_if_empty v = (if length (slice_bytes v) > 0 then Some (slice_bytes v) else None)"
    by (cases v) (auto simp: nil_if_empty_def)
  have "read_records ft (le 4 (unat (ChecksumIEEE (wal_body op k v))) @ [op] @ le 2 (length k)
       @ le 4 (length (slice_bytes v)) @ (k @ slice_bytes v) @ s) =
    (case read_records ft s of
       Ok rs \<Rightarrow> Ok (rec_read r # rs) | Err e \<Rightarrow> Err e | Panic \<Rightarrow> Panic)"
    using assms by (subst read_records_header)
      (auto simp: r rec_fits_def rec_read_def crc wal_body_def rv split: outcome.splits)
  then show ?thesis
    by (simp add: r rec_bytes_def wal_record_parts)
qed

text \<open>
  A record cut short after its header ends the loop, also when fewer bytes than it misses
  follow it; one cut short at any byte ends the loop at the end of the file.
\<close>

lemma read_records_torn_more:
  assumes "length k \<le> 65535" "length (slice_bytes v) < 2 ^ 32"
    and "walHeaderSize \<le> n" "n + length s < length (wal_record op k v)"
  shows "read_records ft (take n (wal_record op k v) @ s) = Ok []"
proof -
  let ?c = "le 4 (unat (ChecksumIEEE (wal_body op k v)))"
  let ?h = "?c @ [op] @ le 2 (length k) @ le 4 (length (slice_bytes v))"
  have "take n (wal_record op k v) = take n (?h @ (k @ slice_bytes v))"
    by (simp add: wal_record_parts)
  also have "\<dots> = ?h @ take (n - walHeaderSize) (k @ slice_bytes v)"
    using assms(3) by (subst take_append) (simp add: walHeaderSize_def)
  finally have "take n (wal_record op k v) @ s =
      ?c @ [op] @ le 2 (length k) @ le 4 (length (slice_bytes v))
        @ (take (n - walHeaderSize) (k @ slice_bytes v) @ s)"
    by simp
  moreover have "length (take (n - walHeaderSize) (k @ slice_bytes v) @ s)
      < length k + length (slice_bytes v)"
    using assms(3,4) by (simp add: length_wal_record)
  ultimately show ?thesis
    using assms by (simp only:) (rule read_records_short_body, auto)
qed

lemma read_records_torn:
  assumes "length k \<le> 65535" "length (slice_bytes v) < 2 ^ 32"
    and "n < length (wal_record op k v)"
  shows "read_records False (take n (wal_record op k v)) = Ok []"
proof (cases "n < walHeaderSize")
  case True
  then show ?thesis by (simp add: read_records_short)
next
  case False
  then show ?thesis
    using read_records_torn_more [of k v n "[]" op] assms by simp
qed

text \<open>An I/O error in a header is reported.\<close>

lemma read_records_error: "length s < walHeaderSize \<Longrightarrow> read_records True s = Err WalReadFailed"
  by (subst read_records.simps) (simp add: read_full_def)

lemma read_records_list:
  "list_all rec_fits rs \<Longrightarrow> read_records ft (concat (map rec_bytes rs) @ s) =
    (case read_records ft s of
       Ok rs' \<Rightarrow> Ok (map rec_read rs @ rs') | Err e \<Rightarrow> Err e | Panic \<Rightarrow> Panic)"
  by (induction rs) (auto simp: read_records_record split: outcome.splits)

text \<open>
  Conversely, whatever the file holds, the records read are, byte for byte, a prefix of it.
\<close>

lemma header_split:
  assumes "length h = walHeaderSize"
  shows "h = take 4 h @ [h ! 4] @ le 2 (unle (take 2 (drop 5 h))) @ le 4 (unle (take 4 (drop 7 h)))"
proof -
  have "h = take 4 h @ h ! 4 # drop 5 h"
    using assms id_take_nth_drop [of 4 h] by (simp add: walHeaderSize_def)
  moreover have "drop 5 h = take 2 (drop 5 h) @ drop 7 h"
    using append_take_drop_id [of 2 "drop 5 h"] by simp
  moreover have "le 2 (unle (take 2 (drop 5 h))) = take 2 (drop 5 h)"
    using le_unle [of "take 2 (drop 5 h)"] assms by (simp add: walHeaderSize_def)
  moreover have "le 4 (unle (take 4 (drop 7 h))) = drop 7 h"
    using le_unle [of "take 4 (drop 7 h)"] assms by (simp add: walHeaderSize_def)
  ultimately show ?thesis by simp
qed

text \<open>A header whose record is complete: the record is taken, the reader stops at it, or the key is too
  long for the buffer of the checksum.\<close>

lemma read_records_complete:
  assumes lens: "length c = 4" "kl < 65536" "vl < 2 ^ 32" and kv: "length kv = kl + vl"
    and s: "s = c @ [op] @ le 2 kl @ le 4 vl @ kv @ s'"
  obtains (stop) "read_records False s = Ok []"
    | (huge) "read_records False s = Panic"
    | (more) k v where "rec_fits \<lparr>rec_Op = op, rec_Key = k, rec_Value = v\<rparr>"
        "nil_if_empty v = v" "s = wal_record op k v @ s'"
proof -
  define k v where "k = take kl kv" and "v = (if vl > 0 then Some (drop kl kv) else None)"
  have parts: "k @ slice_bytes v = kv" "length k = kl" "length (slice_bytes v) = vl" "nil_if_empty v = v"
    using kv by (auto simp: k_def v_def nil_if_empty_def)
  have body: "[op] @ le 2 kl @ le 4 vl @ kv = wal_body op k v"
    by (simp add: wal_body_def parts(2,3)) (simp add: parts(1))
  note hdr = read_records_header [OF lens kv, of False op s', folded s, unfolded body]
  consider "unat (ChecksumIEEE (wal_body op k v)) \<noteq> unle c"
    | "unat (ChecksumIEEE (wal_body op k v)) = unle c" "65529 \<le> kl"
    | "unat (ChecksumIEEE (wal_body op k v)) = unle c" "kl < 65529"
    by linarith
  then show thesis
  proof cases
    case 1
    with hdr show thesis by (intro stop) simp
  next
    case 2
    with hdr show thesis by (intro huge) simp
  next
    case 3
    have "le 4 (unat (ChecksumIEEE (wal_body op k v))) = c"
      using 3 le_unle [of c] lens(1) by simp
    then have "s = wal_record op k v @ s'"
      by (simp add: wal_record_parts parts s)
    moreover have "rec_fits \<lparr>rec_Op = op, rec_Key = k, rec_Value = v\<rparr>"
      using 3 lens parts by (simp add: rec_fits_def)
    ultimately show thesis
      using parts(4) by (intro more)
  qed
qed

lemma read_records_shape:
  obtains (stop) "read_records False s = Ok []"
    | (huge) "read_records False s = Panic"
    | (more) op k v s' where "rec_fits \<lparr>rec_Op = op, rec_Key = k, rec_Value = v\<rparr>"
        "nil_if_empty v = v" "s = wal_record op k v @ s'"
proof (cases "read_full walHeaderSize s")
  case None
  then show thesis by (intro stop) (simp add: read_records_short read_full_None)
next
  case (Some p)
  then obtain h s1 where s: "s = h @ s1" and lh: "length h = walHeaderSize"
    by (cases p) (auto dest: read_full_SomeD)
  define c op kl vl where "c = take 4 h" and "op = h ! 4"
    and "kl = unle (take 2 (drop 5 h))" and "vl = unle (take 4 (drop 7 h))"
  have h: "h = c @ [op] @ le 2 kl @ le 4 vl"
    unfolding c_def op_def kl_def vl_def using lh by (rule header_split)
  have lens: "length c = 4" "kl < 65536" "vl < 2 ^ 32"
    using lh unle_less [of "take 2 (drop 5 h)"] unle_less [of "take 4 (drop 7 h)"]
    by (simp_all add: c_def kl_def vl_def walHeaderSize_def)
  show thesis
  proof (cases "length s1 < kl + vl")
    case True
    then show thesis
      using read_records_short_body [OF lens] by (intro stop) (simp add: s h)
  next
    case False
    then have "length (take (kl + vl) s1) = kl + vl"
      by simp
    moreover have "s = c @ [op] @ le 2 kl @ le 4 vl @ take (kl + vl) s1 @ drop (kl + vl) s1"
      by (simp add: s h)
    ultimately show thesis
      by (rule read_records_complete [OF lens]) (fact stop huge more)+
  qed
qed

lemma read_records_prefix:
  "read_records False s = Ok rs \<Longrightarrow>
    (\<exists>t. s = concat (map rec_bytes rs) @ t) \<and> list_all rec_fits rs \<and> map rec_read rs = rs"
proof (induction s arbitrary: rs rule: measure_induct_rule [where f = length])
  case (less s)
  show ?case
  proof (cases s rule: read_records_shape)
    case stop
    with less.prems show ?thesis by simp
  next
    case huge
    with less.prems show ?thesis by simp
  next
    case (more op k v s')
    let ?r = "\<lparr>rec_Op = op, rec_Key = k, rec_Value = v\<rparr>"
    have s: "s = rec_bytes ?r @ s'"
      using more(3) by (simp add: rec_bytes_def)
    have "length s' < length s"
      by (simp add: s rec_bytes_def length_wal_record walHeaderSize_def)
    moreover obtain rs' where rs': "read_records False s' = Ok rs'" "rs = rec_read ?r # rs'"
      using less.prems read_records_record [OF more(1), of False s'] s by (auto split: outcome.splits)
    ultimately have IH: "(\<exists>t. s' = concat (map rec_bytes rs') @ t)" "list_all rec_fits rs'"
        "map rec_read rs' = rs'"
      using less.IH by blast+
    have "rec_read ?r = ?r"
      using more(2) by (simp add: rec_read_def)
    with IH rs' more(1) s show ?thesis by auto
  qed
qed

section \<open>The checksum\<close>

text \<open>
  One step of the division is injective in the register, because the polynomial has its top
  bit set; so a difference between two registers never goes away, and two bodies that differ
  in one byte have different checksums.
\<close>

lemma bit_crc_bit:
  assumes "n < 32"
  shows "bit (crc_bit c) n \<longleftrightarrow> bit c (Suc n) \<noteq> (bit c 0 \<and> bit crc_poly n)"
  using assms
  by (auto simp: crc_bit_def bit_xor_iff bit_drop_bit_eq even_iff_mod_2_eq_zero bit_0)

lemma crc_poly_top: "bit crc_poly 31"
  by (simp add: crc_poly_def)

lemma crc_bit_inj: "crc_bit c = crc_bit d \<Longrightarrow> c = d"
proof (rule bit_word_eqI)
  fix n
  assume eq: "crc_bit c = crc_bit d" and n: "n < LENGTH(32)"
  have "bit (crc_bit x) 31 \<longleftrightarrow> bit x 0" for x
    by (subst bit_crc_bit) (auto simp: crc_poly_top dest: bit_imp_le_length)
  with eq have low: "bit c 0 \<longleftrightarrow> bit d 0"
    by metis
  show "bit c n \<longleftrightarrow> bit d n"
  proof (cases n)
    case 0
    with low show ?thesis by simp
  next
    case (Suc m)
    with n have "m < 32" by simp
    then show ?thesis
      using eq low bit_crc_bit [of m c] bit_crc_bit [of m d] Suc by auto
  qed
qed

lemma word_xor_cancel:
  fixes x y z :: "'a::len word"
  shows "x XOR z = y XOR z \<longleftrightarrow> x = y" "z XOR x = z XOR y \<longleftrightarrow> x = y"
  by (metis xor.assoc xor.right_neutral xor_self_eq) (metis xor.assoc xor.left_neutral xor_self_eq)

lemma crc_byte_inj_state: "crc_byte c b = crc_byte d b \<Longrightarrow> c = d"
  by (auto simp: crc_byte_def word_xor_cancel dest!: crc_bit_inj)

lemma crc_byte_inj_byte: "crc_byte c a = crc_byte c b \<Longrightarrow> a = b"
proof -
  assume "crc_byte c a = crc_byte c b"
  then have "(ucast a :: 32 word) = ucast b"
    by (auto simp: crc_byte_def word_xor_cancel dest!: crc_bit_inj)
  then have eq: "bit (ucast a :: 32 word) n \<longleftrightarrow> bit (ucast b :: 32 word) n" for n
    by simp
  show "a = b"
  proof (rule bit_word_eqI)
    fix n
    assume "n < LENGTH(8)"
    with eq [of n] show "bit a n \<longleftrightarrow> bit b n"
      by (simp add: bit_unsigned_iff)
  qed
qed

lemma crc_update_inj: "crc_update c bs = crc_update d bs \<Longrightarrow> c = d"
  by (induction bs arbitrary: c d) (auto dest: crc_byte_inj_state)

lemma crc_update_append: "crc_update c (xs @ ys) = crc_update (crc_update c xs) ys"
  by (induction xs arbitrary: c) auto

lemma ChecksumIEEE_one_byte:
  "a \<noteq> b \<Longrightarrow> ChecksumIEEE (xs @ a # ys) \<noteq> ChecksumIEEE (xs @ b # ys)"
  by (auto simp: ChecksumIEEE_def crc_update_append dest!: crc_update_inj crc_byte_inj_byte)

text \<open>Positions of a record whose damage leaves the two length fields alone.\<close>

definition payload_pos :: "OpType \<Rightarrow> bytes \<Rightarrow> slice \<Rightarrow> nat \<Rightarrow> bool" where
  "payload_pos op k v p \<longleftrightarrow> p < 5 \<or> walHeaderSize \<le> p \<and> p < length (wal_record op k v)"

lemma read_records_bad_checksum:
  assumes "length c = 4" "kl < 65536" "vl < 2 ^ 32" "length kv = kl + vl"
    and "unat (ChecksumIEEE ([op] @ le 2 kl @ le 4 vl @ kv)) \<noteq> unle c"
  shows "read_records False (c @ [op] @ le 2 kl @ le 4 vl @ kv @ s) = Ok []"
  using read_records_header [OF assms(1-4), of False op s] assms(5) by (simp only: if_True not_False_eq_True)

lemma list_update_split:
  "p < length xs \<Longrightarrow> xs[p := b] = take p xs @ b # drop (Suc p) xs"
  by (rule upd_conv_take_nth_drop)

lemma list_update_right: "length xs = n \<Longrightarrow> (xs @ ys)[n + i := b] = xs @ ys[i := b]"
  by (simp add: list_update_append)

lemma ChecksumIEEE_update:
  assumes "p < length xs" "b \<noteq> xs ! p"
  shows "unat (ChecksumIEEE (xs[p := b])) \<noteq> unat (ChecksumIEEE xs)"
  using ChecksumIEEE_one_byte [OF assms(2), of "take p xs" "drop (Suc p) xs"] assms(1)
  by (auto simp: list_update_split id_take_nth_drop [symmetric] dest: unsigned_word_eqI)

lemma read_records_damaged:
  assumes fits: "length k \<le> 65535" "length (slice_bytes v) < 2 ^ 32"
    and p: "payload_pos op k v p" and b: "b \<noteq> wal_record op k v ! p"
  shows "read_records False ((wal_record op k v)[p := b] @ s) = Ok []"
proof -
  let ?kv = "k @ slice_bytes v"
  define body where "body = wal_body op k v"
  define c where "c = le 4 (unat (ChecksumIEEE body))"
  have wr: "wal_record op k v = c @ body"
    by (simp add: wal_record_def body_def c_def Let_def)
  have lc: "length c = 4"
    by (simp add: c_def)
  have crc: "unle c = unat (ChecksumIEEE body)"
    unfolding c_def by (rule unle_le_id) (rule unat_crc_less)
  have bd: "body = [op] @ le 2 (length k) @ le 4 (length (slice_bytes v)) @ ?kv"
    by (simp add: body_def wal_body_def)
  have stop: "read_records False (c' @ [op'] @ le 2 (length k) @ le 4 (length (slice_bytes v)) @ kv' @ s) = Ok []"
    if "length c' = 4" "length kv' = length ?kv"
      "unat (ChecksumIEEE ([op'] @ le 2 (length k) @ le 4 (length (slice_bytes v)) @ kv')) \<noteq> unle c'"
    for c' op' kv'
    using that fits by (intro read_records_bad_checksum) auto
  consider "p < 4" | "p = 4" | "11 \<le> p" "p < length (wal_record op k v)"
    using p unfolding payload_pos_def walHeaderSize_def by linarith
  then show ?thesis
  proof cases
    case 1
    have "unle (c[p := b]) \<noteq> unle c"
    proof
      assume "unle (c[p := b]) = unle c"
      then have "c[p := b] = c"
        using le_unle [of c] le_unle [of "c[p := b]"] by simp
      with 1 b lc show False by (auto simp: wr nth_append list_update_same_conv)
    qed
    with 1 stop [of "c[p := b]" ?kv op] show ?thesis
      by (simp add: wr lc list_update_append crc bd [symmetric]) (simp add: bd)
  next
    case 2
    have "unat (ChecksumIEEE (body[0 := b])) \<noteq> unat (ChecksumIEEE body)"
      using 2 b lc by (intro ChecksumIEEE_update) (auto simp: wr nth_append bd)
    with 2 stop [of c ?kv b] show ?thesis
      by (simp add: wr lc list_update_append crc) (simp add: bd)
  next
    case 3
    define q where "q = p - 11"
    have "unat (ChecksumIEEE (body[p - 4 := b])) \<noteq> unat (ChecksumIEEE body)"
      using 3 b lc by (intro ChecksumIEEE_update) (auto simp: wr nth_append)
    moreover have up: "body[p - 4 := b] =
        [op] @ le 2 (length k) @ le 4 (length (slice_bytes v)) @ ?kv[q := b]"
      using 3(1) list_update_right [of "[op] @ le 2 (length k) @ le 4 (length (slice_bytes v))"
          7 ?kv q b]
      by (simp add: bd q_def del: list_update_code)
    ultimately show ?thesis
      using 3(1) stop [of c "?kv[q := b]" op]
      by (simp add: wr lc list_update_append crc)
  qed
qed

section \<open>Properties\<close>

text \<open>Property C20. A log that holds intact records followed by the part of one more record that
  reached the disk before a crash (any number of bytes short of the whole record) is read
  as exactly the intact records, in order; an empty value comes back as nil.\<close>

theorem wal_crash_roundtrip:
  assumes "list_all rec_fits rs"
    and "length k \<le> 65535" "length (slice_bytes v) < 2 ^ 32"
    and "n < length (wal_record op k v)"
  shows "read_records False (concat (map rec_bytes rs) @ take n (wal_record op k v))
    = Ok (map rec_read rs)"
  using assms by (simp add: read_records_list read_records_torn)

theorem wal_crash_roundtrip_witness:
  "read_records False (concat (map rec_bytes
     [\<lparr>rec_Op = OpPut, rec_Key = [107, 49], rec_Value = Some [118]\<rparr>,
      \<lparr>rec_Op = OpDelete, rec_Key = [107, 49], rec_Value = None\<rparr>])
       @ take 13 (wal_record OpPut [107, 50] (Some [119])))
   = Ok [\<lparr>rec_Op = OpPut, rec_Key = [107, 49], rec_Value = Some [118]\<rparr>,
         \<lparr>rec_Op = OpDelete, rec_Key = [107, 49], rec_Value = None\<rparr>]"
  using wal_crash_roundtrip [of
     "[\<lparr>rec_Op = OpPut, rec_Key = [107, 49], rec_Value = Some [118]\<rparr>,
       \<lparr>rec_Op = OpDelete, rec_Key = [107, 49], rec_Value = None\<rparr>]"
     "[107, 50]" "Some [119]" 13 OpPut]
  by (simp add: rec_fits_def rec_read_def nil_if_empty_def length_wal_record walHeaderSize_def)

text \<open>Property C25. A single damaged byte in a record (in the checksum, the operation, the key or
  the value; not in the length fields) never yields a wrong record: reading returns the
  records before the damaged one and stops there.\<close>

theorem wal_damage_detected:
  assumes "list_all rec_fits rs"
    and "length k \<le> 65535" "length (slice_bytes v) < 2 ^ 32"
    and "payload_pos op k v p" and "b \<noteq> wal_record op k v ! p"
  shows "read_records False (concat (map rec_bytes rs) @ (wal_record op k v)[p := b] @ s)
    = Ok (map rec_read rs)"
  using assms by (simp add: read_records_list read_records_damaged)

theorem wal_damage_detected_witness:
  "read_records False ((wal_record OpPut [107] (Some [118]))[12 := 119] @ [1, 2, 3]) = Ok []"
  using wal_damage_detected [of "[]" "[107]" "Some [118]" OpPut 12 119 "[1, 2, 3]"]
  by (simp add: payload_pos_def length_wal_record walHeaderSize_def wal_record_parts
      nth_append)

text \<open>Property C27. A key of 65529 to 65535 bytes is accepted by \<open>WAL.Append\<close>, and then
  \<open>ReadWALRecords\<close> panics on the log: the slice bound \<open>7+keyLen\<close> wraps around in
  \<open>uint16\<close>. The data directory cannot be opened again.\<close>

theorem wal_long_key_panics:
  assumes "65529 \<le> length k" "length k \<le> 65535" "length (slice_bytes v) < 2 ^ 32"
    and "fs_read d (wal_path w) = Some (concat (map rec_bytes rs))" "list_all rec_fits rs" "file_open w"
  shows "snd (wal_Append d w op k v NoFault) = Ok () \<and>
    ReadWALRecords (fst (wal_Append d w op k v NoFault)) (wal_path w) ReadOk = Panic"
proof
  show "snd (wal_Append d w op k v NoFault) = Ok ()"
    using assms(2,6) by (simp add: wal_Append_def Let_def)
  let ?c = "le 4 (unat (ChecksumIEEE (wal_body op k v)))"
  have "unle ?c = unat (ChecksumIEEE (wal_body op k v))"
    by (rule unle_le_id) (rule unat_crc_less)
  then have "read_records False (?c @ [op] @ le 2 (length k) @ le 4 (length (slice_bytes v))
      @ (k @ slice_bytes v) @ []) = Panic"
    using assms(1-3) by (subst read_records_header) (auto simp: wal_body_def)
  then have "read_records False (wal_record op k v) = Panic"
    by (simp add: wal_record_parts)
  then have "read_records False (concat (map rec_bytes rs) @ wal_record op k v) = Panic"
    using assms(5) by (simp add: read_records_list)
  then show "ReadWALRecords (fst (wal_Append d w op k v NoFault)) (wal_path w) ReadOk = Panic"
    using assms(2,4,6) by (simp add: wal_Append_def Let_def ReadWALRecords_def update_conv')
qed

theorem wal_long_key_panics_witness:
  "ReadWALRecords (fst (wal_Append [(''wal.log'', [])] \<lparr>wal_path = ''wal.log'', file_open = True\<rparr> OpPut
     (replicate 65529 0) None NoFault)) ''wal.log'' ReadOk = Panic"
  using wal_long_key_panics [of "replicate 65529 0" None "[(''wal.log'', [])]"
     "\<lparr>wal_path = ''wal.log'', file_open = True\<rparr>" "[]" OpPut]
  by simp

end
