(* ===== verification/RaftNode.thy ===== *)
theory RaftNode
  imports Config WAL
begin

text \<open>
  The state of a Raft node (\<open>internal/raft/node.go\<close>): the node record, its creation, the
  persistent state file and its two routines, \<open>Propose\<close> and the accessors, and the
  messages of \<open>proto/raft.proto\<close>.

  Terms and indexes are \<open>uint64\<close>: natural numbers whose increments wrap modulo \<open>2 ^ 64\<close>
  (\<open>u64\<close>). A Go run-time panic is \<open>None\<close>. The record also holds what the node shares with
  its surroundings: the peers its pool is connected to, the buffer of the apply channel
  with the goroutines blocked on it, the files of its data directory, and (\<open>n_io\<close>) whether
  it can write them. Timers have no
  state here: a timeout may happen whenever the node is not leader.
\<close>

section \<open>Messages\<close>

definition u64 :: "nat \<Rightarrow> nat" where
  "u64 x = x mod 2 ^ 64"

lemma u64_id [simp]: "x < 2 ^ 64 \<Longrightarrow> u64 x = x"
  by (simp add: u64_def)

record LogEntry =
  l_Index :: nat
  l_Term :: nat
  l_Data :: bytes

record RequestVoteRequest =
  rv_Term :: nat
  rv_CandidateId :: string
  rv_LastLogIndex :: nat
  rv_LastLogTerm :: nat

record RequestVoteResponse =
  vr_Term :: nat
  vr_VoteGranted :: bool

record AppendEntriesRequest =
  ae_Term :: nat
  ae_LeaderId :: string
  ae_PrevLogIndex :: nat
  ae_PrevLogTerm :: nat
  ae_Entries :: "LogEntry list"
  ae_LeaderCommit :: nat

record AppendEntriesResponse =
  ar_Term :: nat
  ar_Success :: bool
  ar_MatchIndex :: nat

record InstallSnapshotRequest =
  is_Term :: nat
  is_LeaderId :: string
  is_LastIncludedIndex :: nat
  is_LastIncludedTerm :: nat
  is_Data :: bytes

record InstallSnapshotResponse =
  ir_Term :: nat

record ApplyMsg =
  CommandValid :: bool
  Command :: bytes
  CommandIndex :: nat
  SnapshotValid :: bool
  Snapshot :: bytes
  SnapshotIndex :: nat
  SnapshotTerm :: nat

section \<open>The node\<close>

datatype Role = Follower | Candidate | Leader

text \<open>
  What the file system does when the node writes its state file: it works, the temporary file cannot
  be created, only the first bytes reach the file (a full disk; the writes after the failed one are
  attempted, the sync too, and their errors are dropped), or the rename fails.
\<close>

datatype persist_fault = PersistOk | CreateStateFails | StateWritesCut nat | RenameStateFails

record Node =
  n_id :: string
  currentTerm :: nat
  votedFor :: string
  n_log :: "LogEntry list"
  commitIndex :: nat
  lastApplied :: nat
  n_role :: Role
  nextIndex :: "string \<Rightarrow> nat"
  matchIndex :: "string \<Rightarrow> nat"
  n_cfg :: Config
  peerIDs :: "string list"
  applyCh :: "ApplyMsg list"
  applyCap :: nat
  blocked :: "ApplyMsg list"
  n_disk :: fs
  n_io :: persist_fault

text \<open>\<open>n.log[len(n.log)-1]\<close> panics on an empty log.\<close>

definition lastLogIndexLocked :: "Node \<Rightarrow> nat option" where
  "lastLogIndexLocked n = (if n_log n = [] then None else Some (l_Index (last (n_log n))))"

definition lastLogTermLocked :: "Node \<Rightarrow> nat option" where
  "lastLogTermLocked n = (if n_log n = [] then None else Some (l_Term (last (n_log n))))"

section \<open>The state file\<close>

text \<open>Go strings are bytes.\<close>

definition string_bytes :: "string \<Rightarrow> bytes" where
  "string_bytes s = map (\<lambda>c. of_nat (of_char c)) s"

definition bytes_string :: "bytes \<Rightarrow> string" where
  "bytes_string b = map (\<lambda>x. char_of (unat x)) b"

definition stateFilePath :: string where "stateFilePath = ''raft_state.bin''"

definition encode_entry :: "LogEntry \<Rightarrow> bytes" where
  "encode_entry e = le 8 (l_Index e) @ le 8 (l_Term e) @ le 4 (length (l_Data e)) @ l_Data e"

definition encode_state :: "Node \<Rightarrow> bytes" where
  "encode_state n =
     le 8 (currentTerm n) @ le 2 (length (string_bytes (votedFor n))) @ string_bytes (votedFor n)
       @ le 4 (length (n_log n)) @ concat (map encode_entry (n_log n))"

definition persistStateLocked :: "Node \<Rightarrow> Node" where
  "persistStateLocked n =
     (let tmp = stateFilePath @ ''.tmp''
      in case n_io n of
           CreateStateFails \<Rightarrow> n
         | StateWritesCut k \<Rightarrow>
             n\<lparr>n_disk := fs_write stateFilePath (take k (encode_state n)) (fs_remove tmp (n_disk n))\<rparr>
         | RenameStateFails \<Rightarrow> n\<lparr>n_disk := fs_write tmp (encode_state n) (n_disk n)\<rparr>
         | PersistOk \<Rightarrow> n\<lparr>n_disk := fs_write stateFilePath (encode_state n) (fs_remove tmp (n_disk n))\<rparr>)"

text \<open>The loop over the log entries: those read, and whether all of them could be read.\<close>

fun load_entries :: "nat \<Rightarrow> bytes \<Rightarrow> LogEntry list \<times> bool" where
  "load_entries 0 s = ([], True)"
| "load_entries (Suc i) s =
     (case read_full 8 s of
        None \<Rightarrow> ([], False)
      | Some (b1, s1) \<Rightarrow>
          (case read_full 8 s1 of
             None \<Rightarrow> ([], False)
           | Some (b2, s2) \<Rightarrow>
               (case read_full 4 s2 of
                  None \<Rightarrow> ([], False)
                | Some (b3, s3) \<Rightarrow>
                    (case read_full (unle b3) s3 of
                       None \<Rightarrow> ([], False)
                     | Some (data, s4) \<Rightarrow>
                         let (es, ok) = load_entries i s4
                         in (\<lparr>l_Index = unle b1, l_Term = unle b2, l_Data = data\<rparr> # es, ok)))))"

text \<open>
  \<open>loadState\<close> assigns each field as it is read, so a read error leaves the fields read so
  far; the second component tells whether it returned nil.
\<close>

definition load_log :: "Node \<Rightarrow> bytes \<Rightarrow> Node \<times> bool" where
  "load_log n s =
     (case read_full 4 s of
        None \<Rightarrow> (n, False)
      | Some (b, s') \<Rightarrow>
          let logCount = unle b
          in if logCount > 0
             then let (es, ok) = load_entries logCount s' in (n\<lparr>n_log := es\<rparr>, ok)
             else (n, True))"

definition load_vote :: "Node \<Rightarrow> bytes \<Rightarrow> Node \<times> bool" where
  "load_vote n s =
     (case read_full 2 s of
        None \<Rightarrow> (n, False)
      | Some (b, s') \<Rightarrow>
          let votedLen = unle b
          in if votedLen > 0
             then (case read_full votedLen s' of
                     None \<Rightarrow> (n, False)
                   | Some (votedBytes, s'') \<Rightarrow> load_log (n\<lparr>votedFor := bytes_string votedBytes\<rparr>) s'')
             else load_log n s')"

definition loadState :: "Node \<Rightarrow> Node \<times> bool" where
  "loadState n =
     (case fs_read (n_disk n) stateFilePath of
        None \<Rightarrow> (n, True)
      | Some f \<Rightarrow>
          (case read_full 8 f of
             None \<Rightarrow> (n, False)
           | Some (b, s) \<Rightarrow> load_vote (n\<lparr>currentTerm := unle b\<rparr>) s))"

section \<open>Operations\<close>

definition fresh_node :: "Config \<Rightarrow> string list \<Rightarrow> nat \<Rightarrow> fs \<Rightarrow> Node" where
  "fresh_node cfg peers cap d =
     \<lparr>n_id = NodeID cfg, currentTerm = 0, votedFor = [],
      n_log = [\<lparr>l_Index = 0, l_Term = 0, l_Data = []\<rparr>], commitIndex = 0, lastApplied = 0,
      n_role = Follower, nextIndex = (\<lambda>_. 0), matchIndex = (\<lambda>_. 0), n_cfg = cfg, peerIDs = peers,
      applyCh = [], applyCap = cap, blocked = [], n_disk = d, n_io = PersistOk\<rparr>"

definition NewNode :: "Config \<Rightarrow> string list \<Rightarrow> nat \<Rightarrow> fs \<Rightarrow> (config_error, Node) outcome" where
  "NewNode cfg peers cap d =
     (case Validate cfg of
        Some err \<Rightarrow> Err err
      | None \<Rightarrow> Ok (fst (loadState (fresh_node cfg peers cap d))))"

text \<open>A proposal: the node, the index and term of the entry, and whether it was accepted.\<close>

definition Propose :: "Node \<Rightarrow> bytes \<Rightarrow> (Node \<times> nat \<times> nat \<times> bool) option" where
  "Propose n data =
     (if n_role n \<noteq> Leader then Some (n, 0, 0, False)
      else
        (case lastLogIndexLocked n of
           None \<Rightarrow> None
         | Some lastIndex \<Rightarrow>
             let newIndex = u64 (lastIndex + 1);
                 newTerm = currentTerm n;
                 entry = \<lparr>l_Index = newIndex, l_Term = newTerm, l_Data = data\<rparr>
             in Some (persistStateLocked (n\<lparr>n_log := n_log n @ [entry]\<rparr>), newIndex, newTerm, True)))"

definition GetState :: "Node \<Rightarrow> nat \<times> bool" where
  "GetState n = (currentTerm n, n_role n = Leader)"

definition GetRole :: "Node \<Rightarrow> Role" where
  "GetRole n = n_role n"

definition ID :: "Node \<Rightarrow> string" where
  "ID n = n_id n"

text \<open>
  The election timeout in milliseconds; \<open>r\<close> is the result of \<open>rand.Intn\<close>, below its
  argument, which panics unless it is positive.
\<close>

definition election_range :: "Config \<Rightarrow> int" where
  "election_range cfg =
     ElectionTimeoutMax cfg div Millisecond - ElectionTimeoutMin cfg div Millisecond + 1"

definition resetElectionTimerLocked :: "Node \<Rightarrow> int \<Rightarrow> int option" where
  "resetElectionTimerLocked n r =
     (if election_range (n_cfg n) \<le> 0 then None
      else Some (ElectionTimeoutMin (n_cfg n) div Millisecond + r))"

text \<open>The tick of the event loop: the field \<open>lastHeartbeat\<close> afterwards, and the term for which
  heartbeats are sent, if they are due.\<close>

definition checkTimers :: "Node \<Rightarrow> int \<Rightarrow> int \<Rightarrow> int \<times> nat option" where
  "checkTimers n lastHeartbeat timeNow =
     (if n_role n = Leader \<and> timeNow - lastHeartbeat \<ge> HeartbeatInterval (n_cfg n)
      then (timeNow, Some (currentTerm n)) else (lastHeartbeat, None))"

definition Role_String :: "Role \<Rightarrow> string" where
  "Role_String r = (case r of Follower \<Rightarrow> ''Follower'' | Candidate \<Rightarrow> ''Candidate'' | Leader \<Rightarrow> ''Leader'')"

section \<open>Lemmas: the state file\<close>

definition entry_sized :: "LogEntry \<Rightarrow> bool" where
  "entry_sized e \<longleftrightarrow> l_Index e < 2 ^ 64 \<and> l_Term e < 2 ^ 64 \<and> length (l_Data e) < 2 ^ 32"

definition node_sized :: "Node \<Rightarrow> bool" where
  "node_sized n \<longleftrightarrow> currentTerm n < 2 ^ 64 \<and> length (votedFor n) < 65536 \<and> n_log n \<noteq> [] \<and>
     length (n_log n) < 2 ^ 32 \<and> list_all entry_sized (n_log n)"

lemma bytes_string_bytes [simp]: "bytes_string (string_bytes s) = s"
proof -
  have "char_of (unat (of_nat (of_char c) :: byte)) = c" for c
  proof -
    have "(of_char c :: nat) < 256" by (rule nat_of_char_less_256)
    then have "unat (of_nat (of_char c) :: byte) = of_char c"
      by (simp add: unat_byte_of_nat)
    then show ?thesis by simp
  qed
  then show ?thesis by (simp add: bytes_string_def string_bytes_def comp_def map_idI)
qed

lemma length_string_bytes [simp]: "length (string_bytes s) = length s"
  by (simp add: string_bytes_def)

lemma loadState_frame:
  "n_cfg (fst (loadState n)) = n_cfg n" "peerIDs (fst (loadState n)) = peerIDs n"
  by (simp_all add: loadState_def load_vote_def load_log_def Let_def split: option.split prod.split)

lemma load_entries_step:
  assumes "entry_sized e"
  shows "load_entries (Suc i) (encode_entry e @ s) =
    (let (es, ok) = load_entries i s in (e # es, ok))"
proof -
  have u: "unle (le 8 (l_Index e)) = l_Index e" "unle (le 8 (l_Term e)) = l_Term e"
      "unle (le 4 (length (l_Data e))) = length (l_Data e)"
    using assms by (simp_all add: entry_sized_def unle_le_id)
  have r: "read_full 8 (le 8 m @ x) = Some (le 8 m, x)" "read_full 4 (le 4 m @ x) = Some (le 4 m, x)" for m x
    by simp_all
  have p: "encode_entry e @ s =
      le 8 (l_Index e) @ le 8 (l_Term e) @ le 4 (length (l_Data e)) @ l_Data e @ s"
    by (simp add: encode_entry_def)
  show ?thesis
    unfolding p load_entries.simps(2) r option.case prod.case u read_full_append [OF refl]
    by (cases e) (simp split: prod.splits)
qed

lemma load_entries_list:
  "list_all entry_sized es \<Longrightarrow>
    load_entries (length es + i) (concat (map encode_entry es) @ s) =
      (let (es', ok) = load_entries i s in (es @ es', ok))"
  by (induction es) (auto simp: load_entries_step simp del: load_entries.simps split: prod.splits)

lemma load_entries_torn:
  assumes "entry_sized e" "m < length (encode_entry e)"
  shows "load_entries (Suc i) (take m (encode_entry e)) = ([], False)"
proof -
  let ?s = "take m (encode_entry e)"
  have e: "encode_entry e = le 8 (l_Index e) @ le 8 (l_Term e) @ le 4 (length (l_Data e)) @ l_Data e"
    by (simp add: encode_entry_def)
  have len: "length ?s = m" "m < 20 + length (l_Data e)"
    using assms(2) by (simp_all add: encode_entry_def)
  consider "m < 8" | "8 \<le> m" "m < 16" | "16 \<le> m" "m < 20" | "20 \<le> m"
    by linarith
  then show ?thesis
  proof cases
    case 4
    have p: "?s = le 8 (l_Index e) @ le 8 (l_Term e) @ le 4 (length (l_Data e)) @ take (m - 20) (l_Data e)"
      using 4 by (simp add: e)
    have r: "read_full 8 (le 8 x @ y) = Some (le 8 x, y)" "read_full 4 (le 4 x @ y) = Some (le 4 x, y)" for x y
      by simp_all
    have "unle (le 4 (length (l_Data e))) = length (l_Data e)"
      using assms(1) by (simp add: entry_sized_def unle_le_id)
    moreover have "read_full (length (l_Data e)) (take (m - 20) (l_Data e)) = None"
      using len(2) 4 by (simp add: read_full_None)
    ultimately show ?thesis
      unfolding p load_entries.simps(2) r option.case prod.case by simp
  qed (use len(1) in \<open>simp_all add: read_full_def\<close>)
qed

lemma loadState_header:
  assumes "node_sized n" "fs_read (n_disk n0) stateFilePath = Some (le 8 (currentTerm n) @
      le 2 (length (votedFor n)) @ string_bytes (votedFor n) @ le 4 (length (n_log n)) @ s)"
    and "votedFor n0 = []"
  shows "loadState n0 =
    (let (es, ok) = load_entries (length (n_log n)) s
     in (n0\<lparr>currentTerm := currentTerm n, votedFor := votedFor n, n_log := es\<rparr>, ok))"
proof -
  have u: "unle (le 8 (currentTerm n)) = currentTerm n" "unle (le 2 (length (votedFor n))) = length (votedFor n)"
      "unle (le 4 (length (n_log n))) = length (n_log n)" "length (n_log n) > 0"
    using assms(1) by (simp_all add: node_sized_def unle_le_id)
  have r: "read_full 8 (le 8 m @ x) = Some (le 8 m, x)" "read_full 2 (le 2 m @ x) = Some (le 2 m, x)"
      "read_full 4 (le 4 m @ x) = Some (le 4 m, x)"
      "read_full (length (votedFor n)) (string_bytes (votedFor n) @ x) = Some (string_bytes (votedFor n), x)" for m x
    by simp_all
  have l: "load_log n1 (le 4 (length (n_log n)) @ s) =
      (let (es, ok) = load_entries (length (n_log n)) s in (n1\<lparr>n_log := es\<rparr>, ok))" for n1
    unfolding load_log_def r option.case prod.case Let_def u(3) using u(4) by simp
  have "load_vote n1 (le 2 (length (votedFor n)) @ string_bytes (votedFor n) @ le 4 (length (n_log n)) @ s) =
      (let (es, ok) = load_entries (length (n_log n)) s in (n1\<lparr>votedFor := votedFor n, n_log := es\<rparr>, ok))"
    if "votedFor n1 = []" for n1
  proof (cases "votedFor n = []")
    case True
    then have "string_bytes (votedFor n) = []" and "n1\<lparr>votedFor := []\<rparr> = n1"
      using that by (simp_all add: string_bytes_def)
    with True show ?thesis
      unfolding load_vote_def r option.case prod.case Let_def u(2) using l [of n1]
      by (simp split: prod.splits)
  next
    case False
    then show ?thesis
      unfolding load_vote_def r option.case prod.case Let_def u(2) by (simp add: l split: prod.splits)
  qed
  from this [of "n0\<lparr>currentTerm := currentTerm n\<rparr>"] show ?thesis
    unfolding loadState_def assms(2) r option.case prod.case u(1) using assms(3) by simp
qed

lemma encode_state_parts:
  "encode_state n = le 8 (currentTerm n) @ le 2 (length (votedFor n)) @ string_bytes (votedFor n)
     @ le 4 (length (n_log n)) @ concat (map encode_entry (n_log n))"
  by (simp add: encode_state_def)

lemma persist_disk [simp]:
  "n_io n = PersistOk \<Longrightarrow> fs_read (n_disk (persistStateLocked n)) stateFilePath = Some (encode_state n)"
  by (simp add: persistStateLocked_def update_conv')

lemma persist_fields [simp]:
  "n_id (persistStateLocked n) = n_id n" "currentTerm (persistStateLocked n) = currentTerm n"
  "votedFor (persistStateLocked n) = votedFor n" "n_log (persistStateLocked n) = n_log n"
  "commitIndex (persistStateLocked n) = commitIndex n" "lastApplied (persistStateLocked n) = lastApplied n"
  "n_role (persistStateLocked n) = n_role n" "nextIndex (persistStateLocked n) = nextIndex n"
  "matchIndex (persistStateLocked n) = matchIndex n" "n_cfg (persistStateLocked n) = n_cfg n"
  "peerIDs (persistStateLocked n) = peerIDs n" "applyCh (persistStateLocked n) = applyCh n"
  "applyCap (persistStateLocked n) = applyCap n" "blocked (persistStateLocked n) = blocked n"
  "n_io (persistStateLocked n) = n_io n"
  by (simp_all add: persistStateLocked_def Let_def split: persist_fault.splits)

lemma fresh_fields [simp]:
  "votedFor (fresh_node cfg peers cap d) = []" "n_disk (fresh_node cfg peers cap d) = d"
  "n_io (fresh_node cfg peers cap d) = PersistOk"
  by (simp_all add: fresh_node_def)

lemma loadState_saved:
  assumes "node_sized n" "fs_read d stateFilePath = Some (encode_state n)"
  shows "loadState (fresh_node cfg peers cap d) =
    ((fresh_node cfg peers cap d)\<lparr>currentTerm := currentTerm n, votedFor := votedFor n, n_log := n_log n\<rparr>, True)"
proof -
  have "list_all entry_sized (n_log n)"
    using assms(1) by (simp add: node_sized_def)
  from load_entries_list [OF this, of 0 "[]"]
  have "load_entries (length (n_log n)) (concat (map encode_entry (n_log n))) = (n_log n, True)"
    by simp
  with assms(2) loadState_header [OF assms(1), of "fresh_node cfg peers cap d" "concat (map encode_entry (n_log n))"]
  show ?thesis by (simp add: encode_state_parts)
qed

section \<open>Properties\<close>

text \<open>Property C32. The state file round trip: a node created on the directory of a node that persisted its
  state, on a working disk, has the same term, vote and log, with the volatile state reset (follower, nothing
  committed or applied).\<close>

theorem raft_state_roundtrip:
  assumes "node_sized n" and "n_io n = PersistOk" and "Validate cfg = None"
  shows "\<exists>n'. NewNode cfg peers cap (n_disk (persistStateLocked n)) = Ok n' \<and>
    currentTerm n' = currentTerm n \<and> votedFor n' = votedFor n \<and> n_log n' = n_log n \<and>
    n_role n' = Follower \<and> commitIndex n' = 0 \<and> lastApplied n' = 0"
  using loadState_saved [OF assms(1) persist_disk [OF assms(2)], of cfg peers cap] assms(3)
  by (simp add: NewNode_def fresh_node_def)

theorem raft_state_roundtrip_witness:
  "\<exists>n'. NewNode (DefaultConfig\<lparr>NodeID := ''n1'', ListenAddr := '':1'', Peers := [''n2''], DataDir := ''d''\<rparr>)
      [''n2''] 8 (n_disk (persistStateLocked ((fresh_node DefaultConfig [''n2''] 8 [])
        \<lparr>currentTerm := 7, votedFor := ''n2''\<rparr>))) = Ok n' \<and> currentTerm n' = 7 \<and> votedFor n' = ''n2''"
  using raft_state_roundtrip [of "(fresh_node DefaultConfig [''n2''] 8 [])\<lparr>currentTerm := 7, votedFor := ''n2''\<rparr>"
     "DefaultConfig\<lparr>NodeID := ''n1'', ListenAddr := '':1'', Peers := [''n2''], DataDir := ''d''\<rparr>" "[''n2'']" 8]
  by (auto simp: node_sized_def entry_sized_def fresh_node_def Validate_def DefaultConfig_def Millisecond_def wrap64_def)

text \<open>Fact. A state file cut off within the entry at position \<open>j\<close> of the log is reported as an error,
  but \<open>NewNode\<close> only logs it and goes on with the term, the vote and the first \<open>j\<close>
  entries instead of a fresh state. Cut off in the first entry, the node runs with an empty
  log, on which reading the last log index panics.\<close>

theorem raft_state_cut_off:
  assumes "node_sized n" and "Validate cfg = None" and "j < length (n_log n)"
    and "m < length (encode_entry (n_log n ! j))"
    and "fs_read d stateFilePath = Some (le 8 (currentTerm n) @ le 2 (length (votedFor n))
        @ string_bytes (votedFor n) @ le 4 (length (n_log n))
        @ concat (map encode_entry (take j (n_log n))) @ take m (encode_entry (n_log n ! j)))"
  shows "\<exists>n'. loadState (fresh_node cfg peers cap d) = (n', False) \<and> NewNode cfg peers cap d = Ok n' \<and>
    currentTerm n' = currentTerm n \<and> votedFor n' = votedFor n \<and> n_log n' = take j (n_log n) \<and>
    (j = 0 \<longrightarrow> lastLogIndexLocked n' = None)"
proof -
  let ?s = "concat (map encode_entry (take j (n_log n))) @ take m (encode_entry (n_log n ! j))"
  have sized: "list_all entry_sized (take j (n_log n))" "entry_sized (n_log n ! j)"
    using assms(1,3) by (auto simp: node_sized_def list_all_iff dest: in_set_takeD)
  let ?i = "length (n_log n) - j - 1"
  have len: "length (take j (n_log n)) + Suc ?i = length (n_log n)"
    using assms(3) by simp
  have "load_entries (length (take j (n_log n)) + Suc ?i) ?s = (take j (n_log n), False)"
    unfolding load_entries_list [OF sized(1)] load_entries_torn [OF sized(2) assms(4)] by simp
  then have "load_entries (length (n_log n)) ?s = (take j (n_log n), False)"
    by (simp only: len)
  with loadState_header [OF assms(1), of "fresh_node cfg peers cap d" ?s] assms(2,5) show ?thesis
    by (simp add: NewNode_def lastLogIndexLocked_def)
qed

theorem raft_state_cut_off_witness:
  "\<exists>n'. NewNode (DefaultConfig\<lparr>NodeID := ''n1'', ListenAddr := '':1'', Peers := [''n2''], DataDir := ''d''\<rparr>)
      [''n2''] 8 [(stateFilePath, le 8 7 @ le 2 0 @ le 4 1 @ [0, 0, 0])] = Ok n' \<and> lastLogIndexLocked n' = None"
proof -
  let ?n = "(fresh_node DefaultConfig [''n2''] 8 [])\<lparr>currentTerm := 7\<rparr>"
  let ?c = "DefaultConfig\<lparr>NodeID := ''n1'', ListenAddr := '':1'', Peers := [''n2''], DataDir := ''d''\<rparr>"
  have "node_sized ?n" "Validate ?c = None"
    by (simp_all add: node_sized_def entry_sized_def fresh_node_def Validate_def DefaultConfig_def
        Millisecond_def wrap64_def)
  moreover have "n_log ?n = [\<lparr>l_Index = 0, l_Term = 0, l_Data = []\<rparr>]" "currentTerm ?n = 7" "votedFor ?n = []"
    by (simp_all add: fresh_node_def)
  ultimately show ?thesis
    using raft_state_cut_off [of ?n ?c 0 3 "[(stateFilePath, le 8 7 @ le 2 0 @ le 4 1 @ [0, 0, 0])]" "[''n2'']" 8]
    by (auto simp: encode_entry_def string_bytes_def numeral_3_eq_3 codec_simps)
qed

end
