(* ===== verification/Election.thy ===== *)
theory Election
  imports RaftNode
begin

text \<open>
  Leader election (\<open>internal/raft/election.go\<close>): the election timeout, the vote request
  and its handler, and \<open>startElection\<close> in the pieces between its lock regions: the handling
  of one peer's response (\<open>vote_response\<close>), the loop that counts the results (\<open>tally\<close>)
  and the transition to leader (\<open>elected\<close>). The lemmas describe each of them by its
  effect on the term, the vote and the role; the theorems are the contract of the vote
  handler.
\<close>

section \<open>Operations\<close>

text \<open>The election timeout; the result carries the request that \<open>startElection\<close> sends.\<close>

definition onElectionTimeout :: "Node \<Rightarrow> (Node \<times> RequestVoteRequest option) option" where
  "onElectionTimeout n =
     (if n_role n = Leader then Some (n, None)
      else
        let n1 = persistStateLocked
              (n\<lparr>n_role := Candidate, currentTerm := u64 (currentTerm n + 1), votedFor := n_id n\<rparr>)
        in case (lastLogIndexLocked n1, lastLogTermLocked n1) of
             (Some lastIndex, Some lastTerm) \<Rightarrow>
               Some (n1, Some \<lparr>rv_Term = currentTerm n1, rv_CandidateId = n_id n1,
                               rv_LastLogIndex = lastIndex, rv_LastLogTerm = lastTerm\<rparr>)
           | _ \<Rightarrow> None)"

text \<open>The step to a newer term that four places of the code take.\<close>

definition step_down :: "Node \<Rightarrow> nat \<Rightarrow> Node" where
  "step_down n t = persistStateLocked (n\<lparr>currentTerm := t, n_role := Follower, votedFor := []\<rparr>)"

text \<open>The goroutine of \<open>startElection\<close> after the reply of one peer, with the value it sends.\<close>

definition vote_response :: "Node \<Rightarrow> nat \<Rightarrow> RequestVoteResponse \<Rightarrow> Node \<times> bool" where
  "vote_response n t resp =
     (if vr_Term resp > currentTerm n then (step_down n (vr_Term resp), False)
      else (n, n_role n = Candidate \<and> currentTerm n = t \<and> vr_VoteGranted resp))"

text \<open>The counting loop: the number of votes at which the quorum was reached, if it was.\<close>

fun tally :: "nat \<Rightarrow> nat \<Rightarrow> bool list \<Rightarrow> nat option" where
  "tally quorum votesReceived [] = None"
| "tally quorum votesReceived (granted # rest) =
     (if granted then
        (if votesReceived + 1 \<ge> quorum then Some (votesReceived + 1)
         else tally quorum (votesReceived + 1) rest)
      else tally quorum votesReceived rest)"

definition init_leader :: "Node \<Rightarrow> nat \<Rightarrow> Node" where
  "init_leader n lastIndex =
     n\<lparr>n_role := Leader,
       nextIndex := (\<lambda>p. if p \<in> set (peerIDs n) then u64 (lastIndex + 1) else nextIndex n p),
       matchIndex := (\<lambda>p. if p \<in> set (peerIDs n) then 0 else matchIndex n p)\<rparr>"

definition elected :: "Node \<Rightarrow> nat \<Rightarrow> Node option" where
  "elected n t =
     (if n_role n = Candidate \<and> currentTerm n = t then
        (if peerIDs n = [] then Some (n\<lparr>n_role := Leader\<rparr>)
         else map_option (init_leader n) (lastLogIndexLocked n))
      else Some n)"

text \<open>The end of \<open>startElection\<close>, for the results received in this order.\<close>

definition startElection :: "Node \<Rightarrow> nat \<Rightarrow> bool list \<Rightarrow> Node option" where
  "startElection n t results =
     (case tally (Quorum (n_cfg n)) 1 results of None \<Rightarrow> Some n | Some votes \<Rightarrow> elected n t)"

definition log_up_to_date :: "nat \<Rightarrow> nat \<Rightarrow> RequestVoteRequest \<Rightarrow> bool" where
  "log_up_to_date lastTerm lastIndex req =
     (if rv_LastLogTerm req > lastTerm then True
      else rv_LastLogTerm req = lastTerm \<and> rv_LastLogIndex req \<ge> lastIndex)"

definition HandleRequestVote ::
  "Node \<Rightarrow> RequestVoteRequest \<Rightarrow> (Node \<times> RequestVoteResponse) option" where
  "HandleRequestVote n req =
     (if rv_Term req < currentTerm n
      then Some (n, \<lparr>vr_Term = currentTerm n, vr_VoteGranted = False\<rparr>)
      else
        let n1 = (if rv_Term req > currentTerm n then step_down n (rv_Term req) else n);
            canVote = (votedFor n1 = [] \<or> votedFor n1 = rv_CandidateId req)
        in case (lastLogTermLocked n1, lastLogIndexLocked n1) of
             (Some lastTerm, Some lastIndex) \<Rightarrow>
               if canVote \<and> log_up_to_date lastTerm lastIndex req
               then let n2 = persistStateLocked (n1\<lparr>votedFor := rv_CandidateId req\<rparr>)
                    in Some (n2, \<lparr>vr_Term = currentTerm n2, vr_VoteGranted = True\<rparr>)
               else Some (n1, \<lparr>vr_Term = currentTerm n1, vr_VoteGranted = False\<rparr>)
           | _ \<Rightarrow> None)"

section \<open>Lemmas\<close>

lemma step_down_fields [simp]:
  "n_id (step_down n t) = n_id n" "currentTerm (step_down n t) = t" "votedFor (step_down n t) = []"
  "n_io (step_down n t) = n_io n" "n_role (step_down n t) = Follower" "n_log (step_down n t) = n_log n" "n_cfg (step_down n t) = n_cfg n"
  "peerIDs (step_down n t) = peerIDs n" "commitIndex (step_down n t) = commitIndex n"
  "lastApplied (step_down n t) = lastApplied n" "nextIndex (step_down n t) = nextIndex n"
  "matchIndex (step_down n t) = matchIndex n" "applyCh (step_down n t) = applyCh n"
  "applyCap (step_down n t) = applyCap n" "blocked (step_down n t) = blocked n"
  by (simp_all add: step_down_def)

lemma lastLog_eq:
  "n_log n \<noteq> [] \<Longrightarrow> lastLogIndexLocked n = Some (l_Index (last (n_log n)))"
  "n_log n \<noteq> [] \<Longrightarrow> lastLogTermLocked n = Some (l_Term (last (n_log n)))"
  by (simp_all add: lastLogIndexLocked_def lastLogTermLocked_def)

lemma tally_count: "tally q v bs = Some m \<Longrightarrow> q \<le> m \<and> m \<le> v + length (filter (\<lambda>b. b) bs)"
  by (induction q v bs rule: tally.induct) (auto split: if_splits)

lemma tally_reaches: "v < q \<Longrightarrow> q \<le> v + length (filter (\<lambda>b. b) bs) \<Longrightarrow> \<exists>m. tally q v bs = Some m"
  by (induction q v bs rule: tally.induct) auto

lemma HandleRequestVote_eq:
  assumes "\<not> rv_Term req < currentTerm n" "n_log n \<noteq> []"
    and "n1 = (if rv_Term req > currentTerm n then step_down n (rv_Term req) else n)"
  shows "HandleRequestVote n req =
    (if (votedFor n1 = [] \<or> votedFor n1 = rv_CandidateId req) \<and>
         log_up_to_date (l_Term (last (n_log n))) (l_Index (last (n_log n))) req
     then Some (persistStateLocked (n1\<lparr>votedFor := rv_CandidateId req\<rparr>),
                \<lparr>vr_Term = rv_Term req, vr_VoteGranted = True\<rparr>)
     else Some (n1, \<lparr>vr_Term = rv_Term req, vr_VoteGranted = False\<rparr>))"
proof -
  have n1: "n_log n1 = n_log n" "currentTerm n1 = rv_Term req"
    using assms(1,3) by auto
  then have "lastLogTermLocked n1 = Some (l_Term (last (n_log n)))"
      "lastLogIndexLocked n1 = Some (l_Index (last (n_log n)))"
    using assms(2) by (simp_all add: lastLog_eq)
  with assms(1) n1(2) show ?thesis
    unfolding HandleRequestVote_def assms(3) [symmetric] Let_def by simp
qed

lemma HandleRequestVote_log: "HandleRequestVote n req = Some r \<Longrightarrow> \<not> rv_Term req < currentTerm n \<Longrightarrow> n_log n \<noteq> []"
  by (auto simp: HandleRequestVote_def lastLogTermLocked_def Let_def split: if_splits)

lemma HandleRequestVote_cases:
  assumes "HandleRequestVote n req = Some (n', resp)"
  obtains (stale) "rv_Term req < currentTerm n" "n' = n" "\<not> vr_VoteGranted resp"
  | (refused) "currentTerm n \<le> rv_Term req" "\<not> vr_VoteGranted resp" "vr_Term resp = rv_Term req"
      "n' = (if rv_Term req > currentTerm n then step_down n (rv_Term req) else n)"
  | (granted) "currentTerm n \<le> rv_Term req" "vr_VoteGranted resp" "vr_Term resp = rv_Term req"
      "n' = persistStateLocked ((if rv_Term req > currentTerm n then step_down n (rv_Term req) else n)
         \<lparr>votedFor := rv_CandidateId req\<rparr>)"
      "rv_Term req > currentTerm n \<or> votedFor n = [] \<or> votedFor n = rv_CandidateId req"
      "log_up_to_date (l_Term (last (n_log n))) (l_Index (last (n_log n))) req"
proof (cases "rv_Term req < currentTerm n")
  case True
  then show ?thesis
    using assms by (intro stale) (auto simp: HandleRequestVote_def)
next
  case False
  let ?n1 = "if rv_Term req > currentTerm n then step_down n (rv_Term req) else n"
  note eq = HandleRequestVote_eq [OF False HandleRequestVote_log [OF assms False] refl]
  show ?thesis
  proof (cases "(votedFor ?n1 = [] \<or> votedFor ?n1 = rv_CandidateId req) \<and>
      log_up_to_date (l_Term (last (n_log n))) (l_Index (last (n_log n))) req")
    case True
    then show ?thesis
      using assms False eq by (intro granted) (auto split: if_splits)
  next
    case False
    then have "HandleRequestVote n req = Some (?n1, \<lparr>vr_Term = rv_Term req, vr_VoteGranted = False\<rparr>)"
      unfolding eq by (rule if_not_P)
    with assms \<open>\<not> rv_Term req < currentTerm n\<close> show ?thesis
      by (intro refused) (simp_all only: option.inject prod.inject, auto)
  qed
qed

section \<open>Properties\<close>

text \<open>Property C31. The contract of \<open>HandleRequestVote\<close>, for a node with a non-empty log: it always
  answers; the term never decreases and ends at the larger of the two terms; a vote is granted exactly when the request
  is not from an older term, the node has not voted for another candidate in that term, and
  the candidate's log is at least as up to date; if the state file can be written, a granted vote is in it before
  the answer is returned; the log is not touched.\<close>

theorem request_vote_contract:
  assumes "n_log n \<noteq> []"
  shows "\<exists>n' resp. HandleRequestVote n req = Some (n', resp) \<and>
    currentTerm n' = max (currentTerm n) (rv_Term req) \<and> vr_Term resp = currentTerm n' \<and> n_log n' = n_log n \<and>
    (vr_VoteGranted resp \<longleftrightarrow>
       currentTerm n \<le> rv_Term req \<and>
       (currentTerm n < rv_Term req \<or> votedFor n = [] \<or> votedFor n = rv_CandidateId req) \<and>
       (l_Term (last (n_log n)) < rv_LastLogTerm req \<or>
        l_Term (last (n_log n)) = rv_LastLogTerm req \<and> l_Index (last (n_log n)) \<le> rv_LastLogIndex req)) \<and>
    (vr_VoteGranted resp \<longrightarrow> votedFor n' = rv_CandidateId req \<and>
       (n_io n = PersistOk \<longrightarrow> fs_read (n_disk n') stateFilePath = Some (encode_state n')))"
proof (cases "rv_Term req < currentTerm n")
  case True
  then show ?thesis by (simp add: HandleRequestVote_def)
next
  case False
  show ?thesis
    unfolding HandleRequestVote_eq [OF False assms refl] using False
    by (simp add: log_up_to_date_def encode_state_def)
qed

theorem request_vote_contract_witness:
  "\<exists>n' resp. HandleRequestVote (fresh_node DefaultConfig [''b''] 8 [])
      \<lparr>rv_Term = 3, rv_CandidateId = ''b'', rv_LastLogIndex = 0, rv_LastLogTerm = 0\<rparr> = Some (n', resp) \<and>
    currentTerm n' = 3 \<and> vr_VoteGranted resp \<and> votedFor n' = ''b''"
proof -
  let ?n = "fresh_node DefaultConfig [''b''] 8 []"
  have f: "n_log ?n = [\<lparr>l_Index = 0, l_Term = 0, l_Data = []\<rparr>]" "currentTerm ?n = 0"
    by (simp_all add: fresh_node_def)
  then have "n_log ?n \<noteq> []" by simp
  from request_vote_contract [OF this, of "\<lparr>rv_Term = 3, rv_CandidateId = ''b'', rv_LastLogIndex = 0, rv_LastLogTerm = 0\<rparr>"]
  show ?thesis
    by (auto simp: f)
qed

text \<open>Property C13. \<open>persistStateLocked\<close> only logs that it could not create the state file and drops every later error, so
  \<open>HandleRequestVote\<close> grants a vote that is not on the disk. A node whose disk refuses the state file
  (it cannot be created, or not be renamed) votes for one candidate, restarts, and votes for another one in the same term,
  which is what election safety must exclude.\<close>

theorem unsaved_vote_cast_twice:
  assumes "fs_read (n_disk n) stateFilePath = Some (encode_state n)" "node_sized n" "Validate (n_cfg n) = None"
    and "n_io n = CreateStateFails \<or> n_io n = RenameStateFails"
    and "n_log n \<noteq> []" "currentTerm n < rv_Term req" "rv_Term req' = rv_Term req"
    and "log_up_to_date (l_Term (last (n_log n))) (l_Index (last (n_log n))) req"
      "log_up_to_date (l_Term (last (n_log n))) (l_Index (last (n_log n))) req'"
  shows "\<exists>n1 resp n2 n3 resp'. HandleRequestVote n req = Some (n1, resp) \<and> vr_VoteGranted resp \<and>
    NewNode (n_cfg n) (peerIDs n) (applyCap n) (n_disk n1) = Ok n2 \<and>
    HandleRequestVote n2 req' = Some (n3, resp') \<and> vr_VoteGranted resp' \<and> vr_Term resp' = vr_Term resp"
proof -
  let ?n1 = "persistStateLocked ((step_down n (rv_Term req))\<lparr>votedFor := rv_CandidateId req\<rparr>)"
  have v1: "HandleRequestVote n req = Some (?n1, \<lparr>vr_Term = rv_Term req, vr_VoteGranted = True\<rparr>)"
    using assms(5,6,8) HandleRequestVote_eq [OF _ assms(5) refl, of req] by simp
  have "fs_read (n_disk ?n1) stateFilePath = Some (encode_state n)"
    using assms(1,4) by (auto simp: persistStateLocked_def step_down_def Let_def update_conv')
  from loadState_saved [OF assms(2) this] obtain n2 where n2:
    "NewNode (n_cfg n) (peerIDs n) (applyCap n) (n_disk ?n1) = Ok n2" "currentTerm n2 = currentTerm n" "n_log n2 = n_log n"
    using assms(3) by (simp add: NewNode_def)
  have "\<exists>n3. HandleRequestVote n2 req' = Some (n3, \<lparr>vr_Term = rv_Term req, vr_VoteGranted = True\<rparr>)"
    using assms(5-9) n2(2,3) HandleRequestVote_eq [of req' n2, OF _ _ refl] by simp
  with v1 n2(1) show ?thesis by auto
qed

theorem unsaved_vote_cast_twice_witness:
  "\<exists>n n1 resp n2 n3 resp'. currentTerm n = 7 \<and>
     HandleRequestVote n \<lparr>rv_Term = 8, rv_CandidateId = ''a'', rv_LastLogIndex = 0, rv_LastLogTerm = 0\<rparr> = Some (n1, resp) \<and>
     vr_VoteGranted resp \<and> NewNode (n_cfg n) (peerIDs n) (applyCap n) (n_disk n1) = Ok n2 \<and>
     HandleRequestVote n2 \<lparr>rv_Term = 8, rv_CandidateId = ''b'', rv_LastLogIndex = 0, rv_LastLogTerm = 0\<rparr> = Some (n3, resp') \<and>
     vr_VoteGranted resp'"
proof -
  let ?cfg = "DefaultConfig\<lparr>NodeID := ''c'', ListenAddr := '':1'', Peers := ['':2'', '':3''], DataDir := ''d''\<rparr>"
  let ?n0 = "persistStateLocked ((fresh_node ?cfg [''a'', ''b''] 8 [])\<lparr>currentTerm := 7\<rparr>)"
  let ?n = "?n0\<lparr>n_io := CreateStateFails\<rparr>"
  have f: "n_log ?n = [\<lparr>l_Index = 0, l_Term = 0, l_Data = []\<rparr>]" "n_cfg ?n = ?cfg" "currentTerm ?n = 7"
    by (simp_all add: fresh_node_def)
  have "fs_read (n_disk ?n) stateFilePath = Some (encode_state ?n)" "node_sized ?n" "Validate (n_cfg ?n) = None"
    unfolding f(2) by (simp_all add: encode_state_def node_sized_def entry_sized_def fresh_node_def Validate_def
        DefaultConfig_def Millisecond_def wrap64_def)
  from unsaved_vote_cast_twice [OF this, of "\<lparr>rv_Term = 8, rv_CandidateId = ''a'', rv_LastLogIndex = 0, rv_LastLogTerm = 0\<rparr>"
      "\<lparr>rv_Term = 8, rv_CandidateId = ''b'', rv_LastLogIndex = 0, rv_LastLogTerm = 0\<rparr>"] f(1,3)
  show ?thesis by - (rule exI [of _ ?n], auto simp: log_up_to_date_def)
qed

end
