(* ===== verification/Replication.thy ===== *)
theory Replication
  imports Election
begin

text \<open>
  Log replication (\<open>internal/raft/replication.go\<close>): the request a leader builds for a peer,
  the handling of the reply, the commit rule, the hand-over of committed entries to the apply
  channel, and \<open>HandleAppendEntries\<close>. \<open>replicateToPeer\<close> releases the lock for the call, so
  it is two definitions, one per lock region. Positions in the log are list positions, as in the
  code; a position outside the log is a panic (\<open>None\<close>).
\<close>

section \<open>Committing and applying\<close>

text \<open>A send on the apply channel; when its buffer is full a new goroutine blocks on it.\<close>

definition send_apply :: "Node \<Rightarrow> ApplyMsg \<Rightarrow> Node" where
  "send_apply n msg =
     (if length (applyCh n) < applyCap n then n\<lparr>applyCh := applyCh n @ [msg]\<rparr>
      else n\<lparr>blocked := blocked n @ [msg]\<rparr>)"

definition apply_msg :: "LogEntry \<Rightarrow> ApplyMsg" where
  "apply_msg e =
     \<lparr>CommandValid = True, Command = l_Data e, CommandIndex = l_Index e, SnapshotValid = False,
      Snapshot = [], SnapshotIndex = 0, SnapshotTerm = 0\<rparr>"

lemma send_apply_fields [simp]:
  "n_log (send_apply n m) = n_log n" "commitIndex (send_apply n m) = commitIndex n"
  "lastApplied (send_apply n m) = lastApplied n" "currentTerm (send_apply n m) = currentTerm n"
  "votedFor (send_apply n m) = votedFor n" "n_role (send_apply n m) = n_role n" "n_id (send_apply n m) = n_id n"
  "n_io (send_apply n m) = n_io n" "n_cfg (send_apply n m) = n_cfg n" "peerIDs (send_apply n m) = peerIDs n"
  "nextIndex (send_apply n m) = nextIndex n" "matchIndex (send_apply n m) = matchIndex n"
  "n_disk (send_apply n m) = n_disk n" "applyCap (send_apply n m) = applyCap n"
  by (simp_all add: send_apply_def)

function applyCommittedEntriesLocked :: "Node \<Rightarrow> Node option" where
  "applyCommittedEntriesLocked n =
     (if lastApplied n < commitIndex n then
        (if lastApplied n + 1 < length (n_log n) then
           applyCommittedEntriesLocked
             (send_apply (n\<lparr>lastApplied := lastApplied n + 1\<rparr>) (apply_msg (n_log n ! (lastApplied n + 1))))
         else None)
      else Some n)"
  by pat_completeness auto
termination
  by (relation "measure (\<lambda>n. commitIndex n - lastApplied n)") auto

declare applyCommittedEntriesLocked.simps [simp del]

definition replicated :: "Node \<Rightarrow> nat \<Rightarrow> nat" where
  "replicated n N = 1 + length (filter (\<lambda>p. matchIndex n p \<ge> N) (peerIDs n))"

fun advance_commit :: "Node \<Rightarrow> nat \<Rightarrow> Node option" where
  "advance_commit n 0 = Some n"
| "advance_commit n (Suc m) =
     (let N = Suc m
      in if N > commitIndex n then
           (if N < length (n_log n) then
              (if l_Term (n_log n ! N) \<noteq> currentTerm n then advance_commit n m
               else if replicated n N \<ge> Quorum (n_cfg n)
               then applyCommittedEntriesLocked (n\<lparr>commitIndex := N\<rparr>)
               else advance_commit n m)
            else None)
         else Some n)"

definition maybeAdvanceCommitIndexLocked :: "Node \<Rightarrow> Node option" where
  "maybeAdvanceCommitIndexLocked n =
     (case lastLogIndexLocked n of None \<Rightarrow> None | Some lastIndex \<Rightarrow> advance_commit n lastIndex)"

section \<open>The leader\<close>

definition replicateToPeers :: "Node \<Rightarrow> nat \<Rightarrow> string list" where
  "replicateToPeers n t = (if n_role n \<noteq> Leader \<or> currentTerm n \<noteq> t then [] else peerIDs n)"

text \<open>The first lock region of \<open>replicateToPeer\<close>: the request, if the node still leads the term.\<close>

definition replicate_request :: "Node \<Rightarrow> string \<Rightarrow> nat \<Rightarrow> AppendEntriesRequest option" where
  "replicate_request n peerID t =
     (if n_role n \<noteq> Leader \<or> currentTerm n \<noteq> t then None
      else
        let nextIdx = (if nextIndex n peerID = 0 then 1 else nextIndex n peerID);
            prevLogIndex = nextIdx - 1;
            prevLogTerm = (if prevLogIndex < length (n_log n) then l_Term (n_log n ! prevLogIndex) else 0)
        in Some \<lparr>ae_Term = t, ae_LeaderId = n_id n, ae_PrevLogIndex = prevLogIndex,
                 ae_PrevLogTerm = prevLogTerm,
                 ae_Entries = (if nextIdx < length (n_log n) then drop nextIdx (n_log n) else []),
                 ae_LeaderCommit = commitIndex n\<rparr>)"

text \<open>The second lock region, with the entries that were sent.\<close>

definition replicate_response ::
  "Node \<Rightarrow> string \<Rightarrow> nat \<Rightarrow> LogEntry list \<Rightarrow> AppendEntriesResponse \<Rightarrow> Node option" where
  "replicate_response n peerID t entries resp =
     (if ar_Term resp > currentTerm n then Some (step_down n (ar_Term resp))
      else if n_role n \<noteq> Leader \<or> currentTerm n \<noteq> t then Some n
      else if ar_Success resp then
        (if entries \<noteq> [] then
           let lastNewEntryIndex = l_Index (last entries)
           in maybeAdvanceCommitIndexLocked
                (n\<lparr>matchIndex := (matchIndex n)(peerID := lastNewEntryIndex),
                   nextIndex := (nextIndex n)(peerID := u64 (lastNewEntryIndex + 1))\<rparr>)
         else Some n)
      else if nextIndex n peerID > 1
      then Some (n\<lparr>nextIndex := (nextIndex n)(peerID := nextIndex n peerID - 1)\<rparr>)
      else Some n)"

section \<open>The follower\<close>

text \<open>The loop over the entries of a request, from log position \<open>idx\<close> on.\<close>

fun append_entries :: "nat \<Rightarrow> LogEntry list \<Rightarrow> LogEntry list \<Rightarrow> LogEntry list" where
  "append_entries idx [] lg = lg"
| "append_entries idx (entry # es) lg =
     append_entries (idx + 1) es
       (if idx < length lg then
          (if l_Term (lg ! idx) \<noteq> l_Term entry then take idx lg @ [entry] else lg)
        else lg @ [entry])"

definition HandleAppendEntries ::
  "Node \<Rightarrow> AppendEntriesRequest \<Rightarrow> (Node \<times> AppendEntriesResponse) option" where
  "HandleAppendEntries n req =
     (let refused = \<lparr>ar_Term = currentTerm n, ar_Success = False, ar_MatchIndex = 0\<rparr>
      in if ae_Term req < currentTerm n then Some (n, refused)
         else
           let n1 = (if ae_Term req > currentTerm n \<or> n_role n = Candidate
                     then step_down n (ae_Term req) else n)
           in if ae_PrevLogIndex req \<ge> length (n_log n1) then Some (n1, refused)
              else if l_Term (n_log n1 ! ae_PrevLogIndex req) \<noteq> ae_PrevLogTerm req
              then Some (persistStateLocked (n1\<lparr>n_log := take (ae_PrevLogIndex req) (n_log n1)\<rparr>), refused)
              else
                let n2 = persistStateLocked
                      (n1\<lparr>n_log := append_entries (ae_PrevLogIndex req + 1) (ae_Entries req) (n_log n1)\<rparr>)
                in case lastLogIndexLocked n2 of
                     None \<Rightarrow> None
                   | Some lastNewIndex \<Rightarrow>
                       let r = (if ae_LeaderCommit req > commitIndex n2
                                then applyCommittedEntriesLocked
                                  (n2\<lparr>commitIndex := (if ae_LeaderCommit req < lastNewIndex
                                                       then ae_LeaderCommit req else lastNewIndex)\<rparr>)
                                else Some n2)
                       in map_option (\<lambda>n3. (n3, \<lparr>ar_Term = currentTerm n, ar_Success = True,
                                               ar_MatchIndex = lastNewIndex\<rparr>)) r)"

section \<open>Lemmas: applying\<close>

definition apply_frame :: "Node \<Rightarrow> Node \<Rightarrow> bool" where
  "apply_frame n n' \<longleftrightarrow>
     n_id n' = n_id n \<and> currentTerm n' = currentTerm n \<and> votedFor n' = votedFor n \<and> n_log n' = n_log n \<and>
     commitIndex n' = commitIndex n \<and> n_role n' = n_role n \<and> nextIndex n' = nextIndex n \<and>
     matchIndex n' = matchIndex n \<and> n_cfg n' = n_cfg n \<and> peerIDs n' = peerIDs n \<and> n_disk n' = n_disk n \<and>
     applyCap n' = applyCap n \<and> n_io n' = n_io n"

lemma apply_step:
  "lastApplied n < commitIndex n \<Longrightarrow> commitIndex n < length (n_log n) \<Longrightarrow>
    applyCommittedEntriesLocked n = applyCommittedEntriesLocked
      (send_apply (n\<lparr>lastApplied := lastApplied n + 1\<rparr>) (apply_msg (n_log n ! (lastApplied n + 1))))"
  by (subst applyCommittedEntriesLocked.simps) simp

text \<open>The messages produced, in order: those that fit into the buffer, then the blocked ones.\<close>

lemma applyCommitted_frame:
  "applyCommittedEntriesLocked n = Some n' \<Longrightarrow>
    apply_frame n n' \<and> lastApplied n' = max (lastApplied n) (commitIndex n)"
proof (induction n rule: applyCommittedEntriesLocked.induct)
  case (1 n)
  show ?case
  proof (cases "lastApplied n < commitIndex n")
    case False
    with "1.prems" show ?thesis
      by (subst (asm) applyCommittedEntriesLocked.simps) (auto simp: apply_frame_def)
  next
    case True
    have "lastApplied n + 1 < length (n_log n)"
      using "1.prems" True by (subst (asm) applyCommittedEntriesLocked.simps) (auto split: if_splits)
    with "1.IH" [OF True this] "1.prems" True show ?thesis
      by (subst (asm) applyCommittedEntriesLocked.simps) (auto simp: apply_frame_def)
  qed
qed

lemma applyCommitted_total:
  "commitIndex n < length (n_log n) \<Longrightarrow> \<exists>n'. applyCommittedEntriesLocked n = Some n'"
proof (induction n rule: applyCommittedEntriesLocked.induct)
  case (1 n)
  show ?case
    using 1 by (subst applyCommittedEntriesLocked.simps) auto
qed

lemma applyCommitted_messages:
  "applyCommittedEntriesLocked n = Some n' \<Longrightarrow> blocked n = [] \<or> applyCap n \<le> length (applyCh n) \<Longrightarrow>
    applyCh n' @ blocked n' = applyCh n @ blocked n @
      map (\<lambda>i. apply_msg (n_log n ! i)) [lastApplied n + 1 ..< commitIndex n + 1]"
proof (induction n rule: applyCommittedEntriesLocked.induct)
  case (1 n)
  show ?case
  proof (cases "lastApplied n < commitIndex n")
    case False
    with "1.prems" show ?thesis
      by (subst (asm) applyCommittedEntriesLocked.simps) auto
  next
    case True
    let ?n = "send_apply (n\<lparr>lastApplied := lastApplied n + 1\<rparr>) (apply_msg (n_log n ! (lastApplied n + 1)))"
    have lt: "lastApplied n + 1 < length (n_log n)"
      using "1.prems"(1) True by (subst (asm) applyCommittedEntriesLocked.simps) (auto split: if_splits)
    then have "applyCommittedEntriesLocked ?n = Some n'"
      using "1.prems"(1) True by (subst (asm) applyCommittedEntriesLocked.simps) simp
    moreover have "blocked ?n = [] \<or> applyCap ?n \<le> length (applyCh ?n)"
      using "1.prems"(2) by (auto simp: send_apply_def)
    moreover have "applyCh ?n @ blocked ?n = applyCh n @ blocked n @ [apply_msg (n_log n ! (lastApplied n + 1))]"
      using "1.prems"(2) by (auto simp: send_apply_def)
    moreover have "[lastApplied n + 1 ..< commitIndex n + 1] =
        (lastApplied n + 1) # [lastApplied n + 1 + 1 ..< commitIndex n + 1]"
      using True by (simp add: upt_conv_Cons del: upt_Suc)
    ultimately show ?thesis
      using "1.IH" [OF True lt] by (simp del: upt_Suc)
  qed
qed

lemma applyCommitted_room:
  "applyCommittedEntriesLocked n = Some n' \<Longrightarrow> blocked n = [] \<Longrightarrow>
    length (applyCh n) + (commitIndex n - lastApplied n) \<le> applyCap n \<Longrightarrow> blocked n' = []"
proof (induction n rule: applyCommittedEntriesLocked.induct)
  case (1 n)
  show ?case
  proof (cases "lastApplied n < commitIndex n")
    case False
    with "1.prems" show ?thesis
      by (subst (asm) applyCommittedEntriesLocked.simps) auto
  next
    case True
    have lt: "lastApplied n + 1 < length (n_log n)"
      using "1.prems"(1) True by (subst (asm) applyCommittedEntriesLocked.simps) (auto split: if_splits)
    show ?thesis
    proof (rule "1.IH" [OF True lt])
      show "applyCommittedEntriesLocked (send_apply (n\<lparr>lastApplied := lastApplied n + 1\<rparr>)
          (apply_msg (n_log n ! (lastApplied n + 1)))) = Some n'"
        using "1.prems"(1) True lt by (subst (asm) applyCommittedEntriesLocked.simps) simp
    qed (use "1.prems" True in \<open>auto simp: send_apply_def\<close>)
  qed
qed

section \<open>Lemmas: the log merge\<close>

text \<open>
  The number of entries of a request that the log already holds (same position and term),
  and the merge in closed form: everything after them is replaced by the rest of the request,
  unless there is none.
\<close>

fun common :: "nat \<Rightarrow> LogEntry list \<Rightarrow> LogEntry list \<Rightarrow> nat" where
  "common idx [] lg = 0"
| "common idx (e # es) lg =
     (if idx < length lg \<and> l_Term (lg ! idx) = l_Term e then Suc (common (idx + 1) es lg) else 0)"

lemma common_le: "common idx es lg \<le> length es"
  by (induction idx es lg rule: common.induct) auto

lemma common_in_log: "common idx es lg = 0 \<or> idx + common idx es lg \<le> length lg"
  by (induction idx es lg rule: common.induct) auto

lemma common_terms:
  "i < common idx es lg \<Longrightarrow> idx + i < length lg \<and> l_Term (lg ! (idx + i)) = l_Term (es ! i)"
proof (induction idx es lg arbitrary: i rule: common.induct)
  case (2 idx e es lg)
  then show ?case by (cases i) (auto split: if_splits)
qed simp

lemma append_entries_end: "append_entries (length lg) es lg = lg @ es"
proof (induction es arbitrary: lg)
  case (Cons e es)
  have "append_entries (length lg) (e # es) lg = append_entries (length (lg @ [e])) es (lg @ [e])"
    by simp
  also have "\<dots> = (lg @ [e]) @ es"
    by (rule Cons.IH)
  finally show ?case by simp
qed simp

lemma append_entries_eq:
  assumes "idx \<le> length lg"
  shows "append_entries idx es lg =
    (if common idx es lg = length es then lg
     else take (idx + common idx es lg) lg @ drop (common idx es lg) es)"
  using assms
proof (induction idx es lg rule: common.induct)
  case (2 idx e es lg)
  consider "idx < length lg" "l_Term (lg ! idx) = l_Term e"
    | "idx < length lg" "l_Term (lg ! idx) \<noteq> l_Term e" | "idx = length lg"
    using "2.prems" by linarith
  then show ?case
  proof cases
    case 1
    then show ?thesis using "2.IH" by auto
  next
    case 2
    then have "append_entries idx (e # es) lg = append_entries (length (take idx lg @ [e])) es (take idx lg @ [e])"
      by (simp add: min_def)
    with 2 show ?thesis
      unfolding append_entries_end by simp
  next
    case 3
    then have "append_entries idx (e # es) lg = append_entries (length (lg @ [e])) es (lg @ [e])"
      by simp
    with 3 show ?thesis
      unfolding append_entries_end by simp
  qed
qed simp

lemma append_entries_prefix:
  "idx \<le> length lg \<Longrightarrow> take idx (append_entries idx es lg) = take idx lg"
  using common_in_log [of idx es lg] by (auto simp: append_entries_eq min_def)

lemma append_entries_terms:
  assumes "idx \<le> length lg" "i < length es"
  shows "idx + i < length (append_entries idx es lg) \<and>
    l_Term (append_entries idx es lg ! (idx + i)) = l_Term (es ! i)"
proof (cases "i < common idx es lg")
  case True
  then show ?thesis
    using common_terms [OF True] assms common_in_log [of idx es lg]
    by (auto simp: append_entries_eq nth_append)
next
  case False
  then have "common idx es lg \<noteq> length es"
    using assms(2) by auto
  moreover have "idx + common idx es lg \<le> length lg"
    using common_in_log [of idx es lg] assms(1) by auto
  ultimately show ?thesis
    using False assms(2) by (auto simp: append_entries_eq [OF assms(1)] nth_append)
qed

lemma append_entries_again:
  assumes "idx \<le> length lg"
  shows "append_entries idx es (append_entries idx es lg) = append_entries idx es lg"
proof -
  let ?l = "append_entries idx es lg"
  have "length (take idx ?l) = idx"
    using append_entries_prefix [OF assms] assms by simp
  then have idx: "idx \<le> length ?l"
    by simp
  have "common idx es l = length es" if "\<forall>i < length es. idx + i < length l \<and> l_Term (l ! (idx + i)) = l_Term (es ! i)" for l
    using that
  proof (induction idx es l rule: common.induct)
    case (2 idx e es l)
    have "\<forall>i < length es. idx + 1 + i < length l \<and> l_Term (l ! (idx + 1 + i)) = l_Term (es ! i)"
    proof (intro allI impI)
      fix i
      assume "i < length es"
      then show "idx + 1 + i < length l \<and> l_Term (l ! (idx + 1 + i)) = l_Term (es ! i)"
        using "2.prems" [rule_format, of "Suc i"] by simp
    qed
    with 2 show ?case by auto
  qed simp
  then have "common idx es ?l = length es"
    using append_entries_terms [OF assms] by blast
  then show ?thesis
    by (simp add: append_entries_eq [OF idx])
qed

section \<open>Lemmas: the handlers\<close>

text \<open>Entries carry their list position as index.\<close>

definition indexed :: "LogEntry list \<Rightarrow> bool" where
  "indexed lg \<longleftrightarrow> lg \<noteq> [] \<and> (\<forall>i < length lg. l_Index (lg ! i) = i)"

lemma indexed_last: "indexed lg \<Longrightarrow> l_Index (last lg) = length lg - 1"
  by (simp add: indexed_def last_conv_nth)

lemma indexed_append_entries:
  assumes "indexed lg" "idx \<le> length lg" "0 < idx" "\<forall>i < length es. l_Index (es ! i) = idx + i"
  shows "indexed (append_entries idx es lg)"
proof (cases "common idx es lg = length es")
  case True
  with assms show ?thesis by (simp add: append_entries_eq)
next
  case False
  have le: "idx + common idx es lg \<le> length lg"
    using common_in_log [of idx es lg] assms(2) by auto
  have "l_Index ((take (idx + common idx es lg) lg @ drop (common idx es lg) es) ! i) = i"
    if "i < length (take (idx + common idx es lg) lg @ drop (common idx es lg) es)" for i
    using that assms(1,4) le common_le [of idx es lg] by (auto simp: nth_append indexed_def)
  moreover have "take (idx + common idx es lg) lg \<noteq> []"
    using assms(1,3) by (auto simp: indexed_def)
  ultimately show ?thesis
    using False by (auto simp: append_entries_eq [OF assms(2)] indexed_def)
qed

lemma indexed_take: "indexed lg \<Longrightarrow> 0 < m \<Longrightarrow> indexed (take m lg)"
  by (auto simp: indexed_def)

definition accepted_term :: "Node \<Rightarrow> AppendEntriesRequest \<Rightarrow> Node" where
  "accepted_term n req =
     (if ae_Term req > currentTerm n \<or> n_role n = Candidate then step_down n (ae_Term req) else n)"

lemma accepted_term_fields [simp]:
  "n_id (accepted_term n req) = n_id n" "n_log (accepted_term n req) = n_log n"
  "n_io (accepted_term n req) = n_io n" "n_cfg (accepted_term n req) = n_cfg n" "peerIDs (accepted_term n req) = peerIDs n"
  "commitIndex (accepted_term n req) = commitIndex n" "lastApplied (accepted_term n req) = lastApplied n"
  "nextIndex (accepted_term n req) = nextIndex n" "matchIndex (accepted_term n req) = matchIndex n"
  by (simp_all add: accepted_term_def)

lemma accepted_term_term: "currentTerm n \<le> ae_Term req \<Longrightarrow> currentTerm (accepted_term n req) = ae_Term req"
  by (auto simp: accepted_term_def)

definition merged_node :: "Node \<Rightarrow> AppendEntriesRequest \<Rightarrow> Node" where
  "merged_node n req = persistStateLocked ((accepted_term n req)
     \<lparr>n_log := append_entries (ae_PrevLogIndex req + 1) (ae_Entries req) (n_log n)\<rparr>)"

lemma HandleAppendEntries_eq:
  "HandleAppendEntries n req =
    (if ae_Term req < currentTerm n then Some (n, \<lparr>ar_Term = currentTerm n, ar_Success = False, ar_MatchIndex = 0\<rparr>)
     else if ae_PrevLogIndex req \<ge> length (n_log n)
     then Some (accepted_term n req, \<lparr>ar_Term = currentTerm n, ar_Success = False, ar_MatchIndex = 0\<rparr>)
     else if l_Term (n_log n ! ae_PrevLogIndex req) \<noteq> ae_PrevLogTerm req
     then Some (persistStateLocked ((accepted_term n req)\<lparr>n_log := take (ae_PrevLogIndex req) (n_log n)\<rparr>),
       \<lparr>ar_Term = currentTerm n, ar_Success = False, ar_MatchIndex = 0\<rparr>)
     else case lastLogIndexLocked (merged_node n req) of
            None \<Rightarrow> None
          | Some l \<Rightarrow> map_option (\<lambda>n3. (n3, \<lparr>ar_Term = currentTerm n, ar_Success = True, ar_MatchIndex = l\<rparr>))
              (if ae_LeaderCommit req > commitIndex n
               then applyCommittedEntriesLocked ((merged_node n req)\<lparr>commitIndex := min (ae_LeaderCommit req) l\<rparr>)
               else Some (merged_node n req)))"
proof -
  have c: "commitIndex (merged_node n req) = commitIndex n"
    by (simp add: merged_node_def)
  have m: "(if x < y then x else y) = min x y" for x y :: nat
    by simp
  show ?thesis
    unfolding HandleAppendEntries_def Let_def accepted_term_def [symmetric] accepted_term_fields
      merged_node_def [symmetric] c m ..
qed

lemma HandleAppendEntries_cases:
  assumes "HandleAppendEntries n req = Some (n', resp)"
  obtains (stale) "ae_Term req < currentTerm n" "n' = n" "\<not> ar_Success resp"
  | (missing) "currentTerm n \<le> ae_Term req" "length (n_log n) \<le> ae_PrevLogIndex req"
      "n' = accepted_term n req" "\<not> ar_Success resp"
  | (conflict) "currentTerm n \<le> ae_Term req" "ae_PrevLogIndex req < length (n_log n)"
      "l_Term (n_log n ! ae_PrevLogIndex req) \<noteq> ae_PrevLogTerm req"
      "n' = persistStateLocked ((accepted_term n req)\<lparr>n_log := take (ae_PrevLogIndex req) (n_log n)\<rparr>)"
      "\<not> ar_Success resp"
  | (merged) l where "currentTerm n \<le> ae_Term req" "ae_PrevLogIndex req < length (n_log n)"
      "l_Term (n_log n ! ae_PrevLogIndex req) = ae_PrevLogTerm req" "ar_Success resp"
      "lastLogIndexLocked (merged_node n req) = Some l"
      "if ae_LeaderCommit req > commitIndex n
       then applyCommittedEntriesLocked
         ((merged_node n req)\<lparr>commitIndex := min (ae_LeaderCommit req) l\<rparr>) = Some n'
       else n' = merged_node n req"
proof -
  consider "ae_Term req < currentTerm n"
    | "currentTerm n \<le> ae_Term req" "length (n_log n) \<le> ae_PrevLogIndex req"
    | "currentTerm n \<le> ae_Term req" "ae_PrevLogIndex req < length (n_log n)"
        "l_Term (n_log n ! ae_PrevLogIndex req) \<noteq> ae_PrevLogTerm req"
    | "currentTerm n \<le> ae_Term req" "ae_PrevLogIndex req < length (n_log n)"
        "l_Term (n_log n ! ae_PrevLogIndex req) = ae_PrevLogTerm req"
    by linarith
  then show ?thesis
  proof cases
    case 1
    with assms show ?thesis by (intro stale) (auto simp: HandleAppendEntries_eq)
  next
    case 2
    with assms show ?thesis by (intro missing) (auto simp: HandleAppendEntries_eq)
  next
    case 3
    with assms show ?thesis by (intro conflict) (auto simp: HandleAppendEntries_eq)
  next
    case 4
    then obtain l where "lastLogIndexLocked (merged_node n req) = Some l" "ar_Success resp"
      "if ae_LeaderCommit req > commitIndex n
       then applyCommittedEntriesLocked
         ((merged_node n req)\<lparr>commitIndex := min (ae_LeaderCommit req) l\<rparr>) = Some n'
       else n' = merged_node n req"
      using assms unfolding HandleAppendEntries_eq by (auto split: option.splits if_splits)
    with 4 show ?thesis by (intro merged) auto
  qed
qed

lemma merged_node_fields [simp]:
  "n_id (merged_node n req) = n_id n" "n_io (merged_node n req) = n_io n" "n_cfg (merged_node n req) = n_cfg n"
  "peerIDs (merged_node n req) = peerIDs n" "commitIndex (merged_node n req) = commitIndex n"
  "lastApplied (merged_node n req) = lastApplied n"
  "n_log (merged_node n req) = append_entries (ae_PrevLogIndex req + 1) (ae_Entries req) (n_log n)"
  "currentTerm (merged_node n req) = currentTerm (accepted_term n req)"
  "votedFor (merged_node n req) = votedFor (accepted_term n req)"
  "n_role (merged_node n req) = n_role (accepted_term n req)"
  "nextIndex (merged_node n req) = nextIndex n" "matchIndex (merged_node n req) = matchIndex n"
  by (simp_all add: merged_node_def)

lemma merged_node_disk: "n_io n = PersistOk \<Longrightarrow> fs_read (n_disk (merged_node n req)) stateFilePath = Some (encode_state (merged_node n req))"
  by (simp add: merged_node_def encode_state_def)

text \<open>The fields after an accepted request.\<close>

lemma HandleAppendEntries_merged:
  assumes n: "indexed (n_log n)" "commitIndex n < length (n_log n)" "currentTerm n \<le> ae_Term req"
      "ae_PrevLogIndex req < length (n_log n)" "l_Term (n_log n ! ae_PrevLogIndex req) = ae_PrevLogTerm req"
    and es: "\<forall>i < length (ae_Entries req). l_Index (ae_Entries req ! i) = ae_PrevLogIndex req + 1 + i"
    and keep: "commitIndex n < length (append_entries (ae_PrevLogIndex req + 1) (ae_Entries req) (n_log n))"
  shows "\<exists>n' resp. HandleAppendEntries n req = Some (n', resp) \<and> ar_Success resp \<and>
    currentTerm n' = ae_Term req \<and>
    n_log n' = append_entries (ae_PrevLogIndex req + 1) (ae_Entries req) (n_log n) \<and>
    commitIndex n' = max (commitIndex n) (min (ae_LeaderCommit req) (length (n_log n') - 1)) \<and>
    lastApplied n' = (if commitIndex n < ae_LeaderCommit req
      then max (lastApplied n) (commitIndex n') else lastApplied n) \<and>
    (n_io n = PersistOk \<longrightarrow> fs_read (n_disk n') stateFilePath = Some (encode_state n'))"
proof -
  define n2 where "n2 = merged_node n req"
  have lg: "n_log n2 = append_entries (ae_PrevLogIndex req + 1) (ae_Entries req) (n_log n)"
    by (simp add: n2_def)
  have ix: "indexed (n_log n2)"
    unfolding lg using n es by (intro indexed_append_entries) auto
  then have pos: "0 < length (n_log n2)" and l: "lastLogIndexLocked n2 = Some (length (n_log n2) - 1)"
    by (auto simp: indexed_def indexed_last lastLogIndexLocked_def)
  let ?n3 = "n2\<lparr>commitIndex := min (ae_LeaderCommit req) (length (n_log n2) - 1)\<rparr>"
  have "commitIndex ?n3 < length (n_log ?n3)"
    using pos by (simp add: min.strict_coboundedI2)
  then obtain n' where n': "applyCommittedEntriesLocked ?n3 = Some n'"
    using applyCommitted_total by blast
  note fr = applyCommitted_frame [OF n']
  have f: "currentTerm n2 = ae_Term req" "commitIndex n2 = commitIndex n" "lastApplied n2 = lastApplied n"
    using n(3) by (simp_all add: n2_def accepted_term_term)
  have d: "fs_read (n_disk n2) stateFilePath = Some (encode_state n2)" if "n_io n = PersistOk"
    using that unfolding n2_def by (rule merged_node_disk)
  let ?resp = "\<lparr>ar_Term = currentTerm n, ar_Success = True, ar_MatchIndex = length (n_log n2) - 1\<rparr>"
  have eq: "HandleAppendEntries n req =
      (if ae_LeaderCommit req > commitIndex n then Some (n', ?resp) else Some (n2, ?resp))"
    unfolding HandleAppendEntries_eq n2_def [symmetric] l option.case n' using n by simp
  show ?thesis
    unfolding lg [symmetric]
    using eq fr d f keep [folded lg] by (auto simp: apply_frame_def encode_state_def)
qed

section \<open>Lemmas: the commit rule\<close>

text \<open>The new commit index: the largest index above the old one with an entry of the leader's
  term that a quorum holds.\<close>

definition committable :: "Node \<Rightarrow> nat \<Rightarrow> bool" where
  "committable n N \<longleftrightarrow> commitIndex n < N \<and> N < length (n_log n) \<and> l_Term (n_log n ! N) = currentTerm n \<and>
     Quorum (n_cfg n) \<le> replicated n N"

lemma advance_commit_result:
  assumes "m < length (n_log n)"
  defines "C \<equiv> \<lambda>k. {N. N \<le> k \<and> committable n N}"
  shows "\<exists>n'. advance_commit n m = Some n' \<and> apply_frame (n\<lparr>commitIndex := commitIndex n'\<rparr>) n' \<and>
    (if C m = {} then n' = n
     else commitIndex n' = Max (C m) \<and> lastApplied n' = max (lastApplied n) (commitIndex n'))"
  using assms(1)
proof (induction m)
  case 0
  have "C 0 = {}"
    by (auto simp: C_def committable_def)
  then show ?case by (simp add: apply_frame_def)
next
  case (Suc m)
  show ?case
  proof (cases "committable n (Suc m)")
    case True
    then obtain n' where n': "applyCommittedEntriesLocked (n\<lparr>commitIndex := Suc m\<rparr>) = Some n'"
      using applyCommitted_total [of "n\<lparr>commitIndex := Suc m\<rparr>"] by (auto simp: committable_def)
    have "Suc m \<in> C (Suc m)" "finite (C (Suc m))"
      using True by (simp_all add: C_def)
    moreover from this have "Max (C (Suc m)) = Suc m"
      by (intro Max_eqI) (auto simp: C_def)
    moreover have "advance_commit n (Suc m) = Some n'"
      using True n' by (auto simp: committable_def Let_def)
    ultimately show ?thesis
      using applyCommitted_frame [OF n'] by (auto simp: apply_frame_def)
  next
    case False
    then have C: "C (Suc m) = C m"
      by (auto simp: C_def le_Suc_eq)
    show ?thesis
    proof (cases "commitIndex n < Suc m")
      case True
      then have "advance_commit n (Suc m) = advance_commit n m"
        using Suc.prems False by (auto simp: committable_def Let_def)
      with Suc.IH [OF Suc_lessD [OF Suc.prems]] show ?thesis by (simp only: C)
    next
      case False
      then have "C m = {}"
        by (auto simp: C_def committable_def)
      with False C show ?thesis by (simp add: apply_frame_def)
    qed
  qed
qed

lemma maybeAdvance_result:
  assumes "indexed (n_log n)"
  shows "\<exists>n'. maybeAdvanceCommitIndexLocked n = Some n' \<and> apply_frame (n\<lparr>commitIndex := commitIndex n'\<rparr>) n' \<and>
    (if {N. committable n N} = {} then n' = n
     else commitIndex n' = Max {N. committable n N} \<and> lastApplied n' = max (lastApplied n) (commitIndex n'))"
proof -
  have ne: "n_log n \<noteq> []"
    using assms by (simp add: indexed_def)
  then have "{N. N \<le> length (n_log n) - 1 \<and> committable n N} = {N. committable n N}"
    by (auto simp: committable_def)
  moreover have "maybeAdvanceCommitIndexLocked n = advance_commit n (length (n_log n) - 1)"
    using ne by (simp add: maybeAdvanceCommitIndexLocked_def lastLogIndexLocked_def indexed_last [OF assms])
  ultimately show ?thesis
    using advance_commit_result [of "length (n_log n) - 1" n] ne by (simp only:) simp
qed

section \<open>Properties\<close>

text \<open>Property C30. The commit rule of the leader, on a log whose entries carry their positions: the walk down the
  log always returns, and the commit index moves exactly to the largest position above it
  that holds an entry of the leader's current term and that a quorum (the leader and the
  peers whose match index reaches it) has replicated; without such a position nothing
  changes. Entries up to the new commit index are handed over for application.\<close>

theorem commit_rule:
  assumes "n_log n \<noteq> []" and "\<forall>i < length (n_log n). l_Index (n_log n ! i) = i"
  shows "\<exists>n'. maybeAdvanceCommitIndexLocked n = Some n' \<and>
    n_log n' = n_log n \<and> currentTerm n' = currentTerm n \<and>
    (let C = {N. commitIndex n < N \<and> N < length (n_log n) \<and> l_Term (n_log n ! N) = currentTerm n \<and>
                 Quorum (n_cfg n) \<le> 1 + length (filter (\<lambda>p. N \<le> matchIndex n p) (peerIDs n))}
     in if C = {} then n' = n
        else commitIndex n' = Max C \<and> lastApplied n' = max (lastApplied n) (Max C))"
proof -
  have C: "{N. commitIndex n < N \<and> N < length (n_log n) \<and> l_Term (n_log n ! N) = currentTerm n \<and>
      Quorum (n_cfg n) \<le> 1 + length (filter (\<lambda>p. N \<le> matchIndex n p) (peerIDs n))} = {N. committable n N}"
    by (simp add: committable_def replicated_def)
  have "indexed (n_log n)"
    using assms by (simp add: indexed_def)
  from maybeAdvance_result [OF this] obtain n' where "maybeAdvanceCommitIndexLocked n = Some n'"
    "apply_frame (n\<lparr>commitIndex := commitIndex n'\<rparr>) n'"
    "if {N. committable n N} = {} then n' = n
     else commitIndex n' = Max {N. committable n N} \<and> lastApplied n' = max (lastApplied n) (commitIndex n')"
    by blast
  then show ?thesis
    unfolding C Let_def by (intro exI [of _ n']) (simp add: apply_frame_def split: if_splits)
qed

theorem commit_rule_witness:
  "\<exists>n'. maybeAdvanceCommitIndexLocked ((fresh_node (DefaultConfig\<lparr>Peers := [''b'', ''c'']\<rparr>) [''b'', ''c''] 8 [])
      \<lparr>currentTerm := 2, n_role := Leader, matchIndex := (\<lambda>_. 0)(''b'' := 2),
       n_log := [\<lparr>l_Index = 0, l_Term = 0, l_Data = []\<rparr>, \<lparr>l_Index = 1, l_Term = 1, l_Data = [7]\<rparr>,
                 \<lparr>l_Index = 2, l_Term = 2, l_Data = [8]\<rparr>]\<rparr>) = Some n' \<and> commitIndex n' = 2"
proof -
  let ?n = "(fresh_node (DefaultConfig\<lparr>Peers := [''b'', ''c'']\<rparr>) [''b'', ''c''] 8 [])
      \<lparr>currentTerm := 2, n_role := Leader, matchIndex := (\<lambda>_. 0)(''b'' := 2),
       n_log := [\<lparr>l_Index = 0, l_Term = 0, l_Data = []\<rparr>, \<lparr>l_Index = 1, l_Term = 1, l_Data = [7]\<rparr>,
                 \<lparr>l_Index = 2, l_Term = 2, l_Data = [8]\<rparr>]\<rparr>"
  have ix: "n_log ?n \<noteq> []" "\<forall>i < length (n_log ?n). l_Index (n_log ?n ! i) = i"
    by (auto simp: less_Suc_eq_0_disj)
  have f: "commitIndex ?n = 0" "Quorum (n_cfg ?n) = 2" "peerIDs ?n = [''b'', ''c'']" "currentTerm ?n = 2"
      "matchIndex ?n = (\<lambda>_. 0)(''b'' := 2)" "length (n_log ?n) = 3" "l_Term (n_log ?n ! 2) = 2"
      "l_Term (n_log ?n ! 1) = 1"
    by (simp_all add: fresh_node_def Quorum_def ClusterSize_def)
  have C: "{N. commitIndex ?n < N \<and> N < length (n_log ?n) \<and> l_Term (n_log ?n ! N) = currentTerm ?n \<and>
      Quorum (n_cfg ?n) \<le> 1 + length (filter (\<lambda>p. N \<le> matchIndex ?n p) (peerIDs ?n))} = {2}" (is "?C = _")
  proof (rule set_eqI)
    fix N :: nat
    consider "N = 0" | "N = 1" | "N = 2" | "3 \<le> N"
      by linarith
    then show "N \<in> ?C \<longleftrightarrow> N \<in> {2}"
      by cases (simp_all only: mem_Collect_eq f, simp_all)
  qed
  show ?thesis
    using commit_rule [OF ix] unfolding Let_def C Max_singleton by (simp only: insert_not_empty if_False) blast
qed

text \<open>Property C29. The contract of \<open>HandleAppendEntries\<close> for a request that continues the log at a matching
  entry and does not cut into committed entries: it succeeds; the log keeps everything up
  to the longest run of entries it has in common with the request, and only behind a real
  conflict it is replaced by the request's entries; the commit index
  follows the leader's up to the end of the log and never decreases; the state file, if it can be
  written, holds the new state; and handling the request again leaves the log as it is.\<close>

theorem append_entries_contract:
  assumes "n_log n \<noteq> []" and "\<forall>i < length (n_log n). l_Index (n_log n ! i) = i"
    and "\<forall>i < length (ae_Entries req). l_Index (ae_Entries req ! i) = ae_PrevLogIndex req + 1 + i"
    and "currentTerm n \<le> ae_Term req" and "ae_PrevLogIndex req < length (n_log n)"
    and "l_Term (n_log n ! ae_PrevLogIndex req) = ae_PrevLogTerm req"
    and "commitIndex n < ae_PrevLogIndex req + 1 + common (ae_PrevLogIndex req + 1) (ae_Entries req) (n_log n)"
  shows "\<exists>n' resp. HandleAppendEntries n req = Some (n', resp) \<and> ar_Success resp \<and>
    currentTerm n' = ae_Term req \<and>
    (let p = ae_PrevLogIndex req + 1; m = common p (ae_Entries req) (n_log n)
     in n_log n' = (if m = length (ae_Entries req) then n_log n
                    else take (p + m) (n_log n) @ drop m (ae_Entries req))) \<and>
    commitIndex n' = max (commitIndex n) (min (ae_LeaderCommit req) (length (n_log n') - 1)) \<and>
    (n_io n = PersistOk \<longrightarrow> fs_read (n_disk n') stateFilePath = Some (encode_state n')) \<and>
    append_entries (ae_PrevLogIndex req + 1) (ae_Entries req) (n_log n') = n_log n'"
proof -
  let ?p = "ae_PrevLogIndex req + 1" and ?es = "ae_Entries req"
  have ix: "indexed (n_log n)"
    using assms(1,2) by (simp add: indexed_def)
  have p: "?p \<le> length (n_log n)"
    using assms(5) by simp
  have c: "?p + common ?p ?es (n_log n) \<le> length (n_log n)"
    using common_in_log [of ?p ?es "n_log n"] p by auto
  with assms(7) have "commitIndex n < length (n_log n)"
    by simp
  moreover have "commitIndex n < length (append_entries ?p ?es (n_log n))"
    unfolding append_entries_eq [OF p] using c assms(7) by auto
  ultimately obtain n' resp where "HandleAppendEntries n req = Some (n', resp)" "ar_Success resp"
    "currentTerm n' = ae_Term req" and lg: "n_log n' = append_entries ?p ?es (n_log n)"
    and "commitIndex n' = max (commitIndex n) (min (ae_LeaderCommit req) (length (n_log n') - 1))"
    "n_io n = PersistOk \<longrightarrow> fs_read (n_disk n') stateFilePath = Some (encode_state n')"
    using HandleAppendEntries_merged [OF ix _ assms(4,5,6,3)] by blast
  moreover have "append_entries ?p ?es (n_log n') = n_log n'"
    unfolding lg by (rule append_entries_again [OF p])
  ultimately show ?thesis
    unfolding Let_def append_entries_eq [OF p, symmetric] by blast
qed

theorem append_entries_contract_witness:
  "\<exists>n' resp. HandleAppendEntries (fresh_node DefaultConfig [''b''] 8 [])
      \<lparr>ae_Term = 3, ae_LeaderId = ''b'', ae_PrevLogIndex = 0, ae_PrevLogTerm = 0,
       ae_Entries = [\<lparr>l_Index = 1, l_Term = 3, l_Data = [7]\<rparr>], ae_LeaderCommit = 0\<rparr> = Some (n', resp) \<and>
    ar_Success resp \<and>
    n_log n' = [\<lparr>l_Index = 0, l_Term = 0, l_Data = []\<rparr>, \<lparr>l_Index = 1, l_Term = 3, l_Data = [7]\<rparr>]"
  using append_entries_contract [of "fresh_node DefaultConfig [''b''] 8 []"
      "\<lparr>ae_Term = 3, ae_LeaderId = ''b'', ae_PrevLogIndex = 0, ae_PrevLogTerm = 0,
       ae_Entries = [\<lparr>l_Index = 1, l_Term = 3, l_Data = [7]\<rparr>], ae_LeaderCommit = 0\<rparr>"]
  by (simp add: fresh_node_def) blast

text \<open>Fact. The hand-over of committed entries: from a node whose apply channel has no blocked sender,
  the entries after \<open>lastApplied\<close> up to the commit index become messages in log order; as
  many as the buffer has room for are queued, the others wait in goroutines of their own.
  If the buffer has room for all of them the state machine receives them in log order.\<close>

theorem apply_in_log_order:
  assumes "blocked n = []" and "commitIndex n < length (n_log n)"
  shows "\<exists>n'. applyCommittedEntriesLocked n = Some n' \<and>
    lastApplied n' = max (lastApplied n) (commitIndex n) \<and>
    applyCh n' @ blocked n' =
      applyCh n @ map (\<lambda>i. apply_msg (n_log n ! i)) [lastApplied n + 1 ..< commitIndex n + 1] \<and>
    (length (applyCh n) + (commitIndex n - lastApplied n) \<le> applyCap n \<longrightarrow> blocked n' = [])"
proof -
  obtain n' where n': "applyCommittedEntriesLocked n = Some n'"
    using applyCommitted_total [OF assms(2)] by blast
  have "blocked n' = []" if "length (applyCh n) + (commitIndex n - lastApplied n) \<le> applyCap n"
    using applyCommitted_room [OF n' assms(1) that] .
  with n' applyCommitted_frame [OF n'] applyCommitted_messages [OF n'] assms(1) show ?thesis
    by (simp del: upt_Suc)
qed

theorem apply_in_log_order_witness:
  "\<exists>n'. applyCommittedEntriesLocked ((fresh_node DefaultConfig [''b''] 8 [])\<lparr>commitIndex := 1,
      n_log := [\<lparr>l_Index = 0, l_Term = 0, l_Data = []\<rparr>, \<lparr>l_Index = 1, l_Term = 3, l_Data = [7]\<rparr>]\<rparr>) = Some n' \<and>
    applyCh n' = [apply_msg \<lparr>l_Index = 1, l_Term = 3, l_Data = [7]\<rparr>]"
proof -
  let ?n = "(fresh_node DefaultConfig [''b''] 8 [])\<lparr>commitIndex := 1,
      n_log := [\<lparr>l_Index = 0, l_Term = 0, l_Data = []\<rparr>, \<lparr>l_Index = 1, l_Term = 3, l_Data = [7]\<rparr>]\<rparr>"
  have "blocked ?n = []" "commitIndex ?n < length (n_log ?n)" "lastApplied ?n = 0" "applyCh ?n = []" "applyCap ?n = 8"
    by (simp_all add: fresh_node_def)
  then show ?thesis
    using apply_in_log_order [of ?n] by auto
qed

end
