(* ===== verification/Cluster.thy ===== *)
theory Cluster
  imports Replication
begin

text \<open>
  A cluster of nodes: the handlers of the other theories as the steps of a transition system
  with an unreliable network. A message, once sent, can be delivered any number of times, in
  any order, or never; a node can crash at any time and come back from its state file.
  Timeouts can happen at any time to any node; \<open>TimedCluster\<close> restricts them to nodes with an armed timer.

  Besides the nodes and the messages, the state records what happened for the proofs:
  \<open>voted\<close> the votes cast, with the voter's log at that time, \<open>leader\<close> the winner of each
  term, and \<open>llog\<close> the log of each term's leader; \<open>received\<close> are the messages the state
  machine of a node has received since the node started. No step depends on these four.

  Snapshots are not part of the transition system: the code breaks after one, as shown in
  the theory on snapshots. Steps that would overflow a 64-bit term or index are excluded.
\<close>

section \<open>The transition system\<close>

record Cluster =
  node :: "string \<Rightarrow> Node"
  vote_reqs :: "RequestVoteRequest set"
  vote_resps :: "(string \<times> RequestVoteRequest \<times> RequestVoteResponse) set"
  ballot :: "string \<Rightarrow> nat \<Rightarrow> (string \<times> bool) list"
  append_reqs :: "(string \<times> AppendEntriesRequest) set"
  append_resps :: "(string \<times> AppendEntriesRequest \<times> AppendEntriesResponse) set"
  received :: "string \<Rightarrow> ApplyMsg list"
  voted :: "(string \<times> nat \<times> string \<times> LogEntry list) set"
  leader :: "nat \<Rightarrow> string option"
  llog :: "nat \<Rightarrow> LogEntry list"

definition put_node :: "Cluster \<Rightarrow> string \<Rightarrow> Node \<Rightarrow> Cluster" where
  "put_node c i n = c\<lparr>node := (node c)(i := n)\<rparr>"

lemma put_node_fields [simp]:
  "node (put_node c i n) = (node c)(i := n)" "vote_reqs (put_node c i n) = vote_reqs c"
  "vote_resps (put_node c i n) = vote_resps c" "ballot (put_node c i n) = ballot c"
  "append_reqs (put_node c i n) = append_reqs c" "append_resps (put_node c i n) = append_resps c"
  "received (put_node c i n) = received c"
  "voted (put_node c i n) = voted c" "leader (put_node c i n) = leader c" "llog (put_node c i n) = llog c"
  by (simp_all add: put_node_def)

text \<open>A node of a cluster with members \<open>ms\<close>: connected to all the others.\<close>

definition member_node :: "string list \<Rightarrow> string \<Rightarrow> Node \<Rightarrow> bool" where
  "member_node ms i n \<longleftrightarrow>
     n_id n = i \<and> i \<noteq> [] \<and> NodeID (n_cfg n) = i \<and> Validate (n_cfg n) = None \<and>
     ClusterSize (n_cfg n) = length ms \<and> distinct (peerIDs n) \<and> set (peerIDs n) = set ms - {i}"

definition sentinel :: LogEntry where
  "sentinel = \<lparr>l_Index = 0, l_Term = 0, l_Data = []\<rparr>"

definition initial :: "string list \<Rightarrow> Cluster \<Rightarrow> bool" where
  "initial ms c \<longleftrightarrow>
     distinct ms \<and>
     (\<forall>i \<in> set ms. \<exists>cfg peers cap. node c i = fresh_node cfg peers cap [] \<and> member_node ms i (node c i)) \<and>
     vote_reqs c = {} \<and> vote_resps c = {} \<and> ballot c = (\<lambda>_ _. []) \<and> append_reqs c = {} \<and>
     append_resps c = {} \<and> received c = (\<lambda>_. []) \<and> voted c = {} \<and> leader c = (\<lambda>_. None) \<and> llog c = (\<lambda>_. [])"

text \<open>The apply channel between the node and its state machine: the send of a waiting goroutine, any
  of them, goes through when the buffer has room, and the applier receives the first message.\<close>

definition unblock_apply :: "Node \<Rightarrow> nat \<Rightarrow> Node option" where
  "unblock_apply n k =
     (if k < length (blocked n) \<and> length (applyCh n) < applyCap n
      then Some (n\<lparr>applyCh := applyCh n @ [blocked n ! k], blocked := take k (blocked n) @ drop (Suc k) (blocked n)\<rparr>)
      else None)"

definition receive_apply :: "Node \<Rightarrow> (Node \<times> ApplyMsg) option" where
  "receive_apply n = (case applyCh n of [] \<Rightarrow> None | m # q \<Rightarrow> Some (n\<lparr>applyCh := q\<rparr>, m))"

inductive cluster_step :: "string list \<Rightarrow> Cluster \<Rightarrow> Cluster \<Rightarrow> bool" for ms where
  timeout:
    "\<lbrakk>i \<in> set ms; currentTerm (node c i) + 1 < 2 ^ 64; onElectionTimeout (node c i) = Some (n', Some req)\<rbrakk>
      \<Longrightarrow> cluster_step ms c ((put_node c i n')\<lparr>vote_reqs := insert req (vote_reqs c),
            voted := insert (i, currentTerm n', i, n_log n') (voted c)\<rparr>)"
| request_vote:
    "\<lbrakk>req \<in> vote_reqs c; j \<in> set ms; j \<noteq> rv_CandidateId req; HandleRequestVote (node c j) req = Some (n', resp)\<rbrakk>
      \<Longrightarrow> cluster_step ms c ((put_node c j n')\<lparr>vote_resps := insert (j, req, resp) (vote_resps c),
            voted := (if vr_VoteGranted resp
              then insert (j, rv_Term req, rv_CandidateId req, n_log (node c j)) (voted c) else voted c)\<rparr>)"
| vote_reply:
    "\<lbrakk>(j, req, resp) \<in> vote_resps c; i = rv_CandidateId req; i \<in> set ms; t = rv_Term req;
      j \<notin> fst ` set (ballot c i t); vote_response (node c i) t resp = (n', granted)\<rbrakk>
      \<Longrightarrow> cluster_step ms c ((put_node c i n')\<lparr>ballot := (ballot c)(i := (ballot c i)(t := ballot c i t @ [(j, granted)]))\<rparr>)"
| count_votes:
    "\<lbrakk>i \<in> set ms; startElection (node c i) t (map snd (ballot c i t)) = Some n'\<rbrakk>
      \<Longrightarrow> cluster_step ms c (if n_role n' = Leader \<and> n_role (node c i) \<noteq> Leader
            then (put_node c i n')\<lparr>leader := (leader c)(t := Some i), llog := (llog c)(t := n_log n')\<rparr>
            else put_node c i n')"
| propose:
    "\<lbrakk>i \<in> set ms; length (n_log (node c i)) < 2 ^ 63; Propose (node c i) data = Some (n', idx, t, True)\<rbrakk>
      \<Longrightarrow> cluster_step ms c ((put_node c i n')\<lparr>llog := (llog c)(t := n_log n')\<rparr>)"
| replicate:
    "\<lbrakk>i \<in> set ms; p \<in> set (replicateToPeers (node c i) t); replicate_request (node c i) p t = Some req\<rbrakk>
      \<Longrightarrow> cluster_step ms c (c\<lparr>append_reqs := insert (p, req) (append_reqs c)\<rparr>)"
| append:
    "\<lbrakk>(j, req) \<in> append_reqs c; j \<in> set ms; HandleAppendEntries (node c j) req = Some (n', resp)\<rbrakk>
      \<Longrightarrow> cluster_step ms c ((put_node c j n')\<lparr>append_resps := insert (j, req, resp) (append_resps c)\<rparr>)"
| append_reply:
    "\<lbrakk>(j, req, resp) \<in> append_resps c; i = ae_LeaderId req; i \<in> set ms;
      replicate_response (node c i) j (ae_Term req) (ae_Entries req) resp = Some n'\<rbrakk>
      \<Longrightarrow> cluster_step ms c (put_node c i n')"
| restart:
    "\<lbrakk>i \<in> set ms; node_sized (node c i);
      NewNode (n_cfg (node c i)) (peerIDs (node c i)) (applyCap (node c i)) (n_disk (node c i)) = Ok n'\<rbrakk>
      \<Longrightarrow> cluster_step ms c ((put_node c i n')\<lparr>received := (received c)(i := [])\<rparr>)"
| unblock:
    "\<lbrakk>i \<in> set ms; unblock_apply (node c i) k = Some n'\<rbrakk> \<Longrightarrow> cluster_step ms c (put_node c i n')"
| receive:
    "\<lbrakk>i \<in> set ms; receive_apply (node c i) = Some (n', m)\<rbrakk>
      \<Longrightarrow> cluster_step ms c ((put_node c i n')\<lparr>received := (received c)(i := received c i @ [m])\<rparr>)"

inductive reachable :: "string list \<Rightarrow> Cluster \<Rightarrow> bool" for ms where
  start: "initial ms c \<Longrightarrow> reachable ms c"
| step: "reachable ms c \<Longrightarrow> cluster_step ms c c' \<Longrightarrow> reachable ms c'"

section \<open>What a step does to a node\<close>

lemma onElectionTimeout_Some:
  assumes "onElectionTimeout n = Some (n', Some req)" "currentTerm n + 1 < 2 ^ 64"
  shows "n_role n \<noteq> Leader \<and> n_log n \<noteq> [] \<and>
    n' = persistStateLocked (n\<lparr>n_role := Candidate, currentTerm := currentTerm n + 1, votedFor := n_id n\<rparr>) \<and>
    req = \<lparr>rv_Term = currentTerm n + 1, rv_CandidateId = n_id n, rv_LastLogIndex = l_Index (last (n_log n)),
      rv_LastLogTerm = l_Term (last (n_log n))\<rparr>"
  using assms
  by (auto simp: onElectionTimeout_def lastLogIndexLocked_def lastLogTermLocked_def Let_def split: if_splits)

lemma startElection_Some:
  assumes "startElection n t bs = Some n'"
  shows "n' = n \<or> (n_role n = Candidate \<and> currentTerm n = t \<and> tally (Quorum (n_cfg n)) 1 bs \<noteq> None \<and>
    n_role n' = Leader \<and> n_id n' = n_id n \<and> currentTerm n' = t \<and> votedFor n' = votedFor n \<and> n_log n' = n_log n \<and>
    commitIndex n' = commitIndex n \<and> lastApplied n' = lastApplied n \<and> n_cfg n' = n_cfg n \<and> peerIDs n' = peerIDs n \<and>
    applyCap n' = applyCap n \<and> n_disk n' = n_disk n \<and> n_io n' = n_io n \<and>
    (\<forall>p \<in> set (peerIDs n). n_log n \<noteq> [] \<and> nextIndex n' p = u64 (l_Index (last (n_log n)) + 1) \<and> matchIndex n' p = 0))"
  using assms
  by (auto simp: startElection_def elected_def init_leader_def lastLogIndexLocked_def split: option.splits if_splits)

lemma Propose_Some:
  assumes "Propose n data = Some (n', idx, t, True)"
  shows "n_role n = Leader \<and> t = currentTerm n \<and> n_log n \<noteq> [] \<and> idx = u64 (l_Index (last (n_log n)) + 1) \<and>
    n' = persistStateLocked (n\<lparr>n_log := n_log n @ [\<lparr>l_Index = idx, l_Term = currentTerm n, l_Data = data\<rparr>]\<rparr>)"
  using assms by (auto simp: Propose_def lastLogIndexLocked_def Let_def split: if_splits)

lemma vote_response_cases:
  assumes "vote_response n t resp = (n', granted)"
  obtains (down) "currentTerm n < vr_Term resp" "n' = step_down n (vr_Term resp)" "\<not> granted"
  | (same) "n' = n" "granted \<longleftrightarrow> n_role n = Candidate \<and> currentTerm n = t \<and> vr_VoteGranted resp"
  using assms by (auto simp: vote_response_def split: if_splits)

lemma advance_commit_Some:
  "advance_commit n m = Some n' \<Longrightarrow>
    apply_frame (n\<lparr>commitIndex := commitIndex n'\<rparr>) n' \<and> (n' = n \<or> committable n (commitIndex n'))"
proof (induction m)
  case (Suc m)
  show ?case
  proof (cases "committable n (Suc m)")
    case True
    then have "applyCommittedEntriesLocked (n\<lparr>commitIndex := Suc m\<rparr>) = Some n'"
      using Suc.prems by (auto simp: committable_def Let_def)
    from applyCommitted_frame [OF this] True show ?thesis
      by (simp add: apply_frame_def)
  next
    case False
    then have "advance_commit n m = Some n' \<or> n' = n"
      using Suc.prems by (auto simp: committable_def Let_def split: if_splits)
    with Suc.IH show ?thesis
      by (auto simp: apply_frame_def)
  qed
qed (simp add: apply_frame_def)

lemma maybeAdvance_Some:
  "maybeAdvanceCommitIndexLocked n = Some n' \<Longrightarrow>
    apply_frame (n\<lparr>commitIndex := commitIndex n'\<rparr>) n' \<and> (n' = n \<or> committable n (commitIndex n'))"
  using advance_commit_Some by (auto simp: maybeAdvanceCommitIndexLocked_def split: option.splits)

lemma replicate_response_cases:
  assumes "replicate_response n p t es resp = Some n'"
  obtains (down) "currentTerm n < ar_Term resp" "n' = step_down n (ar_Term resp)"
  | (same) "n' = n"
  | (retry) "n_role n = Leader" "currentTerm n = t" "1 < nextIndex n p"
      "n' = n\<lparr>nextIndex := (nextIndex n)(p := nextIndex n p - 1)\<rparr>"
  | (acked) "n_role n = Leader" "currentTerm n = t" "ar_Success resp" "es \<noteq> []"
      "maybeAdvanceCommitIndexLocked (n\<lparr>matchIndex := (matchIndex n)(p := l_Index (last es)),
         nextIndex := (nextIndex n)(p := u64 (l_Index (last es) + 1))\<rparr>) = Some n'"
proof -
  consider "currentTerm n < ar_Term resp"
    | "\<not> currentTerm n < ar_Term resp" "n_role n \<noteq> Leader \<or> currentTerm n \<noteq> t"
    | "\<not> currentTerm n < ar_Term resp" "\<not> (n_role n \<noteq> Leader \<or> currentTerm n \<noteq> t)" "ar_Success resp" "es \<noteq> []"
    | "\<not> currentTerm n < ar_Term resp" "\<not> (n_role n \<noteq> Leader \<or> currentTerm n \<noteq> t)" "ar_Success resp" "es = []"
    | "\<not> currentTerm n < ar_Term resp" "\<not> (n_role n \<noteq> Leader \<or> currentTerm n \<noteq> t)" "\<not> ar_Success resp"
    by blast
  then show ?thesis
  proof cases
    case 1
    with assms show ?thesis by (intro down) (simp_all add: replicate_response_def)
  next
    case 2
    with assms show ?thesis by (intro same) (simp add: replicate_response_def)
  next
    case 3
    with assms show ?thesis by (intro acked) (simp_all add: replicate_response_def Let_def)
  next
    case 4
    with assms show ?thesis by (intro same) (simp add: replicate_response_def)
  next
    case 5
    show ?thesis
    proof (cases "1 < nextIndex n p")
      case True
      with 5 assms show ?thesis by (intro retry) (simp_all add: replicate_response_def)
    next
      case False
      with 5 assms show ?thesis by (intro same) (simp add: replicate_response_def)
    qed
  qed
qed

lemma unblock_frame:
  assumes "unblock_apply n k = Some n'"
  shows "apply_frame n n'" "lastApplied n' = lastApplied n"
    "set (applyCh n') \<union> set (blocked n') = set (applyCh n) \<union> set (blocked n)"
proof -
  have k: "k < length (blocked n)"
      "n' = n\<lparr>applyCh := applyCh n @ [blocked n ! k], blocked := take k (blocked n) @ drop (Suc k) (blocked n)\<rparr>"
    using assms by (auto simp: unblock_apply_def split: if_splits)
  then show "apply_frame n n'" "lastApplied n' = lastApplied n"
    by (simp_all add: apply_frame_def)
  have "set (blocked n) = insert (blocked n ! k) (set (take k (blocked n)) \<union> set (drop (Suc k) (blocked n)))"
    using arg_cong [OF id_take_nth_drop [OF k(1)], of set] by simp
  with k(2) show "set (applyCh n') \<union> set (blocked n') = set (applyCh n) \<union> set (blocked n)"
    by auto
qed

lemma receive_frame:
  assumes "receive_apply n = Some (n', m)"
  shows "apply_frame n n'" "lastApplied n' = lastApplied n" "applyCh n = m # applyCh n'" "blocked n' = blocked n"
  using assms by (auto simp: receive_apply_def apply_frame_def split: list.splits)

section \<open>What stays: identity, configuration, state file\<close>

text \<open>The state file always holds the term, the vote and the log, or does not exist yet.\<close>

definition durable :: "Node \<Rightarrow> bool" where
  "durable n \<longleftrightarrow> n_io n = PersistOk \<and> (fs_read (n_disk n) stateFilePath = Some (encode_state n) \<or>
     fs_read (n_disk n) stateFilePath = None \<and> currentTerm n = 0 \<and> votedFor n = [] \<and> n_log n = [sentinel])"

lemma durable_persist [simp]: "durable (persistStateLocked n) \<longleftrightarrow> n_io n = PersistOk"
  by (auto simp: durable_def encode_state_def)

lemma durable_step_down [simp]: "durable (step_down n t) \<longleftrightarrow> n_io n = PersistOk"
  by (simp add: step_down_def)

lemma durable_io [simp]: "durable n \<Longrightarrow> n_io n = PersistOk"
  by (simp add: durable_def)

lemma durable_cong:
  "durable n \<Longrightarrow> currentTerm n' = currentTerm n \<Longrightarrow> votedFor n' = votedFor n \<Longrightarrow> n_log n' = n_log n \<Longrightarrow>
    n_disk n' = n_disk n \<Longrightarrow> n_io n' = n_io n \<Longrightarrow> durable n'"
  by (simp add: durable_def encode_state_def)

text \<open>A restart keeps the term, the vote and the log and resets the rest.\<close>

lemma restart_Some:
  assumes "durable n" "node_sized n" "NewNode (n_cfg n) (peerIDs n) (applyCap n) (n_disk n) = Ok n'"
  shows "n' = (fresh_node (n_cfg n) (peerIDs n) (applyCap n) (n_disk n))
    \<lparr>currentTerm := currentTerm n, votedFor := votedFor n, n_log := n_log n\<rparr>"
proof -
  let ?f = "fresh_node (n_cfg n) (peerIDs n) (applyCap n) (n_disk n)"
  have n': "n' = fst (loadState ?f)"
    using assms(3) by (auto simp: NewNode_def split: option.splits)
  from assms(1) have "fs_read (n_disk n) stateFilePath = Some (encode_state n) \<or>
      fs_read (n_disk n) stateFilePath = None \<and> currentTerm n = 0 \<and> votedFor n = [] \<and> n_log n = [sentinel]"
    by (simp add: durable_def)
  then show ?thesis
  proof
    assume "fs_read (n_disk n) stateFilePath = Some (encode_state n)"
    from loadState_saved [OF assms(2) this] show ?thesis by (simp add: n')
  next
    assume "fs_read (n_disk n) stateFilePath = None \<and> currentTerm n = 0 \<and> votedFor n = [] \<and> n_log n = [sentinel]"
    then show ?thesis
      by (simp add: n' loadState_def fresh_node_def sentinel_def)
  qed
qed

definition stays :: "Node \<Rightarrow> Node \<Rightarrow> bool" where
  "stays n n' \<longleftrightarrow> n_id n' = n_id n \<and> n_cfg n' = n_cfg n \<and> peerIDs n' = peerIDs n \<and> (durable n \<longrightarrow> durable n')"

lemma stays_refl [simp]: "stays n n"
  by (simp add: stays_def)

lemma stays_step_down [simp]: "stays n (step_down n t)"
  by (simp add: stays_def)

lemma stays_frame: "apply_frame m n' \<Longrightarrow> stays n m \<Longrightarrow> stays n n'"
  by (auto simp: stays_def apply_frame_def elim: durable_cong)

lemma stays_HandleRequestVote: "HandleRequestVote n req = Some (n', resp) \<Longrightarrow> stays n n'"
  by (erule HandleRequestVote_cases) (auto simp: stays_def)

lemma stays_startElection:
  assumes "startElection n t bs = Some n'" shows "stays n n'"
  using startElection_Some [OF assms] by (auto simp: stays_def elim: durable_cong)

lemma stays_accepted_term [simp]: "stays n (accepted_term n req)"
  by (simp add: accepted_term_def)

lemma merged_frame:
  assumes "if ae_LeaderCommit req > commitIndex n
       then applyCommittedEntriesLocked ((merged_node n req)\<lparr>commitIndex := min (ae_LeaderCommit req) l\<rparr>) = Some n'
       else n' = merged_node n req"
  shows "apply_frame ((merged_node n req)\<lparr>commitIndex := commitIndex n'\<rparr>) n' \<and>
    commitIndex n' = (if ae_LeaderCommit req > commitIndex n then min (ae_LeaderCommit req) l else commitIndex n)"
proof (cases "ae_LeaderCommit req > commitIndex n")
  case True
  with assms applyCommitted_frame [of "(merged_node n req)\<lparr>commitIndex := min (ae_LeaderCommit req) l\<rparr>" n']
  show ?thesis by (auto simp: apply_frame_def)
qed (use assms in \<open>auto simp: apply_frame_def\<close>)

text \<open>A request that continues the log is accepted.\<close>

lemma HandleAppendEntries_accepts:
  assumes "currentTerm n \<le> ae_Term req" "ae_PrevLogIndex req < length (n_log n)"
    "l_Term (n_log n ! ae_PrevLogIndex req) = ae_PrevLogTerm req"
    and ix: "indexed (append_entries (Suc (ae_PrevLogIndex req)) (ae_Entries req) (n_log n))"
  shows "\<exists>n' resp. HandleAppendEntries n req = Some (n', resp) \<and> ar_Success resp \<and> ar_Term resp = currentTerm n \<and>
    n_log n' = append_entries (Suc (ae_PrevLogIndex req)) (ae_Entries req) (n_log n)"
proof -
  define m where "m = merged_node n req"
  have log: "n_log m = append_entries (Suc (ae_PrevLogIndex req)) (ae_Entries req) (n_log n)"
    by (simp add: m_def)
  have l: "lastLogIndexLocked m = Some (length (n_log m) - 1)" "n_log m \<noteq> []"
    using ix indexed_last [OF ix] by (simp_all add: lastLogIndexLocked_def log indexed_def)
  then obtain x where x: "applyCommittedEntriesLocked (m\<lparr>commitIndex := min (ae_LeaderCommit req) (length (n_log m) - 1)\<rparr>) = Some x"
    using applyCommitted_total [of "m\<lparr>commitIndex := min (ae_LeaderCommit req) (length (n_log m) - 1)\<rparr>"]
    by (auto simp: min.strict_coboundedI2)
  from applyCommitted_frame [OF this] have "n_log x = n_log m"
    by (simp add: apply_frame_def)
  with assms(1-3) l(1) x log show ?thesis
    unfolding HandleAppendEntries_eq m_def [symmetric] by auto
qed

lemma durable_merged: "n_io n = PersistOk \<Longrightarrow> durable ((merged_node n req)\<lparr>commitIndex := x\<rparr>)"
  by (rule durable_cong [of "merged_node n req"]) (simp_all add: merged_node_def)

lemma stays_HandleAppendEntries: "HandleAppendEntries n req = Some (n', resp) \<Longrightarrow> stays n n'"
proof (erule HandleAppendEntries_cases)
  fix l
  assume "if ae_LeaderCommit req > commitIndex n
       then applyCommittedEntriesLocked ((merged_node n req)\<lparr>commitIndex := min (ae_LeaderCommit req) l\<rparr>) = Some n'
       else n' = merged_node n req"
  then have "apply_frame ((merged_node n req)\<lparr>commitIndex := commitIndex n'\<rparr>) n'"
    using merged_frame by blast
  then show ?thesis
    by (rule stays_frame) (auto simp: stays_def intro: durable_merged)
qed (auto simp: stays_def accepted_term_def)

lemma stays_replicate_response: "replicate_response n p t es resp = Some n' \<Longrightarrow> stays n n'"
proof (erule replicate_response_cases)
  assume "maybeAdvanceCommitIndexLocked (n\<lparr>matchIndex := (matchIndex n)(p := l_Index (last es)),
         nextIndex := (nextIndex n)(p := u64 (l_Index (last es) + 1))\<rparr>) = Some n'"
  from maybeAdvance_Some [OF this] show ?thesis
    by (auto simp: stays_def apply_frame_def elim: durable_cong)
qed (auto simp: stays_def elim: durable_cong)

lemma stays_restart:
  assumes "node_sized n" "NewNode (n_cfg n) (peerIDs n) (applyCap n) (n_disk n) = Ok n'"
    and "durable n" "NodeID (n_cfg n) = n_id n"
  shows "stays n n'"
  unfolding restart_Some [OF assms(3,1,2)] using assms(3,4) durable_io [OF assms(3)]
  by (auto simp: stays_def fresh_node_def simp del: durable_io elim: durable_cong)

definition members_ok :: "string list \<Rightarrow> Cluster \<Rightarrow> bool" where
  "members_ok ms c \<longleftrightarrow> distinct ms \<and> (\<forall>i \<in> set ms. member_node ms i (node c i) \<and> durable (node c i))"

lemma members_ok_put:
  "members_ok ms c \<Longrightarrow> stays (node c i) n' \<Longrightarrow> node c' = (node c)(i := n') \<Longrightarrow> members_ok ms c'"
  by (auto simp: members_ok_def member_node_def stays_def)

lemma members_ok_step:
  assumes "cluster_step ms c c'" "members_ok ms c"
  shows "members_ok ms c'"
  using assms(1)
proof cases
  case (timeout i n' req)
  from onElectionTimeout_Some [OF timeout(4,3)] have "stays (node c i) n'"
    by (auto simp: stays_def)
  from members_ok_put [OF assms(2) this] timeout(1) show ?thesis by simp
next
  case (request_vote req j n' resp)
  from members_ok_put [OF assms(2) stays_HandleRequestVote [OF request_vote(5)]] request_vote(1)
  show ?thesis by simp
next
  case (vote_reply j req resp i t n' granted)
  from vote_reply(7) have "stays (node c i) n'"
    by (rule vote_response_cases) auto
  from members_ok_put [OF assms(2) this] vote_reply(1) show ?thesis by simp
next
  case (count_votes i t n')
  from members_ok_put [OF assms(2) stays_startElection [OF count_votes(3)]] count_votes(1)
  show ?thesis by (cases "n_role n' = Leader \<and> n_role (node c i) \<noteq> Leader") simp_all
next
  case (propose i data n' idx t)
  from Propose_Some [OF propose(4)] have "stays (node c i) n'"
    by (auto simp: stays_def)
  from members_ok_put [OF assms(2) this] propose(1) show ?thesis by simp
next
  case (replicate i p t req)
  with assms(2) show ?thesis by (simp add: members_ok_def)
next
  case (append j req n' resp)
  from members_ok_put [OF assms(2) stays_HandleAppendEntries [OF append(4)]] append(1)
  show ?thesis by simp
next
  case (append_reply j req resp i n')
  from members_ok_put [OF assms(2) stays_replicate_response [OF append_reply(5)]] append_reply(1)
  show ?thesis by simp
next
  case (restart i n')
  from assms(2) restart(2) have "durable (node c i)" "NodeID (n_cfg (node c i)) = n_id (node c i)"
    by (auto simp: members_ok_def member_node_def)
  from members_ok_put [OF assms(2) stays_restart [OF restart(3,4) this]] restart(1)
  show ?thesis by simp
next
  case (unblock i k n')
  with members_ok_put [OF assms(2) stays_frame [OF unblock_frame(1) stays_refl]] show ?thesis
    by simp
next
  case (receive i n' m)
  with members_ok_put [OF assms(2) stays_frame [OF receive_frame(1) stays_refl]] show ?thesis
    by simp
qed

lemma reachable_members_ok: "reachable ms c \<Longrightarrow> members_ok ms c"
proof (induction rule: reachable.induct)
  case (start c)
  then have "durable (node c i)" if "i \<in> set ms" for i
    using that by (auto simp: initial_def durable_def sentinel_def fresh_node_def)
  with start show ?case
    by (auto simp: initial_def members_ok_def)
qed (rule members_ok_step)

end
