(* ===== verification/ClusterRun.thy ===== *)
theory ClusterRun
  imports Cluster
begin

text \<open>
  A run of a cluster of two nodes, step by step: node \<open>a\<close> times out and is elected, proposes
  a command, replicates it to \<open>b\<close>, commits it on the acknowledgement, and tells \<open>b\<close> with the
  next heartbeat. The run shows that the hypotheses of the cluster theorems can be met, and
  it is where their witnesses live.
\<close>

section \<open>The nodes of the run\<close>

definition demo_cfg :: "string \<Rightarrow> string \<Rightarrow> Config" where
  "demo_cfg i p = DefaultConfig\<lparr>NodeID := i, ListenAddr := '':5001'', Peers := [p], DataDir := ''d''\<rparr>"

lemma demo_cfg_fields [simp]:
  "NodeID (demo_cfg i p) = i" "ClusterSize (demo_cfg i p) = 2" "Quorum (demo_cfg i p) = 2"
  "i \<noteq> [] \<Longrightarrow> Validate (demo_cfg i p) = None"
  by (simp_all add: demo_cfg_def ClusterSize_def Quorum_def Validate_def DefaultConfig_def Millisecond_def wrap64_def)

text \<open>The command of the run: a \<open>Put\<close> of the one-byte value 1 under the key \<open>name\<close>.\<close>

definition demo_data :: bytes where
  "demo_data = [1, 4, 0, 1, 0, 0, 0, 110, 97, 109, 101, 1]"

definition demo_entry :: LogEntry where
  "demo_entry = \<lparr>l_Index = 1, l_Term = 1, l_Data = demo_data\<rparr>"

definition "A0 = fresh_node (demo_cfg ''a'' ''b'') [''b''] 8 []"
definition "B0 = fresh_node (demo_cfg ''b'' ''a'') [''a''] 8 []"
definition "A1 = persistStateLocked (A0\<lparr>n_role := Candidate, currentTerm := 1, votedFor := ''a''\<rparr>)"
definition "B1 = persistStateLocked ((step_down B0 1)\<lparr>votedFor := ''a''\<rparr>)"
definition "A2 = init_leader A1 0"
definition "A3 = persistStateLocked (A2\<lparr>n_log := [sentinel, demo_entry]\<rparr>)"
definition "B2 = persistStateLocked (B1\<lparr>n_log := [sentinel, demo_entry]\<rparr>)"
definition "A4 = A3\<lparr>matchIndex := (matchIndex A3)(''b'' := 1), nextIndex := (nextIndex A3)(''b'' := 2),
  commitIndex := 1, lastApplied := 1, applyCh := [apply_msg demo_entry]\<rparr>"
definition "B3 = (persistStateLocked B2)\<lparr>commitIndex := 1, lastApplied := 1, applyCh := [apply_msg demo_entry]\<rparr>"

definition "vote_req = \<lparr>rv_Term = 1, rv_CandidateId = ''a'', rv_LastLogIndex = 0, rv_LastLogTerm = 0\<rparr>"
definition "vote_resp = \<lparr>vr_Term = 1, vr_VoteGranted = True\<rparr>"
definition "append_req = \<lparr>ae_Term = 1, ae_LeaderId = ''a'', ae_PrevLogIndex = 0, ae_PrevLogTerm = 0,
  ae_Entries = [demo_entry], ae_LeaderCommit = 0\<rparr>"
definition "append_resp = \<lparr>ar_Term = 1, ar_Success = True, ar_MatchIndex = 1\<rparr>"
definition "heartbeat = \<lparr>ae_Term = 1, ae_LeaderId = ''a'', ae_PrevLogIndex = 1, ae_PrevLogTerm = 1,
  ae_Entries = [], ae_LeaderCommit = 1\<rparr>"

lemma demo_fields:
  "n_id A0 = ''a''" "currentTerm A0 = 0" "n_role A0 = Follower" "n_log A0 = [sentinel]" "votedFor A0 = []"
  "n_id B0 = ''b''" "currentTerm B0 = 0" "n_role B0 = Follower" "n_log B0 = [sentinel]" "votedFor B0 = []"
  "n_cfg A0 = demo_cfg ''a'' ''b''" "peerIDs A0 = [''b'']" "commitIndex A0 = 0" "lastApplied A0 = 0"
  "applyCh A0 = []" "applyCap A0 = 8" "commitIndex B0 = 0" "lastApplied B0 = 0" "applyCh B0 = []" "applyCap B0 = 8"
  "l_Term sentinel = 0" "l_Index sentinel = 0" "blocked A0 = []" "blocked B0 = []"
  by (simp_all add: A0_def B0_def fresh_node_def sentinel_def)

lemma demo_timeout: "onElectionTimeout A0 = Some (A1, Some vote_req)"
  by (simp add: onElectionTimeout_def Let_def lastLogIndexLocked_def lastLogTermLocked_def demo_fields A1_def vote_req_def)

lemma demo_vote: "HandleRequestVote B0 vote_req = Some (B1, vote_resp)"
  by (simp add: HandleRequestVote_eq [OF _ _ refl] demo_fields B1_def vote_req_def vote_resp_def log_up_to_date_def)

lemma demo_reply: "vote_response A1 1 vote_resp = (A1, True)"
  by (simp add: vote_response_def vote_resp_def A1_def)

lemma demo_elected: "startElection A1 1 [True] = Some A2"
  by (simp add: startElection_def elected_def lastLogIndexLocked_def A1_def demo_fields A2_def)

lemma demo_propose: "Propose A2 demo_data = Some (A3, 1, 1, True)"
  by (simp add: Propose_def lastLogIndexLocked_def Let_def A3_def A2_def A1_def init_leader_def demo_fields demo_entry_def)

lemma demo_replicate: "''b'' \<in> set (replicateToPeers A3 1)" "replicate_request A3 ''b'' 1 = Some append_req"
  by (simp_all add: replicateToPeers_def replicate_request_def Let_def A3_def A2_def A1_def init_leader_def
      demo_fields append_req_def)

lemma demo_append: "HandleAppendEntries B1 append_req = Some (B2, append_resp)"
  by (simp add: HandleAppendEntries_def append_req_def append_resp_def B1_def B2_def demo_fields Let_def
      lastLogIndexLocked_def demo_entry_def)

lemma A3_fields:
  "n_role A3 = Leader" "currentTerm A3 = 1" "n_log A3 = [sentinel, demo_entry]" "commitIndex A3 = 0" "lastApplied A3 = 0"
  "peerIDs A3 = [''b'']" "n_cfg A3 = demo_cfg ''a'' ''b''" "applyCh A3 = []" "applyCap A3 = 8" "n_id A3 = ''a''"
  by (simp_all add: A3_def A2_def A1_def init_leader_def demo_fields)

lemma demo_commit: "replicate_response A3 ''b'' 1 [demo_entry] append_resp = Some A4"
proof -
  let ?n = "A3\<lparr>matchIndex := (matchIndex A3)(''b'' := 1), nextIndex := (nextIndex A3)(''b'' := 2)\<rparr>"
  have "applyCommittedEntriesLocked (?n\<lparr>commitIndex := 1\<rparr>) = Some A4"
    by (subst applyCommittedEntriesLocked.simps, subst applyCommittedEntriesLocked.simps)
      (simp add: A4_def A3_fields send_apply_def)
  then have "maybeAdvanceCommitIndexLocked ?n = Some A4"
    by (simp add: maybeAdvanceCommitIndexLocked_def lastLogIndexLocked_def A3_fields demo_entry_def replicated_def Let_def)
  moreover have "l_Index (last [demo_entry]) = 1" "u64 (1 + 1) = 2"
    by (simp_all add: demo_entry_def u64_def)
  moreover have "\<not> ar_Term append_resp > currentTerm A3" "ar_Success append_resp"
    by (simp_all add: append_resp_def A3_fields)
  ultimately show ?thesis
    unfolding replicate_response_def Let_def by (simp only: A3_fields if_False if_True simp_thms list.distinct)
qed

lemma demo_heartbeat: "''b'' \<in> set (replicateToPeers A4 1)" "replicate_request A4 ''b'' 1 = Some heartbeat"
  by (simp_all add: replicateToPeers_def replicate_request_def Let_def A4_def A3_def A2_def A1_def init_leader_def
      demo_fields heartbeat_def demo_entry_def)

lemma demo_follow: "HandleAppendEntries B2 heartbeat = Some (B3, append_resp)"
proof -
  have "applyCommittedEntriesLocked ((persistStateLocked B2)\<lparr>commitIndex := 1\<rparr>) = Some B3"
    by (subst applyCommittedEntriesLocked.simps, subst applyCommittedEntriesLocked.simps)
      (simp add: B3_def B2_def B1_def demo_fields send_apply_def)
  moreover have "B2\<lparr>n_log := n_log B2\<rparr> = B2"
    by simp
  moreover have "lastLogIndexLocked (persistStateLocked B2) = Some 1" "currentTerm B2 = 1" "n_role B2 = Follower"
      "length (n_log B2) = 2" "l_Term (n_log B2 ! 1) = 1" "commitIndex B2 = 0"
    by (simp_all add: lastLogIndexLocked_def B2_def B1_def demo_fields demo_entry_def)
  ultimately show ?thesis
    by (simp add: HandleAppendEntries_def heartbeat_def append_resp_def Let_def)
qed

section \<open>The run\<close>

definition demo_init :: Cluster where
  "demo_init = \<lparr>node = (\<lambda>i. if i = ''a'' then A0 else B0), vote_reqs = {}, vote_resps = {}, ballot = (\<lambda>_ _. []),
     append_reqs = {}, append_resps = {}, received = (\<lambda>_. []), voted = {}, leader = (\<lambda>_. None), llog = (\<lambda>_. [])\<rparr>"

lemma demo_initial: "initial [''a'', ''b''] demo_init"
proof -
  have "member_node [''a'', ''b''] ''a'' A0" "member_node [''a'', ''b''] ''b'' B0"
    by (simp_all add: member_node_def A0_def B0_def fresh_node_def insert_Diff_if)
  moreover have "\<exists>cfg peers cap. A0 = fresh_node cfg peers cap []" "\<exists>cfg peers cap. B0 = fresh_node cfg peers cap []"
    unfolding A0_def B0_def by blast+
  ultimately show ?thesis
    by (simp add: initial_def demo_init_def)
qed

text \<open>One step of a run that starts in a reachable state.\<close>

lemma run_step: "reachable ms c \<Longrightarrow> cluster_step ms c c' \<Longrightarrow> P c' \<Longrightarrow> \<exists>c. reachable ms c \<and> P c"
  using reachable.step by blast

lemma demo_leader:
  "\<exists>c. reachable [''a'', ''b''] c \<and> node c ''a'' = A2 \<and> node c ''b'' = B1 \<and> received c = (\<lambda>_. [])"
proof -
  let ?ms = "[''a'', ''b'']"
  have "\<exists>c. reachable ?ms c \<and> (node c ''a'' = A1 \<and> node c ''b'' = B0 \<and> vote_req \<in> vote_reqs c \<and> ballot c = (\<lambda>_ _. []) \<and> received c = (\<lambda>_. []))"
    by (rule run_step [OF reachable.start [OF demo_initial] cluster_step.timeout [where i = "''a''" and n' = A1 and req = vote_req]])
      (simp_all add: demo_init_def demo_fields demo_timeout)
  then obtain c where c: "reachable ?ms c" "node c ''a'' = A1" "node c ''b'' = B0" "vote_req \<in> vote_reqs c"
    "ballot c = (\<lambda>_ _. [])" "received c = (\<lambda>_. [])"
    by blast
  have "\<exists>c. reachable ?ms c \<and> (node c ''a'' = A1 \<and> node c ''b'' = B1 \<and> (''b'', vote_req, vote_resp) \<in> vote_resps c \<and>
      ballot c = (\<lambda>_ _. []) \<and> received c = (\<lambda>_. []))"
    by (rule run_step [OF c(1) cluster_step.request_vote [OF c(4), where j = "''b''" and n' = B1 and resp = vote_resp]])
      (simp_all add: c demo_vote, simp_all add: vote_req_def)
  then obtain c where c: "reachable ?ms c" "node c ''a'' = A1" "node c ''b'' = B1"
    "(''b'', vote_req, vote_resp) \<in> vote_resps c" "ballot c = (\<lambda>_ _. [])" "received c = (\<lambda>_. [])"
    by blast
  have "\<exists>c. reachable ?ms c \<and> (node c ''a'' = A1 \<and> node c ''b'' = B1 \<and> ballot c ''a'' 1 = [(''b'', True)] \<and> received c = (\<lambda>_. []))"
    by (rule run_step [OF c(1) cluster_step.vote_reply [OF c(4), where i = "''a''" and t = 1 and n' = A1 and granted = True]])
      (simp_all add: c demo_reply [simplified], simp_all add: vote_req_def)
  then obtain c where c: "reachable ?ms c" "node c ''a'' = A1" "node c ''b'' = B1" "ballot c ''a'' 1 = [(''b'', True)]" "received c = (\<lambda>_. [])"
    by blast
  show ?thesis
    by (rule run_step [OF c(1) cluster_step.count_votes [where i = "''a''" and t = 1 and n' = A2]])
      (simp_all add: c [simplified] demo_elected [simplified])
qed

lemma demo_run:
  "\<exists>c. reachable [''a'', ''b''] c \<and> node c ''a'' = A4 \<and> node c ''b'' = B3 \<and> received c = (\<lambda>_. [])"
proof -
  let ?ms = "[''a'', ''b'']"
  obtain c where c: "reachable ?ms c" "node c ''a'' = A2" "node c ''b'' = B1" "received c = (\<lambda>_. [])"
    using demo_leader by blast
  have "\<exists>c. reachable ?ms c \<and> (node c ''a'' = A3 \<and> node c ''b'' = B1 \<and> received c = (\<lambda>_. []))"
    by (rule run_step [OF c(1) cluster_step.propose [where i = "''a''" and n' = A3 and data = demo_data and idx = 1 and t = 1]])
      (simp_all add: c demo_propose [simplified], simp add: A2_def A1_def init_leader_def demo_fields)
  then obtain c where c: "reachable ?ms c" "node c ''a'' = A3" "node c ''b'' = B1" "received c = (\<lambda>_. [])"
    by blast
  have "\<exists>c. reachable ?ms c \<and> (node c ''a'' = A3 \<and> node c ''b'' = B1 \<and> (''b'', append_req) \<in> append_reqs c \<and> received c = (\<lambda>_. []))"
    by (rule run_step [OF c(1) cluster_step.replicate [where i = "''a''" and p = "''b''" and t = 1 and req = append_req]])
      (simp_all add: c demo_replicate [simplified])
  then obtain c where c: "reachable ?ms c" "node c ''a'' = A3" "node c ''b'' = B1" "(''b'', append_req) \<in> append_reqs c" "received c = (\<lambda>_. [])"
    by blast
  have "\<exists>c. reachable ?ms c \<and> (node c ''a'' = A3 \<and> node c ''b'' = B2 \<and> (''b'', append_req, append_resp) \<in> append_resps c \<and> received c = (\<lambda>_. []))"
    by (rule run_step [OF c(1) cluster_step.append [OF c(4), where n' = B2 and resp = append_resp]])
      (simp_all add: c demo_append)
  then obtain c where c: "reachable ?ms c" "node c ''a'' = A3" "node c ''b'' = B2"
    "(''b'', append_req, append_resp) \<in> append_resps c" "received c = (\<lambda>_. [])"
    by blast
  have req: "ae_LeaderId append_req = ''a''" "ae_Term append_req = 1" "ae_Entries append_req = [demo_entry]"
    by (simp_all add: append_req_def)
  have "\<exists>c. reachable ?ms c \<and> (node c ''a'' = A4 \<and> node c ''b'' = B2 \<and> received c = (\<lambda>_. []))"
    by (rule run_step [OF c(1) cluster_step.append_reply [OF c(4), where i = "''a''" and n' = A4]])
      (simp_all only: c req demo_commit, simp_all add: c)
  then obtain c where c: "reachable ?ms c" "node c ''a'' = A4" "node c ''b'' = B2" "received c = (\<lambda>_. [])"
    by blast
  have "\<exists>c. reachable ?ms c \<and> (node c ''a'' = A4 \<and> node c ''b'' = B2 \<and> (''b'', heartbeat) \<in> append_reqs c \<and> received c = (\<lambda>_. []))"
    by (rule run_step [OF c(1) cluster_step.replicate [where i = "''a''" and p = "''b''" and t = 1 and req = heartbeat]])
      (simp_all add: c demo_heartbeat [simplified])
  then obtain c where c: "reachable ?ms c" "node c ''a'' = A4" "node c ''b'' = B2" "(''b'', heartbeat) \<in> append_reqs c" "received c = (\<lambda>_. [])"
    by blast
  show ?thesis
    by (rule run_step [OF c(1) cluster_step.append [OF c(4), where n' = B3 and resp = append_resp]])
      (simp_all add: c demo_follow)
qed

lemma demo_end:
  "n_role A4 = Leader" "currentTerm A4 = 1" "n_log A4 = [sentinel, demo_entry]" "commitIndex A4 = 1"
  "applyCh A4 = [apply_msg demo_entry]" "currentTerm B3 = 1" "n_log B3 = [sentinel, demo_entry]" "commitIndex B3 = 1"
  "applyCh B3 = [apply_msg demo_entry]" "blocked A4 = []" "blocked B3 = []"
  by (simp_all add: A4_def A3_def A2_def A1_def B3_def B2_def B1_def init_leader_def demo_fields)

text \<open>Both state machines receive the command.\<close>

lemma demo_received:
  "\<exists>c. reachable [''a'', ''b''] c \<and> node c ''a'' = A4\<lparr>applyCh := []\<rparr> \<and> received c ''a'' = [apply_msg demo_entry] \<and>
     node c ''b'' = B3\<lparr>applyCh := []\<rparr> \<and> received c ''b'' = [apply_msg demo_entry]"
proof -
  let ?ms = "[''a'', ''b'']"
  obtain c where c: "reachable ?ms c" "node c ''a'' = A4" "node c ''b'' = B3" "received c = (\<lambda>_. [])"
    using demo_run by blast
  have "\<exists>c. reachable ?ms c \<and> (node c ''a'' = A4\<lparr>applyCh := []\<rparr> \<and> received c ''a'' = [apply_msg demo_entry] \<and>
      node c ''b'' = B3 \<and> received c ''b'' = [])"
    by (rule run_step [OF c(1) cluster_step.receive [where i = "''a''" and n' = "A4\<lparr>applyCh := []\<rparr>" and m = "apply_msg demo_entry"]])
      (simp_all add: c receive_apply_def demo_end)
  then obtain c where c: "reachable ?ms c" "node c ''a'' = A4\<lparr>applyCh := []\<rparr>" "received c ''a'' = [apply_msg demo_entry]"
      "node c ''b'' = B3" "received c ''b'' = []"
    by blast
  show ?thesis
    by (rule run_step [OF c(1) cluster_step.receive [where i = "''b''" and n' = "B3\<lparr>applyCh := []\<rparr>" and m = "apply_msg demo_entry"]])
      (simp_all add: c receive_apply_def demo_end)
qed

end
