(* ===== verification/ElectionSafety.thy ===== *)
theory ElectionSafety
  imports ClusterRun
begin

text \<open>
  Election safety of the cluster: at most one node is ever elected in a term. The invariant
  \<open>votes_ok\<close> is about one node: the votes it cast and how its term, vote and role remember
  them. A node votes at most once per term for another node; a vote for itself is forgotten
  when a candidate follows a leader of its own term, but then it no longer counts, since the
  node is no longer candidate. \<open>counted_ok\<close> is about the messages, ballots and winners.
\<close>

section \<open>Quorums of members\<close>

definition quorum :: "string list \<Rightarrow> string set \<Rightarrow> bool" where
  "quorum ms Q \<longleftrightarrow> Q \<subseteq> set ms \<and> length ms div 2 + 1 \<le> card Q"

lemma quorums_meet:
  assumes "quorum ms P" "quorum ms Q"
  obtains j where "j \<in> P" "j \<in> Q"
proof -
  let ?c = "DefaultConfig\<lparr>Peers := tl ms\<rparr>"
  have "ms \<noteq> []"
    using assms(1) by (auto simp: quorum_def)
  then have "ClusterSize ?c = length ms" "Quorum ?c = length ms div 2 + 1"
    by (simp_all add: ClusterSize_def Quorum_def)
  with cfg.intersect [of "set ms" ?c P Q] assms card_length [of ms] show ?thesis
    using that by (auto simp: quorum_def)
qed

section \<open>Invariants\<close>

text \<open>
  What a node \<open>i\<close> with term \<open>tm\<close>, vote \<open>vf\<close> and role \<open>rl\<close> remembers of the votes \<open>V\<close> it cast
  (term and candidate) and of the terms \<open>W\<close> it won.
\<close>

definition remembers ::
  "string \<Rightarrow> (nat \<times> string) set \<Rightarrow> nat set \<Rightarrow> nat \<Rightarrow> string \<Rightarrow> Role \<Rightarrow> bool" where
  "remembers i V W tm vf rl \<longleftrightarrow>
     (\<forall>(t, k) \<in> V. t \<le> tm) \<and> (\<forall>t \<in> W. t \<le> tm) \<and>
     (\<forall>t k k'. (t, k) \<in> V \<and> (t, k') \<in> V \<and> k \<noteq> i \<and> k' \<noteq> i \<longrightarrow> k = k') \<and>
     (\<forall>k. (tm, k) \<in> V \<and> k \<noteq> i \<longrightarrow> vf = k \<and> rl = Follower) \<and>
     (rl \<noteq> Follower \<longrightarrow> vf = i \<and> (tm, i) \<in> V) \<and>
     (\<forall>t \<in> W. \<forall>k. (t, k) \<in> V \<longrightarrow> k = i) \<and>
     (tm \<in> W \<longrightarrow> vf = i \<and> rl \<noteq> Candidate) \<and>
     (rl = Leader \<longrightarrow> tm \<in> W)"

definition votes :: "Cluster \<Rightarrow> string \<Rightarrow> (nat \<times> string) set" where
  "votes c i = {(t, k). \<exists>L. (i, t, k, L) \<in> voted c}"

definition won :: "Cluster \<Rightarrow> string \<Rightarrow> nat set" where
  "won c i = {t. leader c t = Some i}"

lemma votes_iff: "(t, k) \<in> votes c i \<longleftrightarrow> (\<exists>L. (i, t, k, L) \<in> voted c)"
  by (simp add: votes_def)

definition votes_ok :: "Cluster \<Rightarrow> string \<Rightarrow> bool" where
  "votes_ok c i \<longleftrightarrow> remembers i (votes c i) (won c i)
     (currentTerm (node c i)) (votedFor (node c i)) (n_role (node c i))"

definition counted_ok :: "string list \<Rightarrow> Cluster \<Rightarrow> bool" where
  "counted_ok ms c \<longleftrightarrow>
     (\<forall>req \<in> vote_reqs c. rv_CandidateId req \<in> set ms \<and> 0 < rv_Term req) \<and>
     (\<forall>j t k. (t, k) \<in> votes c j \<longrightarrow> j \<in> set ms \<and> k \<in> set ms \<and> 0 < t) \<and>
     (\<forall>j req resp. (j, req, resp) \<in> vote_resps c \<longrightarrow> j \<in> set ms - {rv_CandidateId req} \<and>
        (vr_VoteGranted resp \<longrightarrow> (rv_Term req, rv_CandidateId req) \<in> votes c j)) \<and>
     (\<forall>i t. distinct (map fst (ballot c i t))) \<and>
     (\<forall>i t j granted. (j, granted) \<in> set (ballot c i t) \<longrightarrow>
        j \<in> set ms - {i} \<and> (granted \<longrightarrow> (t, i) \<in> votes c j)) \<and>
     (\<forall>i t. leader c t = Some i \<longrightarrow> i \<in> set ms \<and>
        (\<exists>Q. quorum ms Q \<and> (\<forall>j \<in> Q. (t, i) \<in> votes c j)))"

definition election_inv :: "string list \<Rightarrow> Cluster \<Rightarrow> bool" where
  "election_inv ms c \<longleftrightarrow> counted_ok ms c \<and> (\<forall>i \<in> set ms. votes_ok c i)"

section \<open>Preservation\<close>

text \<open>The steps of a node that cast no vote and win no election.\<close>

definition calm :: "Node \<Rightarrow> Node \<Rightarrow> bool" where
  "calm n n' \<longleftrightarrow>
     currentTerm n' = currentTerm n \<and> votedFor n' = votedFor n \<and> (n_role n' = n_role n \<or> n_role n' = Follower) \<or>
     currentTerm n < currentTerm n' \<and> n_role n' = Follower \<or>
     currentTerm n' = currentTerm n \<and> n_role n = Candidate \<and> n_role n' = Follower"

lemma calm_refl [simp]: "calm n n"
  by (simp add: calm_def)

lemma calm_step_down: "currentTerm n < t \<Longrightarrow> calm n (step_down n t)"
  by (simp add: calm_def)

lemma remembersD:
  assumes "remembers i V W tm vf rl"
  shows "(t, k) \<in> V \<Longrightarrow> t \<le> tm" "t \<in> W \<Longrightarrow> t \<le> tm"
    "(t, k) \<in> V \<Longrightarrow> (t, k') \<in> V \<Longrightarrow> k \<noteq> i \<Longrightarrow> k' \<noteq> i \<Longrightarrow> k = k'"
    "(tm, k) \<in> V \<Longrightarrow> k \<noteq> i \<Longrightarrow> vf = k" "(tm, k) \<in> V \<Longrightarrow> k \<noteq> i \<Longrightarrow> rl = Follower"
    "rl \<noteq> Follower \<Longrightarrow> vf = i" "rl \<noteq> Follower \<Longrightarrow> (tm, i) \<in> V"
    "t \<in> W \<Longrightarrow> (t, k) \<in> V \<Longrightarrow> k = i" "tm \<in> W \<Longrightarrow> vf = i" "tm \<in> W \<Longrightarrow> rl \<noteq> Candidate"
    "rl = Leader \<Longrightarrow> tm \<in> W"
  using assms unfolding remembers_def by blast+

lemma remembersI:
  assumes "\<And>t k. (t, k) \<in> V \<Longrightarrow> t \<le> tm" "\<And>t. t \<in> W \<Longrightarrow> t \<le> tm"
    "\<And>t k k'. (t, k) \<in> V \<Longrightarrow> (t, k') \<in> V \<Longrightarrow> k \<noteq> i \<Longrightarrow> k' \<noteq> i \<Longrightarrow> k = k'"
    "\<And>k. (tm, k) \<in> V \<Longrightarrow> k \<noteq> i \<Longrightarrow> vf = k \<and> rl = Follower"
    "rl \<noteq> Follower \<Longrightarrow> vf = i \<and> (tm, i) \<in> V"
    "\<And>t k. t \<in> W \<Longrightarrow> (t, k) \<in> V \<Longrightarrow> k = i" "tm \<in> W \<Longrightarrow> vf = i \<and> rl \<noteq> Candidate"
    "rl = Leader \<Longrightarrow> tm \<in> W"
  shows "remembers i V W tm vf rl"
  using assms unfolding remembers_def by blast

lemma remembers_follower:
  assumes "remembers i V W tm vf rl"
  shows "remembers i V W tm vf Follower"
  by (rule remembersI) (use remembersD [OF assms] in \<open>blast | simp\<close>)+

lemma remembers_forget:
  assumes "remembers i V W tm vf Candidate"
  shows "remembers i V W tm vf' Follower"
  by (rule remembersI) (use remembersD [OF assms] in \<open>blast | simp\<close>)+

lemma remembers_calm:
  assumes "remembers i V W (currentTerm n) (votedFor n) (n_role n)" "calm n n'"
  shows "remembers i V W (currentTerm n') (votedFor n') (n_role n')"
proof -
  consider "currentTerm n' = currentTerm n" "votedFor n' = votedFor n"
      "n_role n' = n_role n \<or> n_role n' = Follower"
    | "currentTerm n < currentTerm n'" "n_role n' = Follower"
    | "currentTerm n' = currentTerm n" "n_role n = Candidate" "n_role n' = Follower"
    using assms(2) by (auto simp: calm_def)
  then show ?thesis
  proof cases
    case 2
    have V: "t < currentTerm n'" if "(t, k) \<in> V" for t k
      using remembersD(1) [OF assms(1) that] 2(1) by simp
    have W: "t < currentTerm n'" if "t \<in> W" for t
      using remembersD(2) [OF assms(1) that] 2(1) by simp
    show ?thesis
    proof (rule remembersI)
      show "k = k'" if "(t, k) \<in> V" "(t, k') \<in> V" "k \<noteq> i" "k' \<noteq> i" for t k k'
        using remembersD(3) [OF assms(1) that] .
      show "k = i" if "t \<in> W" "(t, k) \<in> V" for t k
        using remembersD(8) [OF assms(1) that] .
    qed (use V W 2(2) in \<open>auto simp: less_imp_le dest: V W\<close>)
  next
    case 1
    with assms(1) remembers_follower [OF assms(1)] show ?thesis
      by (elim disjE) (simp_all only:)
  next
    case 3
    with remembers_forget [of i V W "currentTerm n" "votedFor n" "votedFor n'"] assms(1)
    show ?thesis by (simp only:)
  qed
qed

text \<open>A candidate votes for itself in a term it has not voted in.\<close>

lemma remembers_timeout:
  assumes "remembers i V W tm vf rl"
  shows "remembers i (insert (tm + 1, i) V) W (tm + 1) i Candidate"
proof (rule remembersI)
  show "t \<le> tm + 1" if "(t, k) \<in> insert (tm + 1, i) V" for t k
    using that remembersD(1) [OF assms] by fastforce
  show "t \<le> tm + 1" if "t \<in> W" for t
    using remembersD(2) [OF assms that] by simp
  show "i = k \<and> Candidate = Follower" if "(tm + 1, k) \<in> insert (tm + 1, i) V" "k \<noteq> i" for k
    using that remembersD(1) [OF assms, of "tm + 1" k] by auto
  show "i = i \<and> Candidate \<noteq> Candidate" if "tm + 1 \<in> W"
    using remembersD(2) [OF assms that] by simp
qed (use remembersD(3,8) [OF assms] in blast)+

text \<open>A granted vote.\<close>

lemma remembers_grant:
  assumes "remembers i V W tm vf rl" "tm \<le> t" "tm < t \<or> vf = [] \<or> vf = k" "k \<noteq> i" "i \<noteq> []" "\<And>k. (t, k) \<in> V \<Longrightarrow> k \<noteq> []"
  shows "remembers i (insert (t, k) V) W t k Follower"
proof -
  have new: "k' = k" if "(t, k') \<in> V" "k' \<noteq> i" for k'
    using remembersD(1,4) [OF assms(1)] assms(2,3,6) that by (metis le_antisym less_le_not_le)
  have W: "t \<notin> W"
    using remembersD(2,9) [OF assms(1)] assms(2-5) by (metis le_antisym less_le_not_le)
  show ?thesis
  proof (rule remembersI)
    show "t' \<le> t" if "(t', k') \<in> insert (t, k) V" for t' k'
      using that remembersD(1) [OF assms(1)] assms(2) by fastforce
    show "t' \<le> t" if "t' \<in> W" for t'
      using remembersD(2) [OF assms(1) that] assms(2) by simp
    show "k1 = k2" if "(t', k1) \<in> insert (t, k) V" "(t', k2) \<in> insert (t, k) V" "k1 \<noteq> i" "k2 \<noteq> i" for t' k1 k2
      using that new remembersD(3) [OF assms(1)] by blast
  qed (use new W remembersD(8) [OF assms(1)] in auto)
qed

text \<open>The winner of an election becomes leader.\<close>

lemma remembers_win:
  assumes "remembers i V W tm vf Candidate"
  shows "remembers i V (insert tm W) tm vf Leader"
  by (rule remembersI) (use remembersD [OF assms] in \<open>blast | simp\<close>)+

lemma votes_ok_other:
  assumes "votes_ok c j" "node c' j = node c j" "votes c' j = votes c j" "won c' j = won c j"
  shows "votes_ok c' j"
  using assms by (simp add: votes_ok_def)

lemma votes_ok_calm:
  assumes "votes_ok c i" "calm (node c i) (node c' i)" "votes c' i = votes c i" "won c' i = won c i"
  shows "votes_ok c' i"
  using assms remembers_calm by (auto simp: votes_ok_def)

lemma election_inv_calm:
  assumes "election_inv ms c" "node c' = (node c)(i := n')" "calm (node c i) n'" "i \<in> set ms"
    and "voted c' = voted c" "leader c' = leader c" "counted_ok ms c'"
  shows "election_inv ms c'"
  unfolding election_inv_def
proof (intro conjI ballI)
  fix j assume "j \<in> set ms"
  with assms(1) have j: "votes_ok c j"
    by (simp add: election_inv_def)
  have vw: "votes c' j = votes c j" "won c' j = won c j"
    by (simp_all add: votes_def won_def assms(5,6))
  show "votes_ok c' j"
  proof (cases "j = i")
    case True
    with votes_ok_calm [OF j, of c'] vw assms show ?thesis by simp
  next
    case False
    with votes_ok_other [OF j, of c'] vw assms show ?thesis by simp
  qed
qed (fact assms(7))

lemma counted_ok_frame:
  assumes "counted_ok ms c" "voted c' = voted c" "leader c' = leader c" "vote_reqs c' = vote_reqs c"
    "vote_resps c' = vote_resps c" "ballot c' = ballot c"
  shows "counted_ok ms c'"
  using assms by (simp add: counted_ok_def votes_def)

lemma calm_HandleAppendEntries:
  assumes "HandleAppendEntries n req = Some (n', resp)"
  shows "calm n n'"
  using assms
proof (cases rule: HandleAppendEntries_cases)
  case (merged l)
  then show ?thesis
    using merged_frame [OF merged(6)] by (auto simp: calm_def apply_frame_def accepted_term_def)
qed (auto simp: calm_def accepted_term_def)

lemma calm_replicate_response:
  assumes "replicate_response n p t es resp = Some n'"
  shows "calm n n'"
  using assms
proof (cases rule: replicate_response_cases)
  case acked
  then show ?thesis
    using maybeAdvance_Some [OF acked(5)] by (auto simp: calm_def apply_frame_def)
qed (auto simp: calm_def)

section \<open>The steps\<close>

lemma member_fields:
  assumes "members_ok ms c" "i \<in> set ms"
  shows "n_id (node c i) = i" "i \<noteq> []" "Quorum (n_cfg (node c i)) = length ms div 2 + 1"
    "distinct (peerIDs (node c i))" "set (peerIDs (node c i)) = set ms - {i}" "durable (node c i)"
  using assms by (auto simp: members_ok_def member_node_def Quorum_def)

lemma counted_okD:
  assumes "counted_ok ms c"
  shows "req \<in> vote_reqs c \<Longrightarrow> rv_CandidateId req \<in> set ms \<and> 0 < rv_Term req"
    "(t, k) \<in> votes c j \<Longrightarrow> j \<in> set ms \<and> k \<in> set ms \<and> 0 < t"
    "(j, req, resp) \<in> vote_resps c \<Longrightarrow> j \<in> set ms - {rv_CandidateId req}"
    "(j, req, resp) \<in> vote_resps c \<Longrightarrow> vr_VoteGranted resp \<Longrightarrow> (rv_Term req, rv_CandidateId req) \<in> votes c j"
    "distinct (map fst (ballot c i t))"
    "(j, granted) \<in> set (ballot c i t) \<Longrightarrow> j \<in> set ms - {i} \<and> (granted \<longrightarrow> (t, i) \<in> votes c j)"
    "leader c t = Some i \<Longrightarrow> i \<in> set ms \<and> (\<exists>Q. quorum ms Q \<and> (\<forall>j \<in> Q. (t, i) \<in> votes c j))"
  using assms by (simp_all add: counted_ok_def)

lemma counted_okI:
  assumes "\<And>req. req \<in> vote_reqs c \<Longrightarrow> rv_CandidateId req \<in> set ms \<and> 0 < rv_Term req"
    "\<And>j t k. (t, k) \<in> votes c j \<Longrightarrow> j \<in> set ms \<and> k \<in> set ms \<and> 0 < t"
    "\<And>j req resp. (j, req, resp) \<in> vote_resps c \<Longrightarrow> j \<in> set ms - {rv_CandidateId req}"
    "\<And>j req resp. (j, req, resp) \<in> vote_resps c \<Longrightarrow> vr_VoteGranted resp \<Longrightarrow>
       (rv_Term req, rv_CandidateId req) \<in> votes c j"
    "\<And>i t. distinct (map fst (ballot c i t))"
    "\<And>i t j granted. (j, granted) \<in> set (ballot c i t) \<Longrightarrow>
       j \<in> set ms - {i} \<and> (granted \<longrightarrow> (t, i) \<in> votes c j)"
    "\<And>i t. leader c t = Some i \<Longrightarrow> i \<in> set ms \<and> (\<exists>Q. quorum ms Q \<and> (\<forall>j \<in> Q. (t, i) \<in> votes c j))"
  shows "counted_ok ms c"
  using assms unfolding counted_ok_def by blast

text \<open>A new vote leaves what was counted in place.\<close>

lemma counted_ok_vote:
  assumes cnt: "counted_ok ms c" and mono: "\<And>j. votes c j \<subseteq> votes c' j"
    and same: "leader c' = leader c" "ballot c' = ballot c"
    and new: "\<And>req. req \<in> vote_reqs c' \<Longrightarrow> rv_CandidateId req \<in> set ms \<and> 0 < rv_Term req"
      "\<And>j t k. (t, k) \<in> votes c' j \<Longrightarrow> j \<in> set ms \<and> k \<in> set ms \<and> 0 < t"
      "\<And>j req resp. (j, req, resp) \<in> vote_resps c' \<Longrightarrow> j \<in> set ms - {rv_CandidateId req}"
      "\<And>j req resp. (j, req, resp) \<in> vote_resps c' \<Longrightarrow> vr_VoteGranted resp \<Longrightarrow>
         (rv_Term req, rv_CandidateId req) \<in> votes c' j"
  shows "counted_ok ms c'"
proof (rule counted_okI)
  show "j \<in> set ms - {i} \<and> (granted \<longrightarrow> (t, i) \<in> votes c' j)" if "(j, granted) \<in> set (ballot c' i t)" for i t j granted
    using counted_okD(6) [OF cnt, of j granted i t] subsetD [OF mono] that by (simp add: same)
  show "i \<in> set ms \<and> (\<exists>Q. quorum ms Q \<and> (\<forall>j \<in> Q. (t, i) \<in> votes c' j))" if "leader c' t = Some i" for i t
    using counted_okD(7) [OF cnt] mono that by (metis same(1) subsetD)
  show "distinct (map fst (ballot c' i t))" for i t
    using counted_okD(5) [OF cnt] by (simp add: same)
qed (fact new)+

text \<open>A step that changes the votes and wins of one node only.\<close>

lemma election_inv_put:
  assumes "election_inv ms c" "counted_ok ms c'"
    and "\<And>j. j \<noteq> i \<Longrightarrow> node c' j = node c j \<and> votes c' j = votes c j \<and> won c' j = won c j"
    and "i \<in> set ms \<Longrightarrow> votes_ok c' i"
  shows "election_inv ms c'"
  using assms votes_ok_other unfolding election_inv_def by metis

lemma election_timeout:
  assumes inv: "election_inv ms c" "members_ok ms c" "i \<in> set ms"
    and step: "currentTerm (node c i) + 1 < 2 ^ 64" "onElectionTimeout (node c i) = Some (n', Some req)"
    and c': "c' = (put_node c i n')\<lparr>vote_reqs := insert req (vote_reqs c),
            voted := insert (i, currentTerm n', i, n_log n') (voted c)\<rparr>"
  shows "election_inv ms c'"
proof -
  note n' = onElectionTimeout_Some [OF step(2,1)] and i = member_fields [OF inv(2,3)]
  have v: "votes c' j = (if j = i then insert (currentTerm (node c i) + 1, i) (votes c i) else votes c j)" for j
    using n' i by (auto simp: c' votes_def)
  have w: "won c' j = won c j" for j
    by (simp add: c' won_def)
  have cnt: "counted_ok ms c"
    using inv(1) by (simp add: election_inv_def)
  have cnt': "counted_ok ms c'"
  proof (rule counted_ok_vote [OF cnt])
    show "votes c j \<subseteq> votes c' j" for j
      by (auto simp: v)
    show "j \<in> set ms - {rv_CandidateId rq}" if "(j, rq, resp) \<in> vote_resps c'" for j rq resp
      using that counted_okD(3) [OF cnt] by (auto simp: c')
    show "(rv_Term rq, rv_CandidateId rq) \<in> votes c' j"
      if "(j, rq, resp) \<in> vote_resps c'" "vr_VoteGranted resp" for j rq resp
      using that counted_okD(4) [OF cnt, of j rq resp] unfolding v by (auto simp: c')
    show "j \<in> set ms \<and> k \<in> set ms \<and> 0 < t" if "(t, k) \<in> votes c' j" for j t k
      using that inv(3) counted_okD(2) [OF cnt, of t k] by (auto simp: v split: if_splits)
    show "rv_CandidateId rq \<in> set ms \<and> 0 < rv_Term rq" if "rq \<in> vote_reqs c'" for rq
      using that counted_okD(1) [OF cnt] n' i inv(3) by (auto simp: c')
  qed (simp_all add: c')
  have "votes_ok c i"
    using inv(1,3) by (simp add: election_inv_def)
  note r = remembers_timeout [OF this [unfolded votes_ok_def]]
  have "currentTerm (node c' i) = currentTerm (node c i) + 1" "votedFor (node c' i) = i"
      "n_role (node c' i) = Candidate"
    using n' i by (auto simp: c')
  with r have "votes_ok c' i"
    by (simp only: votes_ok_def v w if_True simp_thms)
  with cnt' show ?thesis
    using v w by (intro election_inv_put [OF inv(1)]) (auto simp: c')
qed

lemma counted_request_vote:
  assumes cnt: "counted_ok ms c" and j: "j \<in> set ms"
    and step: "req \<in> vote_reqs c" "j \<noteq> rv_CandidateId req"
    and v: "\<And>x. votes c' x = (if x = j \<and> vr_VoteGranted resp
      then insert (rv_Term req, rv_CandidateId req) (votes c j) else votes c x)"
    and c': "vote_reqs c' = vote_reqs c" "vote_resps c' = insert (j, req, resp) (vote_resps c)"
      "ballot c' = ballot c" "leader c' = leader c"
  shows "counted_ok ms c'"
proof (rule counted_ok_vote [OF cnt])
  show "votes c x \<subseteq> votes c' x" for x
    by (auto simp: v)
  show "x \<in> set ms - {rv_CandidateId rq}" if "(x, rq, rs) \<in> vote_resps c'" for x rq rs
    using that counted_okD(3) [OF cnt, of x rq rs] j step(2) by (auto simp: c')
  show "(rv_Term rq, rv_CandidateId rq) \<in> votes c' x"
    if "(x, rq, rs) \<in> vote_resps c'" "vr_VoteGranted rs" for x rq rs
    using that counted_okD(4) [OF cnt, of x rq rs] unfolding v by (auto simp: c')
  show "x \<in> set ms \<and> k \<in> set ms \<and> 0 < t" if "(t, k) \<in> votes c' x" for x t k
    using that j counted_okD(1) [OF cnt step(1)] counted_okD(2) [OF cnt, of t k] by (auto simp: v split: if_splits)
  show "rv_CandidateId rq \<in> set ms \<and> 0 < rv_Term rq" if "rq \<in> vote_reqs c'" for rq
    using that counted_okD(1) [OF cnt] by (simp add: c')
qed (simp_all add: c')

lemma granted_votes_ok:
  assumes inv: "counted_ok ms c" "members_ok ms c" "j \<in> set ms" and ok: "votes_ok c j"
    and step: "j \<noteq> rv_CandidateId req" "HandleRequestVote (node c j) req = Some (n', resp)"
    and v: "votes c' j = (if vr_VoteGranted resp
      then insert (rv_Term req, rv_CandidateId req) (votes c j) else votes c j)" "won c' j = won c j"
    and c': "node c' j = n'"
  shows "votes_ok c' j"
  using step(2)
proof (cases rule: HandleRequestVote_cases)
  case granted
  note j = member_fields [OF inv(2,3)]
  have "currentTerm n' = rv_Term req" "votedFor n' = rv_CandidateId req"
    using granted by auto
  moreover have "n_role n' = Follower"
  proof (cases "n_role (node c j) = Follower")
    case False
    then have "votedFor (node c j) = j"
      using remembersD(6) [OF ok [unfolded votes_ok_def]] by simp
    with granted(4,5) step(1) j(2) show ?thesis by auto
  qed (use granted(4) in simp)
  moreover have "k \<noteq> []" if "(rv_Term req, k) \<in> votes c j" for k
    using counted_okD(2) [OF inv(1) that] member_fields(2) [OF inv(2)] by blast
  ultimately show ?thesis
    using remembers_grant [OF ok [unfolded votes_ok_def] granted(1) _ step(1) [symmetric] j(2)] granted
    by (simp add: votes_ok_def v c')
next
  case stale
  then show ?thesis
    using votes_ok_calm [OF ok, of c'] by (simp add: v c')
next
  case refused
  then have "calm (node c j) n'"
    by (auto simp: calm_def)
  then show ?thesis
    using votes_ok_calm [OF ok, of c'] refused by (simp add: v c')
qed

lemma election_request_vote:
  assumes inv: "election_inv ms c" "members_ok ms c" "j \<in> set ms"
    and step: "req \<in> vote_reqs c" "j \<noteq> rv_CandidateId req" "HandleRequestVote (node c j) req = Some (n', resp)"
    and c': "c' = (put_node c j n')\<lparr>vote_resps := insert (j, req, resp) (vote_resps c),
            voted := (if vr_VoteGranted resp
              then insert (j, rv_Term req, rv_CandidateId req, n_log (node c j)) (voted c) else voted c)\<rparr>"
  shows "election_inv ms c'"
proof -
  have cnt: "counted_ok ms c" and ok: "votes_ok c j"
    using inv(1,3) by (simp_all add: election_inv_def)
  have v: "votes c' x = (if x = j \<and> vr_VoteGranted resp
      then insert (rv_Term req, rv_CandidateId req) (votes c j) else votes c x)" for x
    by (auto simp: c' votes_def)
  have w: "won c' x = won c x" for x
    by (simp add: c' won_def)
  have "counted_ok ms c'"
    by (rule counted_request_vote [OF cnt inv(3) step(1,2) v]) (simp_all add: c')
  moreover have "votes_ok c' j"
    by (rule granted_votes_ok [OF cnt inv(2,3) ok step(2,3) _ w]) (simp add: v, simp add: c')
  ultimately show ?thesis
    using v w by (intro election_inv_put [OF inv(1), of _ j]) (auto simp: c')
qed

lemma ballot_count:
  assumes "distinct (map fst bs)" "i \<notin> fst ` set bs"
  shows "card (insert i {j. (j, True) \<in> set bs}) = 1 + length (filter (\<lambda>b. b) (map snd bs))"
proof -
  have eq: "{j. (j, True) \<in> set bs} = set (map fst (filter snd bs))"
    by force
  have "distinct (map fst (filter snd bs))"
    using assms(1) by (rule distinct_map_filter)
  from distinct_card [OF this] have "card {j. (j, True) \<in> set bs} = length (filter snd bs)"
    unfolding eq by simp
  moreover have "i \<notin> {j. (j, True) \<in> set bs}"
    using assms(2) by force
  moreover have "finite {j. (j, True) \<in> set bs}"
    unfolding eq by simp
  ultimately show ?thesis
    by (simp add: filter_map comp_def)
qed

text \<open>The winner of a count: it has a quorum of votes, and nobody won the term before.\<close>

lemma election_won:
  assumes inv: "election_inv ms c" "members_ok ms c" "i \<in> set ms"
    and win: "n_role (node c i) = Candidate" "currentTerm (node c i) = t"
      "tally (Quorum (n_cfg (node c i))) 1 (map snd (ballot c i t)) \<noteq> None"
  shows "leader c t = None" and "\<exists>Q. quorum ms Q \<and> (\<forall>j \<in> Q. (t, i) \<in> votes c j)"
proof -
  have cnt: "counted_ok ms c" and ok: "\<And>j. j \<in> set ms \<Longrightarrow> votes_ok c j"
    using inv(1) by (simp_all add: election_inv_def)
  note oki = ok [OF inv(3), unfolded votes_ok_def win(1,2)]
  let ?Q = "insert i {j. (j, True) \<in> set (ballot c i t)}"
  have "i \<notin> fst ` set (ballot c i t)"
    using counted_okD(6) [OF cnt, of i _ i t] by auto
  from ballot_count [OF counted_okD(5) [OF cnt] this] win(3)
  have "length ms div 2 + 1 \<le> card ?Q"
    using tally_count member_fields(3) [OF inv(2,3)] by fastforce
  then have Q: "quorum ms ?Q"
    using counted_okD(6) [OF cnt] inv(3) by (auto simp: quorum_def)
  have v: "(t, i) \<in> votes c j" if "j \<in> ?Q" for j
    using that counted_okD(6) [OF cnt, of j True i t] remembersD(7) [OF oki] by auto
  show "\<exists>Q. quorum ms Q \<and> (\<forall>j \<in> Q. (t, i) \<in> votes c j)"
    using Q v by blast
  show "leader c t = None"
  proof (cases "leader c t")
    case (Some k)
    have "t \<notin> won c i"
      using remembersD(10) [OF oki] by blast
    with Some have "k \<noteq> i"
      by (auto simp: won_def)
    from counted_okD(7) [OF cnt Some] obtain P where k: "k \<in> set ms" and P: "quorum ms P"
      "\<And>j. j \<in> P \<Longrightarrow> (t, k) \<in> votes c j"
      by auto
    from quorums_meet [OF P(1) Q] obtain j where j: "j \<in> P" "j \<in> ?Q" .
    have vj: "(t, k) \<in> votes c j" "(t, i) \<in> votes c j" "j \<in> set ms"
      using P(2) [OF j(1)] v [OF j(2)] counted_okD(2) [OF cnt] by blast+
    have "j \<noteq> i"
      using vj(1) \<open>k \<noteq> i\<close> remembersD(5) [OF oki, of k] by auto
    moreover have "j \<noteq> k"
      using vj(2) Some \<open>k \<noteq> i\<close> remembersD(8) [OF ok [OF vj(3), unfolded votes_ok_def], of t i]
      by (auto simp: won_def)
    ultimately have "k = i"
      using remembersD(3) [OF ok [OF vj(3), unfolded votes_ok_def] vj(1,2)] by blast
    with \<open>k \<noteq> i\<close> show ?thesis ..
  qed simp
qed

lemma count_votes_cases:
  assumes "startElection n t bs = Some n'"
  obtains (same) "n' = n" | (won) "n_role n = Candidate" "currentTerm n = t"
    "tally (Quorum (n_cfg n)) 1 bs \<noteq> None" "n_role n' = Leader" "n_role n \<noteq> Leader"
    "currentTerm n' = t" "votedFor n' = votedFor n" "n_log n' = n_log n"
  using startElection_Some [OF assms] by (metis Role.distinct(5))

lemma election_count_votes:
  assumes inv: "election_inv ms c" "members_ok ms c" "i \<in> set ms"
    and step: "startElection (node c i) t (map snd (ballot c i t)) = Some n'"
    and c': "c' = (if n_role n' = Leader \<and> n_role (node c i) \<noteq> Leader
            then (put_node c i n')\<lparr>leader := (leader c)(t := Some i), llog := (llog c)(t := n_log n')\<rparr>
            else put_node c i n')"
  shows "election_inv ms c'"
  using step
proof (cases rule: count_votes_cases)
  case same
  then have c': "c' = put_node c i (node c i)"
    by (simp add: c')
  show ?thesis
    by (rule election_inv_calm [OF inv(1), of _ i "node c i"])
      (use inv in \<open>auto simp: c' election_inv_def intro: counted_ok_frame\<close>)
next
  case won
  then have c': "c' = (put_node c i n')\<lparr>leader := (leader c)(t := Some i), llog := (llog c)(t := n_log n')\<rparr>"
    by (simp add: c')
  have cnt: "counted_ok ms c" and ok: "votes_ok c i"
    using inv(1,3) by (simp_all add: election_inv_def)
  note win = election_won [OF inv won(1-3)]
  have v: "votes c' j = votes c j" for j
    by (simp add: c' votes_def)
  have w: "won c' j = (if j = i then insert t (ElectionSafety.won c i) else ElectionSafety.won c j)" for j
    using win(1) by (auto simp: c' won_def)
  have "remembers i (votes c i) (insert t (ElectionSafety.won c i)) t (votedFor n') Leader"
    using remembers_win [of i "votes c i" "ElectionSafety.won c i" t "votedFor n'"] ok won by (simp add: votes_ok_def)
  then have "votes_ok c' i"
    unfolding votes_ok_def v w using won by (simp add: c')
  moreover have "counted_ok ms c'"
  proof (rule counted_okI)
    show "k \<in> set ms \<and> (\<exists>Q. quorum ms Q \<and> (\<forall>j \<in> Q. (t', k) \<in> votes c' j))" if "leader c' t' = Some k" for k t'
      using that win(2) inv(3) counted_okD(7) [OF cnt, of t' k] unfolding v by (auto simp: c' split: if_splits)
  qed (use counted_okD(1-6) [OF cnt] in \<open>simp_all add: v\<close>, simp_all add: c')
  ultimately show ?thesis
    using v w by (intro election_inv_put [OF inv(1), of _ i]) (auto simp: c')
qed

lemma election_vote_reply:
  assumes inv: "election_inv ms c" "i \<in> set ms"
    and step: "(j, req, resp) \<in> vote_resps c" "i = rv_CandidateId req" "t = rv_Term req"
      "j \<notin> fst ` set (ballot c i t)" "vote_response (node c i) t resp = (n', granted)"
    and c': "c' = (put_node c i n')\<lparr>ballot := (ballot c)(i := (ballot c i)(t := ballot c i t @ [(j, granted)]))\<rparr>"
  shows "election_inv ms c'"
proof -
  have cnt: "counted_ok ms c"
    using inv(1) by (simp add: election_inv_def)
  have calm: "calm (node c i) n'" and g: "granted \<Longrightarrow> vr_VoteGranted resp"
    using step(5) by (auto elim!: vote_response_cases simp: calm_step_down)
  have v: "votes c' x = votes c x" for x
    by (simp add: c' votes_def)
  have "counted_ok ms c'"
  proof (rule counted_okI)
    show "distinct (map fst (ballot c' x y))" for x y
      using counted_okD(5) [OF cnt] step(4) by (simp add: c')
    show "k \<in> set ms - {x} \<and> (gr \<longrightarrow> (y, x) \<in> votes c' k)" if "(k, gr) \<in> set (ballot c' x y)" for x y k gr
      using that counted_okD(6) [OF cnt, of k gr x y] counted_okD(3,4) [OF cnt step(1)] g step(2,3) unfolding v
      by (auto simp: c' split: if_splits)
  qed (use counted_okD(1-4,7) [OF cnt] in \<open>simp_all add: v\<close>, simp_all add: c')
  then show ?thesis
    using inv calm by (intro election_inv_calm [OF inv(1), of _ i n']) (simp_all add: c')
qed

lemma calm_restart:
  assumes "durable n" "node_sized n" "NewNode (n_cfg n) (peerIDs n) (applyCap n) (n_disk n) = Ok n'"
  shows "calm n n'"
  unfolding restart_Some [OF assms] by (simp add: calm_def fresh_node_def)

lemma calm_frame: "apply_frame n n' \<Longrightarrow> calm n n'"
  by (simp add: calm_def apply_frame_def)

lemma calm_step:
  assumes "calm (node c i) n'" "node c' = (node c)(i := n')" "election_inv ms c" "i \<in> set ms"
    "ballot c' = ballot c" "vote_resps c' = vote_resps c" "vote_reqs c' = vote_reqs c" "voted c' = voted c" "leader c' = leader c"
  shows "election_inv ms c'"
  using assms by (intro election_inv_calm [OF assms(3), of _ i n'])
    (auto simp: election_inv_def intro: counted_ok_frame)

lemma election_inv_step:
  assumes "cluster_step ms c c'" "election_inv ms c" "members_ok ms c"
  shows "election_inv ms c'"
  using assms(1)
proof cases
  case (timeout i n' req)
  then show ?thesis using election_timeout [OF assms(2,3)] by blast
next
  case (request_vote req j n' resp)
  then show ?thesis using election_request_vote [OF assms(2,3)] by blast
next
  case (vote_reply j req resp i t n' granted)
  show ?thesis
    by (rule election_vote_reply [OF assms(2) vote_reply(4,2,3,5,6,7,1)])
next
  case (count_votes i t n')
  then show ?thesis using election_count_votes [OF assms(2,3)] by blast
next
  case (propose i data n' idx t)
  with Propose_Some [OF propose(4)] have "calm (node c i) n'"
    by (auto simp: calm_def)
  with propose assms(2) show ?thesis
    by (intro election_inv_calm [OF assms(2), of _ i n'])
      (auto simp: election_inv_def intro: counted_ok_frame)
next
  case (replicate i p t req)
  with assms(2) show ?thesis
    by (intro election_inv_calm [OF assms(2), of _ i "node c i"])
      (auto simp: election_inv_def intro: counted_ok_frame)
next
  case (append j req n' resp)
  from calm_step [OF calm_HandleAppendEntries [OF append(4)], of c'] show ?thesis
    using assms(2) append(3) by (simp add: append(1))
next
  case (append_reply j req resp i n')
  from calm_step [OF calm_replicate_response [OF append_reply(5)], of c'] show ?thesis
    using assms(2) append_reply(4) by (simp add: append_reply(1))
next
  case (restart i n')
  from calm_step [OF calm_restart [OF member_fields(6) [OF assms(3) restart(2)] restart(3,4)], of c'] show ?thesis
    using assms(2) restart(2) by (simp add: restart(1))
next
  case (unblock i k n')
  from calm_step [OF calm_frame [OF unblock_frame(1) [OF unblock(3)]], of c'] show ?thesis
    using assms(2) unblock(2) by (simp add: unblock(1))
next
  case (receive i n' m)
  from calm_step [OF calm_frame [OF receive_frame(1) [OF receive(3)]], of c'] show ?thesis
    using assms(2) receive(2) by (simp add: receive(1))
qed

lemma reachable_election_inv: "reachable ms c \<Longrightarrow> election_inv ms c"
proof (induction rule: reachable.induct)
  case (start c)
  then have "votes c i = {}" "won c i = {}" for i
    by (simp_all add: initial_def votes_def won_def)
  moreover have "n_role (node c i) = Follower" if "i \<in> set ms" for i
    using start that by (auto simp: initial_def fresh_node_def)
  ultimately show ?case
    using start by (auto simp: election_inv_def votes_ok_def remembers_def counted_ok_def initial_def)
next
  case (step c c')
  then show ?case
    using election_inv_step reachable_members_ok by blast
qed

section \<open>Winners are final\<close>

lemma leader_final_step:
  assumes "cluster_step ms c c'" "election_inv ms c" "members_ok ms c" "leader c t = Some i"
  shows "leader c' t = Some i"
  using assms(1)
proof cases
  case (count_votes k u n')
  from count_votes(3) show ?thesis
  proof (cases rule: count_votes_cases)
    case won
    with election_won(1) [OF assms(2,3) count_votes(2) won(1-3)] assms(4) count_votes(1) show ?thesis
      by auto
  qed (use count_votes assms(4) in simp)
qed (use assms(4) in simp_all)

lemma reachable_steps: "(cluster_step ms)\<^sup>*\<^sup>* c c' \<Longrightarrow> reachable ms c \<Longrightarrow> reachable ms c'"
  by (induction rule: rtranclp_induct) (auto intro: reachable.step)

lemma leader_final:
  "(cluster_step ms)\<^sup>*\<^sup>* c c' \<Longrightarrow> reachable ms c \<Longrightarrow> leader c t = Some i \<Longrightarrow> leader c' t = Some i"
proof (induction rule: rtranclp_induct)
  case (step c' c'')
  then show ?case
    using leader_final_step reachable_election_inv reachable_members_ok reachable_steps by metis
qed simp

lemma leader_recorded:
  assumes "reachable ms c" "i \<in> set ms" "n_role (node c i) = Leader"
  shows "leader c (currentTerm (node c i)) = Some i"
  using reachable_election_inv [OF assms(1)] assms(2,3) remembersD(11)
  by (fastforce simp: election_inv_def votes_ok_def won_def)

section \<open>Properties\<close>

text \<open>Property C3. Election safety: no two nodes of a cluster ever lead the same term, at the same time or at
  different times of a run. This holds for every run of the handlers over a network that
  loses, repeats and reorders messages, with nodes that restart from their state files at any
  time.\<close>

theorem election_safety:
  assumes "reachable ms c" and "(cluster_step ms)\<^sup>*\<^sup>* c c'" and "i \<in> set ms" and "j \<in> set ms"
    and "n_role (node c i) = Leader" and "n_role (node c' j) = Leader"
    and "currentTerm (node c i) = currentTerm (node c' j)"
  shows "i = j"
proof -
  have "leader c' (currentTerm (node c i)) = Some i"
    using leader_final [OF assms(2,1)] leader_recorded [OF assms(1,3,5)] by blast
  moreover have "leader c' (currentTerm (node c' j)) = Some j"
    using leader_recorded [OF reachable_steps [OF assms(2,1)] assms(4,6)] .
  ultimately show ?thesis
    using assms(7) by simp
qed

theorem election_safety_witness:
  "\<exists>c. reachable [''a'', ''b''] c \<and> n_role (node c ''a'') = Leader \<and>
     \<not> (n_role (node c ''b'') = Leader \<and> currentTerm (node c ''b'') = currentTerm (node c ''a''))"
proof -
  obtain c where c: "reachable [''a'', ''b''] c" "node c ''a'' = A4"
    using demo_run by blast
  have "\<not> (n_role (node c ''b'') = Leader \<and> currentTerm (node c ''b'') = currentTerm (node c ''a''))"
    using election_safety [OF c(1) rtranclp.rtrancl_refl, of "''a''" "''b''"] c(2) by (auto simp: demo_end)
  with c show ?thesis by (auto simp: demo_end)
qed

end
