(* ===== verification/LogMatching.thy ===== *)
theory LogMatching
  imports ElectionSafety "HOL-Library.Sublist"
begin

text \<open>
  Log matching: the logs of a cluster agree up to any position at which they hold an entry of
  the same term. The proof compares every log with the log of the leader of each term:
  a log is good if, at any position with an entry of term \<open>t\<close>, it equals the log of the
  leader of \<open>t\<close> up to that position. Requests carry slices of the leader's log, so
  merging one keeps a log good; the only new entries are appended by the leader itself.
\<close>

section \<open>Lists: merging a slice of another log\<close>

lemma common_stop:
  "common idx es lg < length es \<Longrightarrow>
    length lg \<le> idx + common idx es lg \<or> l_Term (lg ! (idx + common idx es lg)) \<noteq> l_Term (es ! common idx es lg)"
  by (induction idx es lg rule: common.induct) auto

lemma take_eq_nth: "take (Suc n) L = take (Suc n) M \<Longrightarrow> n < length L \<Longrightarrow> n < length M \<Longrightarrow> L ! n = M ! n"
  by (metis lessI nth_take)

lemma take_eq_less: "take n L = take n M \<Longrightarrow> m \<le> n \<Longrightarrow> take m L = take m M"
  by (metis min.absorb1 take_take)

text \<open>The entries of the request are the slice of \<open>M\<close> after position \<open>p\<close>.\<close>

lemma slice_nth:
  assumes es: "es = take (length es) (drop (Suc p) M)" and i: "i < length es"
  shows "Suc p + i < length M" "es ! i = M ! (Suc p + i)"
proof -
  have "length es = min (length es) (length M - Suc p)"
    using arg_cong [OF es, of length] by simp
  with i show "Suc p + i < length M"
    by simp
  then show "es ! i = M ! (Suc p + i)"
    using i by (subst es) simp
qed

lemma common_agrees:
  assumes p: "take (Suc p) L = take (Suc p) M" and es: "es = take (length es) (drop (Suc p) M)"
    and match: "\<And>q. q < length L \<Longrightarrow> q < length M \<Longrightarrow> l_Term (L ! q) = l_Term (M ! q) \<Longrightarrow> take (Suc q) L = take (Suc q) M"
  shows "take (Suc p + common (Suc p) es L) L = take (Suc p + common (Suc p) es L) M"
proof (cases "common (Suc p) es L")
  case 0
  then show ?thesis using p by simp
next
  case (Suc m)
  then have "m < common (Suc p) es L"
    by simp
  from common_terms [OF this] slice_nth [OF es, of m] common_le [of "Suc p" es L]
    common_in_log [of "Suc p" es L] Suc
  have "take (Suc (Suc p + m)) L = take (Suc (Suc p + m)) M"
    by (intro match) auto
  then show ?thesis using Suc by simp
qed

lemma cut_disagrees:
  assumes es: "es = take (length es) (drop (Suc p) M)" and lt: "common (Suc p) es L < length es"
  shows "\<not> (Suc p + length es \<le> length L \<and> take (Suc p + length es) L = take (Suc p + length es) M)"
proof
  let ?q = "Suc p + common (Suc p) es L"
  assume a: "Suc p + length es \<le> length L \<and> take (Suc p + length es) L = take (Suc p + length es) M"
  have "?q < Suc p + length es"
    using lt by simp
  from nth_take [OF this, of L] nth_take [OF this, of M] have "L ! ?q = M ! ?q"
    by (simp only: a)
  moreover have "length L \<le> ?q \<or> l_Term (L ! ?q) \<noteq> l_Term (es ! common (Suc p) es L)"
    using common_stop [of "Suc p" es L] lt by simp
  moreover have "?q < length L"
    using conjunct1 [OF a] lt by simp
  ultimately show False
    using slice_nth(2) [OF es lt] by simp
qed

lemma merge_slice:
  assumes p: "p < length L" "take (Suc p) L = take (Suc p) M"
    and es: "es = take (length es) (drop (Suc p) M)"
    and match: "\<And>q. q < length L \<Longrightarrow> q < length M \<Longrightarrow> l_Term (L ! q) = l_Term (M ! q) \<Longrightarrow> take (Suc q) L = take (Suc q) M"
  defines "e \<equiv> Suc p + length es"
  shows "append_entries (Suc p) es L = L \<and> e \<le> length L \<and> take e L = take e M \<or>
    append_entries (Suc p) es L = take e M \<and> \<not> (e \<le> length L \<and> take e L = take e M)"
proof -
  define m where "m = common (Suc p) es L"
  note tm = common_agrees [OF p(2) es match, folded m_def]
  have eq: "append_entries (Suc p) es L = (if m = length es then L else take (Suc p + m) L @ drop m es)"
    using append_entries_eq [of "Suc p" L es] p(1) by (simp add: m_def)
  show ?thesis
  proof (cases "m = length es")
    case True
    then have "m = length es" "e = Suc p + m" "append_entries (Suc p) es L = L"
      using eq by (simp_all add: e_def)
    moreover have "Suc p + m \<le> length L"
      using common_in_log [of "Suc p" es L] p(1) by (auto simp: m_def)
    ultimately show ?thesis
      using tm by blast
  next
    case False
    then have lt: "m < length es"
      using common_le [of "Suc p" es L] by (simp add: m_def)
    have "drop m es = take (length es - m) (drop (Suc p + m) M)"
      by (subst es) (simp add: drop_take add.commute)
    then have "append_entries (Suc p) es L = take (Suc p + m + (length es - m)) M"
      using eq False tm by (simp only: take_add if_False)
    also have "Suc p + m + (length es - m) = e"
      using lt by (simp add: e_def)
    finally show ?thesis
      using cut_disagrees [OF es lt [unfolded m_def], folded e_def] by blast
  qed
qed

text \<open>A part of the log that agrees with \<open>M\<close> survives the merge.\<close>

lemma merge_keeps:
  assumes p: "p < length L" "take (Suc p) L = take (Suc p) M"
    and es: "es = take (length es) (drop (Suc p) M)"
    and match: "\<And>q. q < length L \<Longrightarrow> q < length M \<Longrightarrow> l_Term (L ! q) = l_Term (M ! q) \<Longrightarrow> take (Suc q) L = take (Suc q) M"
    and n: "n < length L" "n < length M" "take (Suc n) L = take (Suc n) M"
  shows "n < length (append_entries (Suc p) es L)"
    and "take (Suc n) (append_entries (Suc p) es L) = take (Suc n) M"
proof -
  let ?L = "append_entries (Suc p) es L" and ?e = "Suc p + length es"
  have "?L = L \<or> n < ?e \<and> ?L = take ?e M"
  proof (cases "?L = L")
    case False
    with merge_slice [OF p es match] have "?L = take ?e M" "\<not> (?e \<le> length L \<and> take ?e L = take ?e M)"
      by blast+
    moreover have "n < ?e"
      using calculation(2) take_eq_less [OF n(3), of ?e] n(1) by force
    ultimately show ?thesis by blast
  qed simp
  then show "n < length ?L" "take (Suc n) ?L = take (Suc n) M"
    using n by (auto simp: min_def)
qed

section \<open>Invariants\<close>

definition good_log :: "Cluster \<Rightarrow> LogEntry list \<Rightarrow> bool" where
  "good_log c L \<longleftrightarrow> indexed L \<and> L ! 0 = sentinel \<and> sorted (map l_Term L) \<and>
     (\<forall>p. 0 < p \<and> p < length L \<longrightarrow> leader c (l_Term (L ! p)) \<noteq> None \<and>
        p < length (llog c (l_Term (L ! p))) \<and> take (Suc p) L = take (Suc p) (llog c (l_Term (L ! p))))"

definition terms_le :: "nat \<Rightarrow> LogEntry list \<Rightarrow> bool" where
  "terms_le t L \<longleftrightarrow> (\<forall>e \<in> set L. l_Term e \<le> t)"

definition node_log_ok :: "Cluster \<Rightarrow> string \<Rightarrow> bool" where
  "node_log_ok c i \<longleftrightarrow>
     good_log c (n_log (node c i)) \<and> terms_le (currentTerm (node c i)) (n_log (node c i)) \<and>
     length (n_log (node c i)) \<le> 2 ^ 63 \<and>
     (n_role (node c i) = Leader \<longrightarrow> n_log (node c i) = llog c (currentTerm (node c i)) \<and>
        (\<forall>p \<in> set (peerIDs (node c i)). nextIndex (node c i) p \<le> length (n_log (node c i))))"

definition leader_log_ok :: "Cluster \<Rightarrow> nat \<Rightarrow> bool" where
  "leader_log_ok c t \<longleftrightarrow> 0 < t \<and> good_log c (llog c t) \<and> terms_le t (llog c t) \<and> length (llog c t) \<le> 2 ^ 63"

definition req_ok :: "string list \<Rightarrow> Cluster \<Rightarrow> string \<Rightarrow> AppendEntriesRequest \<Rightarrow> bool" where
  "req_ok ms c j req \<longleftrightarrow>
     leader c (ae_Term req) = Some (ae_LeaderId req) \<and> j \<in> set ms - {ae_LeaderId req} \<and>
     ae_PrevLogIndex req < length (llog c (ae_Term req)) \<and>
     ae_PrevLogTerm req = l_Term (llog c (ae_Term req) ! ae_PrevLogIndex req) \<and>
     ae_Entries req =
       take (length (ae_Entries req)) (drop (Suc (ae_PrevLogIndex req)) (llog c (ae_Term req)))"

definition log_inv :: "string list \<Rightarrow> Cluster \<Rightarrow> bool" where
  "log_inv ms c \<longleftrightarrow>
     (\<forall>i \<in> set ms. node_log_ok c i) \<and> (\<forall>t. leader c t \<noteq> None \<longrightarrow> leader_log_ok c t) \<and>
     (\<forall>j t k L. (j, t, k, L) \<in> voted c \<longrightarrow> good_log c L) \<and>
     (\<forall>j req. (j, req) \<in> append_reqs c \<longrightarrow> req_ok ms c j req) \<and>
     (\<forall>j req resp. (j, req, resp) \<in> append_resps c \<longrightarrow> (j, req) \<in> append_reqs c)"

lemma log_invD:
  assumes "log_inv ms c"
  shows "i \<in> set ms \<Longrightarrow> node_log_ok c i" "leader c t = Some k \<Longrightarrow> leader_log_ok c t"
    "(j, t, k, L) \<in> voted c \<Longrightarrow> good_log c L" "(j, req) \<in> append_reqs c \<Longrightarrow> req_ok ms c j req"
    "(j, req, resp) \<in> append_resps c \<Longrightarrow> (j, req) \<in> append_reqs c"
  using assms unfolding log_inv_def by (blast, force, blast+)

lemma log_invI:
  assumes "\<And>i. i \<in> set ms \<Longrightarrow> node_log_ok c i" "\<And>t k. leader c t = Some k \<Longrightarrow> leader_log_ok c t"
    "\<And>j t k L. (j, t, k, L) \<in> voted c \<Longrightarrow> good_log c L" "\<And>j req. (j, req) \<in> append_reqs c \<Longrightarrow> req_ok ms c j req"
    "\<And>j req resp. (j, req, resp) \<in> append_resps c \<Longrightarrow> (j, req) \<in> append_reqs c"
  shows "log_inv ms c"
  using assms by (auto simp: log_inv_def)

section \<open>Good logs\<close>

lemma good_logD:
  assumes "good_log c L"
  shows "indexed L" "L \<noteq> []" "L ! 0 = sentinel" "sorted (map l_Term L)"
    "0 < p \<Longrightarrow> p < length L \<Longrightarrow> leader c (l_Term (L ! p)) \<noteq> None"
    "0 < p \<Longrightarrow> p < length L \<Longrightarrow> p < length (llog c (l_Term (L ! p)))"
    "0 < p \<Longrightarrow> p < length L \<Longrightarrow> take (Suc p) L = take (Suc p) (llog c (l_Term (L ! p)))"
  using assms by (auto simp: good_log_def indexed_def)

lemma good_log_sorted:
  "good_log c L \<Longrightarrow> p \<le> q \<Longrightarrow> q < length L \<Longrightarrow> l_Term (L ! p) \<le> l_Term (L ! q)"
  using sorted_nth_mono [of "map l_Term L" p q] good_logD(4) by fastforce

text \<open>Two good logs agree up to a position with entries of the same term.\<close>

lemma good_logs_match:
  assumes "good_log c L" "good_log c M" "q < length L" "q < length M" "l_Term (L ! q) = l_Term (M ! q)"
  shows "take (Suc q) L = take (Suc q) M"
proof (cases "q = 0")
  case True
  with assms good_logD(2,3) [OF assms(1)] good_logD(2,3) [OF assms(2)] show ?thesis
    by (simp add: take_Suc_conv_app_nth)
next
  case False
  with good_logD(7) [OF assms(1) _ assms(3)] good_logD(7) [OF assms(2) _ assms(4)] assms(5)
  show ?thesis by simp
qed

lemma good_log_take:
  assumes "good_log c L" "0 < m"
  shows "good_log c (take m L)"
proof -
  have "take (Suc p) (take m L) = take (Suc p) L" if "p < length (take m L)" for p
    using that by (simp add: take_take min.absorb1)
  then show ?thesis
    using assms by (auto simp: good_log_def indexed_take take_map [symmetric] sorted_wrt_take)
qed

lemma terms_le_take: "terms_le t L \<Longrightarrow> terms_le t (take m L)"
  by (auto simp: terms_le_def dest: in_set_takeD)

lemma terms_le_mono: "terms_le t L \<Longrightarrow> t \<le> u \<Longrightarrow> terms_le u L"
  by (auto simp: terms_le_def intro: order_trans)

text \<open>Winners stay, and the logs of leaders grow at the end.\<close>

definition evolves :: "Cluster \<Rightarrow> Cluster \<Rightarrow> string \<Rightarrow> bool" where
  "evolves c c' i \<longleftrightarrow> (\<forall>t k. leader c t = Some k \<longrightarrow>
     leader c' t = Some k \<and> prefix (llog c t) (llog c' t) \<and> (k \<noteq> i \<longrightarrow> llog c' t = llog c t))"

lemma evolves_frame: "leader c' = leader c \<Longrightarrow> llog c' = llog c \<Longrightarrow> evolves c c' i"
  by (simp add: evolves_def)

lemma prefix_take: "prefix L M \<Longrightarrow> n \<le> length L \<Longrightarrow> take n M = take n L"
  by (auto simp: prefix_def)

lemma evolves_llog:
  assumes "evolves c c' i" "leader c t \<noteq> None" "p < length (llog c t)"
  shows "p < length (llog c' t)" "take (Suc p) (llog c' t) = take (Suc p) (llog c t)"
    "llog c' t ! p = llog c t ! p"
proof -
  have "prefix (llog c t) (llog c' t)"
    using assms(1,2) by (auto simp: evolves_def)
  with assms(3) show "p < length (llog c' t)" "take (Suc p) (llog c' t) = take (Suc p) (llog c t)"
    "llog c' t ! p = llog c t ! p"
    by (auto simp: prefix_def nth_append)
qed

lemma good_log_evolves:
  assumes "evolves c c' i" "good_log c L"
  shows "good_log c' L"
  using assms(2) evolves_llog [OF assms(1)] assms(1) unfolding good_log_def
  by (simp add: evolves_def) (metis option.exhaust)

lemma req_ok_evolves:
  assumes "evolves c c' i" "req_ok ms c j req"
  shows "req_ok ms c' j req"
proof -
  let ?T = "ae_Term req" and ?p = "ae_PrevLogIndex req" and ?n = "length (ae_Entries req)"
  have "leader c ?T = Some (ae_LeaderId req)"
    using assms(2) by (simp add: req_ok_def)
  then have "leader c' ?T = Some (ae_LeaderId req)" "prefix (llog c ?T) (llog c' ?T)"
    using assms(1) by (simp_all add: evolves_def)
  moreover from this(2) obtain rest where rest: "llog c' ?T = llog c ?T @ rest"
    by (auto simp: prefix_def)
  moreover have "ae_Entries req = take ?n (drop (Suc ?p) (llog c ?T))"
    using assms(2) by (simp add: req_ok_def)
  moreover from this have "?n \<le> length (drop (Suc ?p) (llog c ?T))"
    by (metis length_take min.cobounded1 min.commute)
  ultimately show ?thesis
    using assms(2) by (simp add: req_ok_def nth_append)
qed

lemma node_log_ok_other:
  assumes "node_log_ok c j" "evolves c c' i" "node c' j = node c j" "j \<noteq> i"
    and "n_role (node c j) = Leader \<Longrightarrow> leader c (currentTerm (node c j)) = Some j"
  shows "node_log_ok c' j"
  using assms good_log_evolves [OF assms(2)] by (auto simp: node_log_ok_def evolves_def)

text \<open>A step of node \<open>i\<close>.\<close>

lemma log_inv_put:
  assumes inv: "log_inv ms c" "election_inv ms c" and ev: "evolves c c' i"
    and same: "\<And>j. j \<noteq> i \<Longrightarrow> node c' j = node c j"
    and i: "i \<in> set ms \<Longrightarrow> node_log_ok c' i"
    and ll: "\<And>t k. leader c' t = Some k \<Longrightarrow> leader c t = Some k \<and> llog c' t = llog c t \<or> leader_log_ok c' t"
    and v: "\<And>j t k L. (j, t, k, L) \<in> voted c' \<Longrightarrow> (j, t, k, L) \<in> voted c \<or> good_log c L"
    and rq: "\<And>j req. (j, req) \<in> append_reqs c' \<Longrightarrow> (j, req) \<in> append_reqs c \<or> req_ok ms c' j req"
    and rs: "\<And>j req resp. (j, req, resp) \<in> append_resps c' \<Longrightarrow> (j, req) \<in> append_reqs c'"
  shows "log_inv ms c'"
proof (rule log_invI)
  fix j assume j: "j \<in> set ms"
  show "node_log_ok c' j"
  proof (cases "j = i")
    case False
    have "votes_ok c j"
      using inv(2) j by (simp add: election_inv_def)
    then have "leader c (currentTerm (node c j)) = Some j" if "n_role (node c j) = Leader"
      using remembersD(11) that by (fastforce simp: votes_ok_def won_def)
    then show ?thesis
      using node_log_ok_other [OF log_invD(1) [OF inv(1) j] ev same [OF False] False] by blast
  qed (use i j in simp)
next
  fix t k assume "leader c' t = Some k"
  with ll consider "leader c t = Some k" "llog c' t = llog c t" | "leader_log_ok c' t"
    by blast
  then show "leader_log_ok c' t"
  proof cases
    case 1
    with log_invD(2) [OF inv(1) 1(1)] good_log_evolves [OF ev] show ?thesis
      by (simp add: leader_log_ok_def)
  qed
next
  fix j t k L assume "(j, t, k, L) \<in> voted c'"
  with v log_invD(3) [OF inv(1)] good_log_evolves [OF ev] show "good_log c' L"
    by blast
next
  fix j req assume "(j, req) \<in> append_reqs c'"
  with rq log_invD(4) [OF inv(1)] req_ok_evolves [OF ev] show "req_ok ms c' j req"
    by blast
qed (fact rs)

section \<open>The steps\<close>

lemma node_log_ok_quiet:
  assumes "node_log_ok c i" "leader c' = leader c" "llog c' = llog c" "n_log (node c' i) = n_log (node c i)"
    and "currentTerm (node c i) \<le> currentTerm (node c' i)" "n_role (node c' i) \<noteq> Leader"
  shows "node_log_ok c' i"
  using assms good_log_evolves [OF evolves_frame [OF assms(2,3)]] terms_le_mono by (auto simp: node_log_ok_def)

lemma node_log_ok_leading:
  assumes "node_log_ok c i" "leader c' = leader c" "llog c' = llog c" "n_log (node c' i) = n_log (node c i)"
    and "currentTerm (node c' i) = currentTerm (node c i)" "n_role (node c' i) = n_role (node c i)"
    and "peerIDs (node c' i) = peerIDs (node c i)"
    and "n_role (node c i) = Leader \<Longrightarrow>
      \<forall>p \<in> set (peerIDs (node c i)). nextIndex (node c' i) p \<le> length (n_log (node c i))"
  shows "node_log_ok c' i"
  using assms good_log_evolves [OF evolves_frame [OF assms(2,3)]] by (auto simp: node_log_ok_def)

lemma log_inv_node:
  assumes "log_inv ms c" "election_inv ms c" "node c' = (node c)(i := n')" "leader c' = leader c" "llog c' = llog c"
    and "append_reqs c' = append_reqs c" "append_resps c' = append_resps c" "voted c' = voted c"
    and "i \<in> set ms \<Longrightarrow> node_log_ok c' i"
  shows "log_inv ms c'"
  by (rule log_inv_put [OF assms(1,2), of _ i]) (use assms log_invD(5) [OF assms(1)] in \<open>auto intro: evolves_frame\<close>)

lemma good_log_llog:
  assumes "log_inv ms c" "leader c t = Some k"
  shows "good_log c (llog c t)"
  using log_invD(2) [OF assms] by (simp add: leader_log_ok_def)

text \<open>A node that handles a request of its term does not lead that term.\<close>

lemma receiver_not_leader:
  assumes "election_inv ms c" "req_ok ms c j req" "currentTerm (node c j) \<le> ae_Term req"
  shows "n_role (accepted_term (node c j) req) \<noteq> Leader"
proof
  assume "n_role (accepted_term (node c j) req) = Leader"
  then have "n_role (node c j) = Leader" "ae_Term req = currentTerm (node c j)"
    using assms(3) by (auto simp: accepted_term_def split: if_splits)
  moreover have "j \<in> set ms" "leader c (ae_Term req) \<noteq> Some j"
    using assms(2) by (auto simp: req_ok_def)
  ultimately show False
    using assms(1) remembersD(11) by (fastforce simp: election_inv_def votes_ok_def won_def)
qed

text \<open>The log after an accepted request.\<close>

lemma merged_log:
  assumes inv: "log_inv ms c" and rq: "req_ok ms c j req" and L: "good_log c L" "length L \<le> 2 ^ 63"
    "ae_PrevLogIndex req < length L" "l_Term (L ! ae_PrevLogIndex req) = ae_PrevLogTerm req"
    "terms_le (ae_Term req) L"
  defines "L' \<equiv> append_entries (Suc (ae_PrevLogIndex req)) (ae_Entries req) L"
    and "M \<equiv> llog c (ae_Term req)" and "e \<equiv> Suc (ae_PrevLogIndex req + length (ae_Entries req))"
  shows "good_log c L'" "terms_le (ae_Term req) L'" "length L' \<le> 2 ^ 63"
    "e \<le> length L'" "e \<le> length M" "take e L' = take e M"
    "n < length L \<Longrightarrow> n < length M \<Longrightarrow> take (Suc n) L = take (Suc n) M \<Longrightarrow>
       n < length L' \<and> take (Suc n) L' = take (Suc n) M"
proof -
  let ?p = "ae_PrevLogIndex req" and ?es = "ae_Entries req"
  have M: "good_log c M" "terms_le (ae_Term req) M" "length M \<le> 2 ^ 63"
    using log_invD(2) [OF inv, of "ae_Term req"] rq by (auto simp: req_ok_def leader_log_ok_def M_def)
  have p: "?p < length M" "l_Term (L ! ?p) = l_Term (M ! ?p)" and es: "?es = take (length ?es) (drop (Suc ?p) M)"
    using rq L(4) by (simp_all add: req_ok_def M_def)
  have match: "take (Suc q) L = take (Suc q) M"
    if "q < length L" "q < length M" "l_Term (L ! q) = l_Term (M ! q)" for q
    using good_logs_match [OF L(1) M(1) that] .
  have tp: "take (Suc ?p) L = take (Suc ?p) M"
    using match [OF L(3) p] .
  have "length ?es \<le> length (drop (Suc ?p) M)"
    using arg_cong [OF es, of length] by simp
  with p(1) show e: "e \<le> length M"
    by (simp add: e_def)
  have cases: "L' = L \<and> e \<le> length L \<and> take e L = take e M \<or> L' = take e M"
    using merge_slice [OF L(3) tp es match] unfolding L'_def e_def add_Suc by blast
  show "good_log c L'"
    using cases L(1) good_log_take [OF M(1), of e] by (auto simp: e_def)
  show "terms_le (ae_Term req) L'"
    using cases L(5) terms_le_take [OF M(2)] by auto
  show "length L' \<le> 2 ^ 63"
    using cases L(2) M(3) e by auto
  show "e \<le> length L'" "take e L' = take e M"
    using cases e by auto
  show "n < length L' \<and> take (Suc n) L' = take (Suc n) M"
    if "n < length L" "n < length M" "take (Suc n) L = take (Suc n) M"
    using merge_keeps [OF L(3) tp es match that] unfolding L'_def by blast
qed

text \<open>A conflict is never at the sentinel, so the log is never emptied.\<close>

lemma conflict_position:
  assumes "log_inv ms c" "req_ok ms c j req" "good_log c L"
    and "l_Term (L ! ae_PrevLogIndex req) \<noteq> ae_PrevLogTerm req"
  shows "0 < ae_PrevLogIndex req"
proof (rule ccontr)
  assume "\<not> 0 < ae_PrevLogIndex req"
  moreover have "good_log c (llog c (ae_Term req))"
    using good_log_llog [OF assms(1)] assms(2) by (auto simp: req_ok_def)
  ultimately show False
    using assms(2,4) good_logD(3) [OF assms(3)] good_logD(3) by (auto simp: req_ok_def)
qed

lemma append_node_log:
  assumes inv: "log_inv ms c" "election_inv ms c" and rq: "req_ok ms c j req"
    and step: "HandleAppendEntries (node c j) req = Some (n', resp)"
    and c': "leader c' = leader c" "llog c' = llog c" "node c' j = n'"
  shows "node_log_ok c' j"
proof -
  let ?n = "node c j"
  have j: "j \<in> set ms"
    using rq by (simp add: req_ok_def)
  note ok = log_invD(1) [OF inv(1) j]
  note nl = receiver_not_leader [OF inv(2) rq]
  have ev: "evolves c c' j"
    using c' by (intro evolves_frame)
  from step show ?thesis
  proof (cases rule: HandleAppendEntries_cases)
    case stale
    then show ?thesis
      using c' ok by (intro node_log_ok_leading [OF ok]) (auto simp: node_log_ok_def)
  next
    case missing
    then show ?thesis
      using nl c' accepted_term_term [OF missing(1)] by (intro node_log_ok_quiet [OF ok c'(1,2)]) simp_all
  next
    case conflict
    then have "0 < ae_PrevLogIndex req"
      using conflict_position [OF inv(1) rq] ok by (auto simp: node_log_ok_def)
    from good_log_take [OF _ this] conflict ok nl c' accepted_term_term [OF conflict(1)]
      good_log_evolves [OF ev] terms_le_take terms_le_mono
    show ?thesis by (auto simp: node_log_ok_def min_def)
  next
    case (merged l)
    have "terms_le (ae_Term req) (n_log ?n)"
      using ok merged(1) terms_le_mono by (auto simp: node_log_ok_def)
    note m = merged_log [OF inv(1) rq _ _ merged(2,3) this]
    have "n_log n' = append_entries (Suc (ae_PrevLogIndex req)) (ae_Entries req) (n_log ?n)"
      "currentTerm n' = ae_Term req" "n_role n' \<noteq> Leader"
      using merged_frame [OF merged(6)] accepted_term_term [OF merged(1)] nl [OF merged(1)]
      by (simp_all add: apply_frame_def)
    with m(1-3) ok c' good_log_evolves [OF ev] show ?thesis
      by (simp add: node_log_ok_def)
  qed
qed

text \<open>The request a leader builds is a slice of its log.\<close>

lemma replicate_request_ok:
  assumes inv: "log_inv ms c" "election_inv ms c" "members_ok ms c" "i \<in> set ms"
    and step: "p \<in> set (replicateToPeers (node c i) t)" "replicate_request (node c i) p t = Some req"
  shows "req_ok ms c p req" "n_role (node c i) = Leader" "currentTerm (node c i) = t" "ae_Term req = t"
    "ae_LeaderCommit req = commitIndex (node c i)"
    "Suc (ae_PrevLogIndex req + length (ae_Entries req)) = length (n_log (node c i))"
proof -
  let ?n = "node c i"
  let ?x = "if nextIndex ?n p = 0 then 1 else nextIndex ?n p"
  show lead: "n_role ?n = Leader" "currentTerm ?n = t"
    using step(1) by (auto simp: replicateToPeers_def split: if_splits)
  have p: "p \<in> set (peerIDs ?n)"
    using step(1) by (auto simp: replicateToPeers_def split: if_splits)
  have ok: "node_log_ok c i" and ld: "leader c t = Some i"
    using log_invD(1) [OF inv(1,4)] inv(2,4) lead remembersD(11)
    by (fastforce simp: election_inv_def votes_ok_def won_def)+
  have lg: "n_log ?n = llog c t" and x: "0 < ?x" "?x \<le> length (n_log ?n)"
    using ok lead p good_logD(2) [of c "n_log ?n"] by (auto simp: node_log_ok_def Suc_le_eq)
  have req: "ae_Term req = t" "ae_LeaderId req = i" "ae_PrevLogIndex req = ?x - 1"
      "ae_PrevLogTerm req = l_Term (n_log ?n ! (?x - 1))" "ae_Entries req = drop ?x (n_log ?n)"
      "ae_LeaderCommit req = commitIndex ?n"
    using step(2) lead x member_fields(1) [OF inv(3,4)]
    by (auto simp: replicate_request_def Let_def split: if_splits)
  show "ae_Term req = t" "ae_LeaderCommit req = commitIndex ?n"
    using req by simp_all
  have "p \<in> set ms - {i}"
    using p member_fields(5) [OF inv(3,4)] by simp
  with req lg ld x show "req_ok ms c p req"
    by (simp add: req_ok_def)
  show "Suc (ae_PrevLogIndex req + length (ae_Entries req)) = length (n_log ?n)"
    using req x by simp
qed

lemma req_ok_entries:
  assumes "log_inv ms c" "req_ok ms c j req"
  shows "Suc (ae_PrevLogIndex req + length (ae_Entries req)) \<le> length (llog c (ae_Term req))"
    and "ae_Entries req \<noteq> [] \<Longrightarrow> l_Index (last (ae_Entries req)) = ae_PrevLogIndex req + length (ae_Entries req)"
proof -
  let ?M = "llog c (ae_Term req)" and ?es = "ae_Entries req" and ?p = "ae_PrevLogIndex req"
  have p: "?p < length ?M" and es: "?es = take (length ?es) (drop (Suc ?p) ?M)"
    using assms(2) by (simp_all add: req_ok_def)
  from arg_cong [OF es, of length] p show le: "Suc (?p + length ?es) \<le> length ?M"
    by simp
  assume ne: "?es \<noteq> []"
  then have "last ?es = ?es ! (length ?es - 1)"
    by (rule last_conv_nth)
  also have "\<dots> = ?M ! (Suc ?p + (length ?es - 1))"
    using ne le by (subst es) simp
  also have "Suc ?p + (length ?es - 1) = ?p + length ?es"
    using ne by (cases ?es) auto
  finally show "l_Index (last ?es) = ?p + length ?es"
    using good_logD(1) [OF good_log_llog [OF assms(1)]] assms(2) le by (auto simp: req_ok_def indexed_def)
qed

lemma log_append_reply:
  assumes inv: "log_inv ms c" "election_inv ms c" "members_ok ms c" "i \<in> set ms"
    and step: "(j, req, resp) \<in> append_resps c" "i = ae_LeaderId req"
      "replicate_response (node c i) j (ae_Term req) (ae_Entries req) resp = Some n'"
  shows "log_inv ms (put_node c i n')"
proof -
  let ?n = "node c i" and ?c = "put_node c i n'"
  note ok = log_invD(1) [OF inv(1,4)]
  have rq: "req_ok ms c j req"
    using log_invD(4,5) [OF inv(1)] step(1) by blast
  have "node_log_ok ?c i"
    using step(3)
  proof (cases rule: replicate_response_cases)
    case down
    then show ?thesis by (intro node_log_ok_quiet [OF ok]) simp_all
  next
    case same
    then show ?thesis using ok by (intro node_log_ok_leading [OF ok]) (auto simp: node_log_ok_def)
  next
    case retry
    then show ?thesis
      using ok by (intro node_log_ok_leading [OF ok]) (auto simp: node_log_ok_def le_diff_conv intro: le_SucI)
  next
    case acked
    let ?x = "ae_PrevLogIndex req + length (ae_Entries req)"
    have "?x < length (n_log ?n)" "l_Index (last (ae_Entries req)) = ?x"
      using req_ok_entries [OF inv(1) rq] acked ok by (simp_all add: node_log_ok_def)
    moreover have "length (n_log ?n) \<le> 2 ^ 63"
      using ok by (simp add: node_log_ok_def)
    ultimately have "u64 (l_Index (last (ae_Entries req)) + 1) \<le> length (n_log ?n)"
      by (simp add: u64_def)
    with ok maybeAdvance_Some [OF acked(5)] show ?thesis
      by (intro node_log_ok_leading [OF ok]) (auto simp: node_log_ok_def apply_frame_def)
  qed
  with inv show ?thesis
    by (intro log_inv_node [OF inv(1,2), of _ i n']) simp_all
qed

lemma log_count_votes:
  assumes inv: "log_inv ms c" "election_inv ms c" "members_ok ms c" "i \<in> set ms"
    and step: "startElection (node c i) t (map snd (ballot c i t)) = Some n'"
    and c': "c' = (if n_role n' = Leader \<and> n_role (node c i) \<noteq> Leader
            then (put_node c i n')\<lparr>leader := (leader c)(t := Some i), llog := (llog c)(t := n_log n')\<rparr>
            else put_node c i n')"
  shows "log_inv ms c'"
  using step
proof (cases rule: count_votes_cases)
  case same
  then have c': "c' = put_node c i (node c i)"
    by (simp add: c')
  have "node_log_ok c' i"
    using log_invD(1) [OF inv(1,4)] by (intro node_log_ok_leading [OF log_invD(1) [OF inv(1,4)]])
      (auto simp: c' node_log_ok_def)
  then show ?thesis
    by (intro log_inv_node [OF inv(1,2), of _ i "node c i"]) (simp_all add: c')
next
  case won
  then have c': "c' = (put_node c i n')\<lparr>leader := (leader c)(t := Some i), llog := (llog c)(t := n_log n')\<rparr>"
    by (simp add: c')
  let ?n = "node c i"
  have new: "leader c t = None"
    using election_won(1) [OF inv(2-4) won(1-3)] .
  then have ev: "evolves c c' i"
    by (auto simp: c' evolves_def)
  have ok: "node_log_ok c i" and pos: "0 < t"
    using log_invD(1) [OF inv(1,4)] inv(2,4) won(1,2) remembersD(7) [of i "votes c i"] counted_okD(2) [of ms c t i i]
    by (auto simp: election_inv_def votes_ok_def)
  have good: "good_log c' (n_log ?n)" "terms_le t (n_log ?n)" "length (n_log ?n) \<le> 2 ^ 63"
    using ok won good_log_evolves [OF ev] by (auto simp: node_log_ok_def)
  have "l_Index (last (n_log ?n)) + 1 = length (n_log ?n)"
    using good_logD(1,2) [OF good(1)] indexed_last by fastforce
  then have nx: "nextIndex n' p \<le> length (n_log ?n)" if "p \<in> set (peerIDs ?n)" for p
    using startElection_Some [OF step] won that good(3) by auto
  have "peerIDs n' = peerIDs ?n"
    using stays_startElection [OF step] by (simp add: stays_def)
  with good nx won have "node_log_ok c' i"
    by (simp add: node_log_ok_def c')
  moreover have "leader_log_ok c' t"
    using good pos won by (simp add: leader_log_ok_def c')
  ultimately show ?thesis
    by (intro log_inv_put [OF inv(1,2) ev]) (auto simp: c' intro: log_invD(5) [OF inv(1)])
qed

lemma log_propose:
  assumes inv: "log_inv ms c" "election_inv ms c" "members_ok ms c" "i \<in> set ms"
    and step: "length (n_log (node c i)) < 2 ^ 63" "Propose (node c i) data = Some (n', idx, t, True)"
    and c': "c' = (put_node c i n')\<lparr>llog := (llog c)(t := n_log n')\<rparr>"
  shows "log_inv ms c'"
proof -
  let ?n = "node c i"
  note p = Propose_Some [OF step(2)]
  let ?e = "\<lparr>l_Index = idx, l_Term = t, l_Data = data\<rparr>"
  have ok: "node_log_ok c i" and ld: "leader c t = Some i"
    using log_invD(1) [OF inv(1,4)] inv(2,4) p remembersD(11)
    by (fastforce simp: election_inv_def votes_ok_def won_def)+
  have L: "n_log ?n = llog c t" "good_log c (llog c t)" "terms_le t (llog c t)" "length (llog c t) < 2 ^ 63"
    using ok p step(1) by (auto simp: node_log_ok_def)
  have n': "n_log n' = llog c t @ [?e]" "currentTerm n' = t" "n_role n' = Leader" "peerIDs n' = peerIDs ?n"
      "nextIndex n' = nextIndex ?n"
    using p L(1) by auto
  have idx: "idx = length (llog c t)"
    using p L good_logD(1,2) [OF L(2)] indexed_last [of "llog c t"] by (auto simp: u64_def)
  have ev: "evolves c c' i"
    using ld n' by (auto simp: c' evolves_def)
  have "good_log c' (llog c t)"
    using good_log_evolves [OF ev L(2)] .
  then have good: "good_log c' (n_log n')"
    using idx L(3) ld n'(1) unfolding good_log_def
    by (auto simp: c' indexed_def nth_append sorted_append terms_le_def less_Suc_eq)
  have "terms_le t (n_log n')"
    using L(3) n' by (auto simp: terms_le_def)
  with good L n' have "node_log_ok c' i" "leader_log_ok c' t"
    using ok p log_invD(2) [OF inv(1) ld] by (auto simp: node_log_ok_def leader_log_ok_def c' le_SucI)
  then show ?thesis
    by (intro log_inv_put [OF inv(1,2) ev]) (auto simp: c' intro: log_invD(5) [OF inv(1)])
qed

lemma HandleRequestVote_shape:
  assumes "HandleRequestVote n req = Some (n', resp)"
  shows "n_log n' = n_log n \<and> peerIDs n' = peerIDs n \<and> nextIndex n' = nextIndex n \<and> matchIndex n' = matchIndex n \<and>
    commitIndex n' = commitIndex n \<and> applyCh n' = applyCh n \<and> blocked n' = blocked n \<and>
    (n_role n' = Follower \<and> currentTerm n \<le> currentTerm n' \<or> n_role n' = n_role n \<and> currentTerm n' = currentTerm n)"
  using assms by (cases rule: HandleRequestVote_cases) auto

lemma log_inv_channel:
  assumes "log_inv ms c" "election_inv ms c" "i \<in> set ms" "apply_frame (node c i) n'"
    and "node c' = (node c)(i := n')" "append_reqs c' = append_reqs c" "append_resps c' = append_resps c"
    and "vote_reqs c' = vote_reqs c" "vote_resps c' = vote_resps c" "voted c' = voted c" "leader c' = leader c" "llog c' = llog c"
  shows "log_inv ms c'"
proof -
  note ok = log_invD(1) [OF assms(1,3)]
  have "node_log_ok c' i"
    using ok assms(4) by (intro node_log_ok_leading [OF ok]) (auto simp: assms(5,11,12) node_log_ok_def apply_frame_def)
  with assms show ?thesis
    by (intro log_inv_node [OF assms(1,2), of _ i n']) simp_all
qed

lemma log_request_vote:
  assumes ok: "node_log_ok c j" and step: "HandleRequestVote (node c j) req = Some (n', resp)"
    and c': "node c' = (node c)(j := n')" "leader c' = leader c" "llog c' = llog c"
  shows "node_log_ok c' j"
  using HandleRequestVote_shape [OF step]
proof (elim conjE disjE)
  assume "n_log n' = n_log (node c j)" "n_role n' = Follower" "currentTerm (node c j) \<le> currentTerm n'"
  then show ?thesis by (intro node_log_ok_quiet [OF ok]) (simp_all add: c')
next
  assume "n_log n' = n_log (node c j)" "n_role n' = n_role (node c j)" "currentTerm n' = currentTerm (node c j)"
    "peerIDs n' = peerIDs (node c j)" "nextIndex n' = nextIndex (node c j)"
  with ok show ?thesis
    by (intro node_log_ok_leading [OF ok]) (auto simp: c' node_log_ok_def)
qed

lemma log_vote_reply:
  assumes ok: "node_log_ok c i" and step: "vote_response (node c i) t resp = (n', granted)"
    and c': "node c' = (node c)(i := n')" "leader c' = leader c" "llog c' = llog c"
  shows "node_log_ok c' i"
  using step
proof (cases rule: vote_response_cases)
  case down
  then show ?thesis by (intro node_log_ok_quiet [OF ok]) (auto simp: c')
next
  case same
  then show ?thesis
    using ok by (intro node_log_ok_leading [OF ok]) (auto simp: c' node_log_ok_def)
qed

lemma log_replicate:
  assumes inv: "log_inv ms c" "election_inv ms c" "members_ok ms c" "i \<in> set ms"
    and step: "p \<in> set (replicateToPeers (node c i) t)" "replicate_request (node c i) p t = Some req"
  shows "log_inv ms (c\<lparr>append_reqs := insert (p, req) (append_reqs c)\<rparr>)" (is "log_inv ms ?c")
proof -
  note ok = log_invD(1) [OF inv(1,4)]
  have ev: "evolves c ?c i"
    by (rule evolves_frame) simp_all
  have "node_log_ok ?c i"
    using ok by (intro node_log_ok_leading [OF ok]) (auto simp: node_log_ok_def)
  moreover have "req_ok ms ?c p req"
    using req_ok_evolves [OF ev replicate_request_ok(1) [OF inv step]] .
  ultimately show ?thesis
    using log_invD(5) [OF inv(1)] by (intro log_inv_put [OF inv(1,2) ev]) auto
qed

lemma log_inv_step:
  assumes "cluster_step ms c c'" "log_inv ms c" "election_inv ms c" "members_ok ms c"
  shows "log_inv ms c'"
  using assms(1)
proof cases
  case (timeout i n' req)
  note n' = onElectionTimeout_Some [OF timeout(4,3)] and ok = log_invD(1) [OF assms(2) timeout(2)]
  have "node_log_ok c' i"
    using n' by (intro node_log_ok_quiet [OF ok]) (auto simp: timeout(1))
  then show ?thesis
    using ok n' log_invD(5) [OF assms(2)]
    by (intro log_inv_put [OF assms(2,3), of _ i]) (auto simp: timeout(1) node_log_ok_def intro: evolves_frame)
next
  case (request_vote req j n' resp)
  note ok = log_invD(1) [OF assms(2) request_vote(3)]
  from log_request_vote [OF ok request_vote(5), of c'] show ?thesis
    using ok log_invD(5) [OF assms(2)] by (intro log_inv_put [OF assms(2,3), of _ j])
      (auto simp: request_vote(1) node_log_ok_def intro: evolves_frame split: if_splits)
next
  case (vote_reply j req resp i t n' granted)
  with log_vote_reply [OF log_invD(1) [OF assms(2) vote_reply(4)] vote_reply(7), of c'] show ?thesis
    by (intro log_inv_node [OF assms(2,3), of _ i n']) simp_all
next
  case (count_votes i t n')
  then show ?thesis using log_count_votes [OF assms(2,3,4)] by blast
next
  case (propose i data n' idx t)
  then show ?thesis using log_propose [OF assms(2,3,4)] by blast
next
  case (replicate i p t req)
  then show ?thesis using log_replicate [OF assms(2,3,4)] by blast
next
  case (append j req n' resp)
  with append_node_log [OF assms(2,3) log_invD(4) [OF assms(2) append(2)] append(4), of c'] show ?thesis
    using log_invD(5) [OF assms(2)]
    by (intro log_inv_put [OF assms(2,3), of _ j]) (auto intro: evolves_frame)
next
  case (append_reply j req resp i n')
  then show ?thesis using log_append_reply [OF assms(2-4)] by blast
next
  case (restart i n')
  note ok = log_invD(1) [OF assms(2) restart(2)]
  note n' = restart_Some [OF member_fields(6) [OF assms(4) restart(2)] restart(3,4)]
  have "node_log_ok c' i"
    by (intro node_log_ok_quiet [OF ok]) (simp_all add: restart(1) n' fresh_node_def)
  then show ?thesis
    by (intro log_inv_node [OF assms(2,3), of _ i n']) (simp_all add: restart(1))
next
  case (unblock i k n')
  from log_inv_channel [OF assms(2,3) unblock(2) unblock_frame(1) [OF unblock(3)], of c'] show ?thesis
    by (simp add: unblock(1))
next
  case (receive i n' m)
  from log_inv_channel [OF assms(2,3) receive(2) receive_frame(1) [OF receive(3)], of c'] show ?thesis
    by (simp add: receive(1))
qed

lemma reachable_log_inv: "reachable ms c \<Longrightarrow> log_inv ms c"
proof (induction rule: reachable.induct)
  case (start c)
  then have "node_log_ok c i" if "i \<in> set ms" for i
    using that by (auto simp: initial_def fresh_node_def node_log_ok_def good_log_def indexed_def sentinel_def terms_le_def)
  with start show ?case
    by (intro log_invI) (auto simp: initial_def)
next
  case (step c c')
  then show ?case
    using log_inv_step reachable_election_inv reachable_members_ok by blast
qed

section \<open>Properties\<close>

text \<open>Property C7. Log matching: if the logs of two nodes hold an entry of the same term at the same position,
  they are equal up to and including that position. Every log starts with the sentinel, its
  entries carry their positions, and their terms never decrease along the log nor exceed the
  node's term.\<close>

theorem log_matching:
  assumes "reachable ms c" and "i \<in> set ms" and "j \<in> set ms"
    and "p < length (n_log (node c i))" and "p < length (n_log (node c j))"
    and "l_Term (n_log (node c i) ! p) = l_Term (n_log (node c j) ! p)"
  shows "take (Suc p) (n_log (node c i)) = take (Suc p) (n_log (node c j)) \<and>
    n_log (node c i) ! 0 = sentinel \<and> (\<forall>q < length (n_log (node c i)). l_Index (n_log (node c i) ! q) = q) \<and>
    sorted (map l_Term (n_log (node c i))) \<and> (\<forall>e \<in> set (n_log (node c i)). l_Term e \<le> currentTerm (node c i))"
proof -
  have ok: "node_log_ok c i" "node_log_ok c j"
    using log_invD(1) [OF reachable_log_inv [OF assms(1)]] assms(2,3) by blast+
  then have good: "good_log c (n_log (node c i))" "good_log c (n_log (node c j))"
    by (simp_all add: node_log_ok_def)
  have "\<forall>e \<in> set (n_log (node c i)). l_Term e \<le> currentTerm (node c i)"
    using ok(1) by (simp add: node_log_ok_def terms_le_def)
  with good_logs_match [OF good assms(4-6)] good_logD(1,3,4) [OF good(1)] show ?thesis
    by (auto simp: indexed_def)
qed

theorem log_matching_witness:
  "\<exists>c. reachable [''a'', ''b''] c \<and> length (n_log (node c ''a'')) = 2 \<and>
     take 2 (n_log (node c ''a'')) = take 2 (n_log (node c ''b''))"
proof -
  obtain c where c: "reachable [''a'', ''b''] c" "node c ''a'' = A4" "node c ''b'' = B3"
    using demo_run by blast
  with log_matching [OF c(1), of "''a''" "''b''" 1] show ?thesis
    by (auto simp: demo_end numeral_2_eq_2 intro!: exI [of _ c])
qed

end
