(* ===== verification/LeaderCompleteness.thy ===== *)
theory LeaderCompleteness
  imports LogMatching
begin

text \<open>
  Leader completeness: the log of every elected leader has what could be committed before. A node has accepted position \<open>n\<close> in term
  \<open>T\<close> if it acknowledged a request of that term that reaches \<open>n\<close>, or leads \<open>T\<close> and has the
  position. A position with an entry of term \<open>T\<close> is chosen if a quorum accepted it, and open
  as long as it is chosen or can still become so, that is, if every node of a quorum has
  accepted it or has not left term \<open>T\<close>. Once a leader of a later term is elected, a position
  is open only if that leader has it; the invariants state this for leaders, for the logs of
  nodes and for the logs with which votes were cast.
\<close>

section \<open>Accepted, open and chosen positions\<close>

definition acc :: "Cluster \<Rightarrow> string \<Rightarrow> nat \<Rightarrow> nat \<Rightarrow> bool" where
  "acc c j T n \<longleftrightarrow>
     (\<exists>req resp. (j, req, resp) \<in> append_resps c \<and> ar_Success resp \<and> ae_Term req = T \<and>
        n \<le> ae_PrevLogIndex req + length (ae_Entries req)) \<or>
     leader c T = Some j \<and> n < length (llog c T)"

definition entry_at :: "Cluster \<Rightarrow> nat \<Rightarrow> nat \<Rightarrow> bool" where
  "entry_at c T n \<longleftrightarrow> leader c T \<noteq> None \<and> n < length (llog c T) \<and> l_Term (llog c T ! n) = T"

definition open_at :: "string list \<Rightarrow> Cluster \<Rightarrow> nat \<Rightarrow> nat \<Rightarrow> bool" where
  "open_at ms c T n \<longleftrightarrow> entry_at c T n \<and>
     (\<exists>Q. quorum ms Q \<and> (\<forall>j \<in> Q. acc c j T n \<or> currentTerm (node c j) \<le> T))"

definition chosen_at :: "string list \<Rightarrow> Cluster \<Rightarrow> nat \<Rightarrow> nat \<Rightarrow> bool" where
  "chosen_at ms c T n \<longleftrightarrow> entry_at c T n \<and> (\<exists>Q. quorum ms Q \<and> (\<forall>j \<in> Q. acc c j T n))"

definition agrees :: "Cluster \<Rightarrow> LogEntry list \<Rightarrow> nat \<Rightarrow> nat \<Rightarrow> bool" where
  "agrees c L T n \<longleftrightarrow> n < length L \<and> n < length (llog c T) \<and> take (Suc n) L = take (Suc n) (llog c T)"

lemma chosen_open: "chosen_at ms c T n \<Longrightarrow> open_at ms c T n"
  by (auto simp: chosen_at_def open_at_def)

lemma agrees_self: "n < length (llog c T) \<Longrightarrow> agrees c (llog c T) T n"
  by (simp add: agrees_def)

lemma agrees_less: "agrees c L T n \<Longrightarrow> m \<le> n \<Longrightarrow> agrees c L T m"
  using take_eq_less [of "Suc n" L "llog c T" "Suc m"] by (auto simp: agrees_def)

lemma agrees_nth: "agrees c L T n \<Longrightarrow> m \<le> n \<Longrightarrow> L ! m = llog c T ! m"
  using agrees_less [of c L T n m] unfolding agrees_def by (metis take_eq_nth)

section \<open>What a step does to terms, winners and acceptances\<close>

lemma step_evolves:
  assumes "cluster_step ms c c'" "election_inv ms c" "members_ok ms c" "log_inv ms c"
  obtains i where "evolves c c' i"
  using assms(1)
proof cases
  case (count_votes i t n')
  from count_votes(3) show ?thesis
  proof (cases rule: count_votes_cases)
    case won
    with election_won(1) [OF assms(2,3) count_votes(2) won(1-3)] count_votes(1) show ?thesis
      by (intro that [of i]) (auto simp: evolves_def)
  qed (use count_votes that evolves_frame in \<open>auto\<close>)
next
  case (propose i data n' idx t)
  note p = Propose_Some [OF propose(4)]
  have "n_log (node c i) = llog c t" "leader c t = Some i"
    using log_invD(1) [OF assms(4) propose(2)] p assms(2) propose(2) remembersD(11)
    by (fastforce simp: node_log_ok_def election_inv_def votes_ok_def won_def)+
  with p propose(1) show ?thesis
    by (intro that [of i]) (auto simp: evolves_def)
qed (use that evolves_frame in auto)

lemma step_terms:
  assumes "cluster_step ms c c'" "members_ok ms c"
  shows "currentTerm (node c j) \<le> currentTerm (node c' j)"
  using assms(1)
proof cases
  case (timeout i n' req)
  with onElectionTimeout_Some [OF timeout(4,3)] show ?thesis by auto
next
  case (request_vote req k n' resp)
  with HandleRequestVote_shape [OF request_vote(5)] show ?thesis by auto
next
  case (vote_reply k req resp i t n' granted)
  from vote_reply(7) show ?thesis
    by (cases rule: vote_response_cases) (auto simp: vote_reply(1))
next
  case (count_votes i t n')
  with startElection_Some [OF count_votes(3)] show ?thesis by auto
next
  case (propose i data n' idx t)
  with Propose_Some [OF propose(4)] show ?thesis by auto
next
  case (append k req n' resp)
  with calm_HandleAppendEntries [OF append(4)] show ?thesis by (auto simp: calm_def)
next
  case (append_reply k req resp i n')
  with calm_replicate_response [OF append_reply(5)] show ?thesis by (auto simp: calm_def)
next
  case (restart i n')
  with calm_restart [OF member_fields(6) [OF assms(2) restart(2)] restart(3,4)] show ?thesis
    by (auto simp: calm_def)
next
  case (unblock i k n')
  with unblock_frame(1) [OF unblock(3)] show ?thesis by (auto simp: apply_frame_def)
next
  case (receive i n' m)
  with receive_frame(1) [OF receive(3)] show ?thesis by (auto simp: apply_frame_def)
qed auto

lemma step_append_resps:
  assumes "cluster_step ms c c'"
  shows "append_resps c \<subseteq> append_resps c'"
  using assms by cases auto

lemma evolves_entry:
  assumes "evolves c c' i" "entry_at c T n"
  shows "entry_at c' T n"
  using assms evolves_llog [OF assms(1)] by (auto simp: entry_at_def evolves_def)

lemma evolves_agrees:
  assumes "evolves c c' i" "leader c T \<noteq> None" "agrees c L T n"
  shows "agrees c' L T n"
  using assms evolves_llog [OF assms(1,2)] by (auto simp: agrees_def)

lemma evolves_acc:
  assumes "evolves c c' i" "append_resps c \<subseteq> append_resps c'" "acc c j T n"
  shows "acc c' j T n"
  using assms(3) unfolding acc_def
proof
  assume "leader c T = Some j \<and> n < length (llog c T)"
  with assms(1) evolves_llog(1) [OF assms(1), of T n] show "(\<exists>req resp. (j, req, resp) \<in> append_resps c' \<and> ar_Success resp \<and>
      ae_Term req = T \<and> n \<le> ae_PrevLogIndex req + length (ae_Entries req)) \<or>
      leader c' T = Some j \<and> n < length (llog c' T)"
    by (auto simp: evolves_def)
qed (use assms(2) in blast)

lemma evolves_chosen:
  assumes "evolves c c' i" "append_resps c \<subseteq> append_resps c'" "chosen_at ms c T n"
  shows "chosen_at ms c' T n"
  using assms evolves_entry evolves_acc unfolding chosen_at_def by blast

text \<open>A node accepts positions only in its own term.\<close>

lemma step_acc:
  assumes "cluster_step ms c c'" "election_inv ms c" "members_ok ms c" "log_inv ms c" "acc c' j T n"
  shows "acc c j T n \<or> currentTerm (node c j) \<le> T \<and> currentTerm (node c' j) = T"
  using assms(1)
proof cases
  case (count_votes i t n')
  from count_votes(3) show ?thesis
  proof (cases rule: count_votes_cases)
    case won
    with count_votes(1) assms(5) show ?thesis
      by (cases "T = t") (auto simp: acc_def)
  qed (use count_votes assms(5) in \<open>auto simp: acc_def\<close>)
next
  case (propose i data n' idx t)
  note p = Propose_Some [OF propose(4)]
  have "leader c t = Some i"
    using p assms(2) propose(2) remembersD(11) by (fastforce simp: election_inv_def votes_ok_def won_def)
  with p propose(1) assms(5) show ?thesis
    by (cases "T = t") (auto simp: acc_def)
next
  case (append k req n' resp)
  show ?thesis
  proof (cases "acc c j T n")
    case False
    then have new: "j = k" "ae_Term req = T" "ar_Success resp"
      using assms(5) by (auto simp: acc_def append(1))
    from append(4) show ?thesis
    proof (cases rule: HandleAppendEntries_cases)
      case (merged l)
      then have "currentTerm n' = ae_Term req"
        using merged_frame [OF merged(6)] accepted_term_term [OF merged(1)] by (simp add: apply_frame_def)
      with merged(1) new show ?thesis by (simp add: append(1))
    qed (use new in auto)
  qed simp
qed (use assms(5) in \<open>simp_all add: acc_def\<close>)

section \<open>Candidates\<close>

definition up_to_date :: "LogEntry list \<Rightarrow> LogEntry list \<Rightarrow> bool" where
  "up_to_date M L \<longleftrightarrow> l_Term (last L) < l_Term (last M) \<or>
     l_Term (last L) = l_Term (last M) \<and> l_Index (last L) \<le> l_Index (last M)"

definition standing :: "Node \<Rightarrow> nat \<Rightarrow> bool" where
  "standing n t \<longleftrightarrow> n_role n = Candidate \<and> currentTerm n = t"

definition cand_inv :: "Cluster \<Rightarrow> bool" where
  "cand_inv c \<longleftrightarrow>
     (\<forall>req \<in> vote_reqs c. rv_Term req \<le> currentTerm (node c (rv_CandidateId req)) \<and>
        (standing (node c (rv_CandidateId req)) (rv_Term req) \<longrightarrow>
           rv_LastLogIndex req = l_Index (last (n_log (node c (rv_CandidateId req)))) \<and>
           rv_LastLogTerm req = l_Term (last (n_log (node c (rv_CandidateId req)))))) \<and>
     (\<forall>j t k L. (j, t, k, L) \<in> voted c \<longrightarrow> t \<le> currentTerm (node c k) \<and>
        (standing (node c k) t \<longrightarrow> up_to_date (n_log (node c k)) L)) \<and>
     (\<forall>j req resp. (j, req, resp) \<in> append_resps c \<and> ar_Success resp \<longrightarrow>
        ae_Term req \<le> currentTerm (node c j))"

lemma cand_invD:
  assumes "cand_inv c"
  shows "req \<in> vote_reqs c \<Longrightarrow> rv_Term req \<le> currentTerm (node c (rv_CandidateId req))"
    "req \<in> vote_reqs c \<Longrightarrow> standing (node c (rv_CandidateId req)) (rv_Term req) \<Longrightarrow>
       rv_LastLogIndex req = l_Index (last (n_log (node c (rv_CandidateId req)))) \<and>
       rv_LastLogTerm req = l_Term (last (n_log (node c (rv_CandidateId req))))"
    "(j, t, k, L) \<in> voted c \<Longrightarrow> t \<le> currentTerm (node c k)"
    "(j, t, k, L) \<in> voted c \<Longrightarrow> standing (node c k) t \<Longrightarrow> up_to_date (n_log (node c k)) L"
    "(j, rq, resp) \<in> append_resps c \<Longrightarrow> ar_Success resp \<Longrightarrow> ae_Term rq \<le> currentTerm (node c j)"
  using assms unfolding cand_inv_def by blast+

lemma cand_invI:
  assumes "\<And>req. req \<in> vote_reqs c \<Longrightarrow> rv_Term req \<le> currentTerm (node c (rv_CandidateId req))"
    "\<And>req. req \<in> vote_reqs c \<Longrightarrow> standing (node c (rv_CandidateId req)) (rv_Term req) \<Longrightarrow>
       rv_LastLogIndex req = l_Index (last (n_log (node c (rv_CandidateId req)))) \<and>
       rv_LastLogTerm req = l_Term (last (n_log (node c (rv_CandidateId req))))"
    "\<And>j t k L. (j, t, k, L) \<in> voted c \<Longrightarrow> t \<le> currentTerm (node c k)"
    "\<And>j t k L. (j, t, k, L) \<in> voted c \<Longrightarrow> standing (node c k) t \<Longrightarrow> up_to_date (n_log (node c k)) L"
    "\<And>j rq resp. (j, rq, resp) \<in> append_resps c \<Longrightarrow> ar_Success resp \<Longrightarrow> ae_Term rq \<le> currentTerm (node c j)"
  shows "cand_inv c"
  using assms unfolding cand_inv_def by blast

text \<open>Only a timeout makes a candidate, and a candidate does not change its log.\<close>

definition no_candidacy :: "Node \<Rightarrow> Node \<Rightarrow> bool" where
  "no_candidacy n n' \<longleftrightarrow> currentTerm n \<le> currentTerm n' \<and>
     (n_role n' = Candidate \<longrightarrow> n_role n = Candidate \<and> currentTerm n' = currentTerm n \<and> n_log n' = n_log n)"

lemma no_candidacy_refl [simp]: "no_candidacy n n"
  by (simp add: no_candidacy_def)

lemma cand_inv_put:
  assumes inv: "cand_inv c" and nodes: "\<And>j. no_candidacy (node c j) (node c' j)"
    and reqs: "vote_reqs c' = vote_reqs c"
    and v: "\<And>j t k L. (j, t, k, L) \<in> voted c' \<Longrightarrow> (j, t, k, L) \<in> voted c \<or>
        t \<le> currentTerm (node c k) \<and> (standing (node c k) t \<longrightarrow> up_to_date (n_log (node c k)) L)"
    and rs: "\<And>j rq resp. (j, rq, resp) \<in> append_resps c' \<Longrightarrow> ar_Success resp \<Longrightarrow>
        (j, rq, resp) \<in> append_resps c \<or> ae_Term rq \<le> currentTerm (node c' j)"
  shows "cand_inv c'"
proof (rule cand_invI)
  have s: "standing (node c' k) t \<Longrightarrow> standing (node c k) t \<and> n_log (node c' k) = n_log (node c k)" for k t
    using nodes [of k] by (auto simp: standing_def no_candidacy_def)
  have le: "currentTerm (node c k) \<le> currentTerm (node c' k)" for k
    using nodes [of k] by (simp add: no_candidacy_def)
  fix req assume "req \<in> vote_reqs c'"
  then have "req \<in> vote_reqs c"
    by (simp add: reqs)
  note cand = cand_invD(1,2) [OF inv this]
  from cand(1) le show "rv_Term req \<le> currentTerm (node c' (rv_CandidateId req))"
    by (rule order_trans)
  assume "standing (node c' (rv_CandidateId req)) (rv_Term req)"
  from s [OF this] cand(2) show "rv_LastLogIndex req = l_Index (last (n_log (node c' (rv_CandidateId req)))) \<and>
       rv_LastLogTerm req = l_Term (last (n_log (node c' (rv_CandidateId req))))"
    by simp
next
  fix j t k L assume "(j, t, k, L) \<in> voted c'"
  from v [OF this] have old: "t \<le> currentTerm (node c k) \<and> (standing (node c k) t \<longrightarrow> up_to_date (n_log (node c k)) L)"
  proof
    assume "(j, t, k, L) \<in> voted c"
    from cand_invD(3,4) [OF inv this] show ?thesis by simp
  qed
  with nodes [of k] show "t \<le> currentTerm (node c' k)"
    by (auto simp: no_candidacy_def)
  assume "standing (node c' k) t"
  with old nodes [of k] show "up_to_date (n_log (node c' k)) L"
    by (auto simp: standing_def no_candidacy_def)
next
  fix j rq resp assume r: "(j, rq, resp) \<in> append_resps c'" "ar_Success resp"
  from rs [OF r] show "ae_Term rq \<le> currentTerm (node c' j)"
  proof
    assume "(j, rq, resp) \<in> append_resps c"
    from cand_invD(5) [OF inv this r(2)] nodes [of j] show ?thesis
      by (simp add: no_candidacy_def)
  qed
qed

lemma no_candidacy_calm:
  "calm n n' \<Longrightarrow> (n_role n' = Candidate \<Longrightarrow> n_log n' = n_log n) \<Longrightarrow> no_candidacy n n'"
  by (auto simp: calm_def no_candidacy_def)

lemma no_candidacy_append:
  assumes "HandleAppendEntries n req = Some (n', resp)"
  shows "no_candidacy n n'"
proof (rule no_candidacy_calm [OF calm_HandleAppendEntries [OF assms]])
  assume "n_role n' = Candidate"
  with assms show "n_log n' = n_log n"
  proof (cases rule: HandleAppendEntries_cases)
    case (merged l)
    with \<open>n_role n' = Candidate\<close> merged_frame [OF merged(6)] show ?thesis
      by (auto simp: apply_frame_def accepted_term_def split: if_splits)
  qed (auto simp: accepted_term_def split: if_splits)
qed

lemma no_candidacy_request_vote: "HandleRequestVote n req = Some (n', resp) \<Longrightarrow> no_candidacy n n'"
  using HandleRequestVote_shape by (fastforce simp: no_candidacy_def)

lemma no_candidacy_vote_response: "vote_response n t resp = (n', granted) \<Longrightarrow> no_candidacy n n'"
  by (erule vote_response_cases) (auto simp: no_candidacy_def)

lemma no_candidacy_count_votes: "startElection n t bs = Some n' \<Longrightarrow> no_candidacy n n'"
  by (erule count_votes_cases) (auto simp: no_candidacy_def)

lemma no_candidacy_propose: "Propose n data = Some (n', idx, t, True) \<Longrightarrow> no_candidacy n n'"
  using Propose_Some by (fastforce simp: no_candidacy_def)

lemma replicate_response_log: "replicate_response n j t es resp = Some n' \<Longrightarrow> n_log n' = n_log n"
  by (erule replicate_response_cases) (auto simp: apply_frame_def dest!: maybeAdvance_Some)

lemma vote_response_log: "vote_response n t resp = (n', granted) \<Longrightarrow> n_log n' = n_log n"
  by (erule vote_response_cases) auto

lemma no_candidacy_replicate_response: "replicate_response n j t es resp = Some n' \<Longrightarrow> no_candidacy n n'"
  by (rule no_candidacy_calm [OF calm_replicate_response replicate_response_log])

lemma no_candidacy_frame: "apply_frame n n' \<Longrightarrow> no_candidacy n n'"
  by (rule no_candidacy_calm [OF calm_frame]) (auto simp: apply_frame_def)

text \<open>A node that stands for election announces its own log, in a term nobody has seen it in.\<close>

lemma cand_timeout:
  assumes inv: "cand_inv c" and i: "n_id (node c i) = i"
    and step: "onElectionTimeout (node c i) = Some (n', Some req)" "currentTerm (node c i) + 1 < 2 ^ 64"
    and c': "node c' = (node c)(i := n')" "vote_reqs c' = insert req (vote_reqs c)"
      "voted c' = insert (i, currentTerm n', i, n_log n') (voted c)" "append_resps c' = append_resps c"
  shows "cand_inv c'"
proof (rule cand_invI)
  note n' = onElectionTimeout_Some [OF step]
  show "rv_Term rq \<le> currentTerm (node c' (rv_CandidateId rq))" if "rq \<in> vote_reqs c'" for rq
    using that n' i cand_invD(1) [OF inv, of rq] by (auto simp: c')
  show "rv_LastLogIndex rq = l_Index (last (n_log (node c' (rv_CandidateId rq)))) \<and>
     rv_LastLogTerm rq = l_Term (last (n_log (node c' (rv_CandidateId rq))))"
    if "rq \<in> vote_reqs c'" "standing (node c' (rv_CandidateId rq)) (rv_Term rq)" for rq
  proof (cases "rq = req")
    case True
    with n' i show ?thesis by (simp add: c')
  next
    case False
    with that n' i cand_invD(1,2) [OF inv, of rq] show ?thesis
      by (auto simp: c' standing_def split: if_splits)
  qed
  show "t \<le> currentTerm (node c' k)" if "(j, t, k, L) \<in> voted c'" for j t k L
    using that n' i cand_invD(3) [OF inv, of j t k L] by (auto simp: c')
  show "up_to_date (n_log (node c' k)) L" if "(j, t, k, L) \<in> voted c'" "standing (node c' k) t" for j t k L
    using that n' i cand_invD(3,4) [OF inv, of j t k L]
    by (auto simp: c' standing_def up_to_date_def split: if_splits)
  show "ae_Term rq \<le> currentTerm (node c' j)" if "(j, rq, resp) \<in> append_resps c'" "ar_Success resp" for j rq resp
    using that n' cand_invD(5) [OF inv, of j rq resp] by (auto simp: c')
qed

lemma granted_up_to_date:
  assumes inv: "cand_inv c" "req \<in> vote_reqs c"
    and step: "HandleRequestVote (node c j) req = Some (n', resp)" "vr_VoteGranted resp"
  shows "rv_Term req \<le> currentTerm (node c (rv_CandidateId req)) \<and>
    (standing (node c (rv_CandidateId req)) (rv_Term req) \<longrightarrow>
     up_to_date (n_log (node c (rv_CandidateId req))) (n_log (node c j)))"
  using step(1)
proof (cases rule: HandleRequestVote_cases)
  case granted
  with cand_invD(1,2) [OF inv] show ?thesis
    by (auto simp: up_to_date_def log_up_to_date_def split: if_splits)
qed (use step(2) in auto)

lemma success_term:
  assumes "HandleAppendEntries n req = Some (n', resp)" "ar_Success resp"
  shows "ae_Term req \<le> currentTerm n'"
  using assms(1)
proof (cases rule: HandleAppendEntries_cases)
  case (merged l)
  then show ?thesis
    using merged_frame [OF merged(6)] accepted_term_term [OF merged(1)] by (simp add: apply_frame_def)
qed (use assms(2) in auto)

lemma cand_inv_step:
  assumes "cluster_step ms c c'" "cand_inv c" "election_inv ms c" "members_ok ms c"
  shows "cand_inv c'"
  using assms(1)
proof cases
  case (timeout i n' req)
  then show ?thesis
    by (intro cand_timeout [OF assms(2) member_fields(1) [OF assms(4) timeout(2)] timeout(4,3)]) simp_all
next
  case (request_vote req j n' resp)
  with no_candidacy_request_vote [OF request_vote(5)] granted_up_to_date [OF assms(2) request_vote(2,5)] show ?thesis
    by (intro cand_inv_put [OF assms(2)]) (auto split: if_splits)
next
  case (vote_reply j req resp i t n' granted)
  with no_candidacy_vote_response [OF vote_reply(7)] show ?thesis
    by (intro cand_inv_put [OF assms(2)]) auto
next
  case (count_votes i t n')
  with no_candidacy_count_votes [OF count_votes(3)] show ?thesis
    by (intro cand_inv_put [OF assms(2)]) (auto split: if_splits)
next
  case (propose i data n' idx t)
  with no_candidacy_propose [OF propose(4)] show ?thesis
    by (intro cand_inv_put [OF assms(2)]) auto
next
  case (replicate i p t req)
  then show ?thesis
    by (intro cand_inv_put [OF assms(2)]) auto
next
  case (append j req n' resp)
  with no_candidacy_append [OF append(4)] success_term [OF append(4)] show ?thesis
    by (intro cand_inv_put [OF assms(2)]) auto
next
  case (append_reply j req resp i n')
  with no_candidacy_replicate_response [OF append_reply(5)] show ?thesis
    by (intro cand_inv_put [OF assms(2)]) auto
next
  case (restart i n')
  have "no_candidacy (node c i) n'"
    by (simp add: restart_Some [OF member_fields(6) [OF assms(4) restart(2)] restart(3,4)] no_candidacy_def fresh_node_def)
  then show ?thesis
    by (intro cand_inv_put [OF assms(2)]) (auto simp: restart(1))
next
  case (unblock i k n')
  with no_candidacy_frame [OF unblock_frame(1) [OF unblock(3)]] show ?thesis
    by (intro cand_inv_put [OF assms(2)]) auto
next
  case (receive i n' m)
  with no_candidacy_frame [OF receive_frame(1) [OF receive(3)]] show ?thesis
    by (intro cand_inv_put [OF assms(2)]) auto
qed

section \<open>Leader completeness\<close>

definition complete_inv :: "string list \<Rightarrow> Cluster \<Rightarrow> bool" where
  "complete_inv ms c \<longleftrightarrow>
     (\<forall>T U n k. open_at ms c T n \<and> T < U \<and> leader c U = Some k \<longrightarrow> agrees c (llog c U) T n) \<and>
     (\<forall>j T n. open_at ms c T n \<and> acc c j T n \<longrightarrow> agrees c (n_log (node c j)) T n) \<and>
     (\<forall>j T U k L n. open_at ms c T n \<and> acc c j T n \<and> T < U \<and> (j, U, k, L) \<in> voted c \<longrightarrow> agrees c L T n)"

lemma complete_invD:
  assumes "complete_inv ms c" "open_at ms c T n"
  shows "T < U \<Longrightarrow> leader c U = Some k \<Longrightarrow> agrees c (llog c U) T n"
    "acc c j T n \<Longrightarrow> agrees c (n_log (node c j)) T n"
    "acc c j T n \<Longrightarrow> T < U \<Longrightarrow> (j, U, k, L) \<in> voted c \<Longrightarrow> agrees c L T n"
  using assms unfolding complete_inv_def by blast+

definition base_inv :: "string list \<Rightarrow> Cluster \<Rightarrow> bool" where
  "base_inv ms c \<longleftrightarrow> members_ok ms c \<and> election_inv ms c \<and> log_inv ms c \<and> cand_inv c"

lemma base_invD:
  assumes "base_inv ms c"
  shows "members_ok ms c" "election_inv ms c" "log_inv ms c" "cand_inv c" "counted_ok ms c"
    "i \<in> set ms \<Longrightarrow> votes_ok c i"
  using assms by (auto simp: base_inv_def election_inv_def)

lemma base_inv_step:
  assumes "cluster_step ms c c'" "base_inv ms c"
  shows "base_inv ms c'"
  using members_ok_step [OF assms(1)] election_inv_step [OF assms(1)] log_inv_step [OF assms(1)]
    cand_inv_step [OF assms(1)] assms(2) by (auto simp: base_inv_def)

lemma acc_bound:
  assumes "base_inv ms c" "acc c j T n"
  shows "leader c T \<noteq> None" "n < length (llog c T)" "j \<in> set ms" "T \<le> currentTerm (node c j)"
proof -
  have "leader c T \<noteq> None \<and> n < length (llog c T) \<and> j \<in> set ms \<and> T \<le> currentTerm (node c j)"
    using assms(2) unfolding acc_def
  proof (elim disjE exE conjE)
    fix req resp
    assume a: "(j, req, resp) \<in> append_resps c" "ar_Success resp" "ae_Term req = T"
      "n \<le> ae_PrevLogIndex req + length (ae_Entries req)"
    have rq: "req_ok ms c j req"
      using log_invD(4,5) [OF base_invD(3) [OF assms(1)]] a(1) by blast
    from req_ok_entries(1) [OF base_invD(3) [OF assms(1)] rq] rq a cand_invD(5) [OF base_invD(4) [OF assms(1)] a(1,2)]
    show ?thesis by (auto simp: req_ok_def)
  next
    assume l: "leader c T = Some j" "n < length (llog c T)"
    then have j: "j \<in> set ms"
      using counted_okD(7) [OF base_invD(5) [OF assms(1)]] by blast
    have "T \<in> won c j"
      using l by (simp add: won_def)
    with remembersD(2) [OF base_invD(6) [OF assms(1) j, unfolded votes_ok_def]] l j show ?thesis
      by simp
  qed
  then show "leader c T \<noteq> None" "n < length (llog c T)" "j \<in> set ms" "T \<le> currentTerm (node c j)"
    by simp_all
qed

lemma vote_term:
  assumes "base_inv ms c" "(j, U, k, L) \<in> voted c"
  shows "U \<le> currentTerm (node c j)" "j \<in> set ms" "good_log c L"
proof -
  have v: "(U, k) \<in> votes c j"
    using assms(2) by (auto simp: votes_def)
  with counted_okD(2) [OF base_invD(5) [OF assms(1)]] show j: "j \<in> set ms"
    by blast
  from remembersD(1) [OF base_invD(6) [OF assms(1) j, unfolded votes_ok_def] v] show "U \<le> currentTerm (node c j)" .
  from log_invD(3) [OF base_invD(3) [OF assms(1)] assms(2)] show "good_log c L" .
qed

text \<open>A position that can still be chosen later could already before a step.\<close>

lemma open_back:
  assumes step: "cluster_step ms c c'" and inv: "base_inv ms c"
    and o: "open_at ms c' T n" and e: "entry_at c T n"
  shows "open_at ms c T n"
proof -
  from o obtain Q where Q: "quorum ms Q" "\<And>j. j \<in> Q \<Longrightarrow> acc c' j T n \<or> currentTerm (node c' j) \<le> T"
    by (auto simp: open_at_def)
  have "acc c j T n \<or> currentTerm (node c j) \<le> T" if "j \<in> Q" for j
    using Q(2) [OF that] step_acc [OF step base_invD(2,1,3) [OF inv]] order_trans [OF step_terms [OF step base_invD(1) [OF inv]]]
    by blast
  with Q(1) e show ?thesis by (auto simp: open_at_def)
qed

text \<open>
  A log that is at least as up to date as one that has position \<open>n\<close> of term \<open>T\<close> has it too,
  if the leaders of the terms in between have it.
\<close>

lemma last_good:
  assumes "good_log c M" "0 < l_Term (last M)"
  obtains p where "M = take (Suc p) (llog c (l_Term (last M)))" "p = length M - 1" "p < length M"
    "last M = M ! p" "leader c (l_Term (last M)) \<noteq> None"
proof -
  let ?p = "length M - 1"
  have l: "last M = M ! ?p" "?p < length M"
    using good_logD(2) [OF assms(1)] by (simp_all add: last_conv_nth)
  have "0 < ?p"
    using assms(2) l good_logD(3) [OF assms(1)] by (cases ?p) (auto simp: sentinel_def)
  from good_logD(5,7) [OF assms(1) this l(2)] l show ?thesis
    by (intro that [of ?p]) simp_all
qed

lemma up_to_date_agrees:
  assumes L: "good_log c L" "agrees c L T n" and M: "good_log c M" "up_to_date M L"
    and T: "l_Term (llog c T ! n) = T" "0 < T"
    and lc: "\<And>U. T < U \<Longrightarrow> U = l_Term (last M) \<Longrightarrow> good_log c (llog c U) \<and> agrees c (llog c U) T n"
  shows "agrees c M T n"
proof -
  have Ln: "l_Term (L ! n) = T" "n \<le> length L - 1"
    using agrees_nth [OF L(2)] T(1) L(2) by (auto simp: agrees_def)
  have TL: "T \<le> l_Term (last L)"
    using good_log_sorted [OF L(1) Ln(2)] good_logD(2) [OF L(1)] Ln(1) by (simp add: last_conv_nth)
  then have LM: "0 < l_Term (last L)" "0 < l_Term (last M)"
    using T(2) M(2) by (auto simp: up_to_date_def)
  let ?\<tau> = "l_Term (last M)"
  from last_good [OF M(1) LM(2)] obtain p where p: "M = take (Suc p) (llog c ?\<tau>)" "p = length M - 1"
      "p < length M" "last M = M ! p" "leader c ?\<tau> \<noteq> None" .
  from last_good [OF L(1) LM(1)] obtain q where q: "L = take (Suc q) (llog c (l_Term (last L)))" "q = length L - 1"
      "q < length L" .
  consider (same) "l_Term (last L) = ?\<tau>" "l_Index (last L) \<le> l_Index (last M)" | (newer) "l_Term (last L) < ?\<tau>"
    using M(2) by (auto simp: up_to_date_def)
  then show ?thesis
  proof cases
    case same
    have qp: "q \<le> p"
      using same(2) indexed_last [OF good_logD(1) [OF L(1)]] indexed_last [OF good_logD(1) [OF M(1)]] p(2) q(2) by simp
    then have "take (Suc q) M = L"
      using p(1) q(1) same(1) by (metis Suc_le_mono min.absorb1 take_take)
    moreover have "n \<le> q"
      using Ln(2) q(2) by simp
    ultimately have "take (Suc n) M = take (Suc n) L"
      by (metis Suc_le_mono min.absorb1 take_take)
    with L(2) qp \<open>n \<le> q\<close> p(3) show ?thesis
      by (auto simp: agrees_def)
  next
    case newer
    with TL have less: "T < ?\<tau>"
      by simp
    note a = lc [OF less refl]
    have "\<not> p \<le> n"
    proof
      assume "p \<le> n"
      with a have "l_Term (llog c ?\<tau> ! p) \<le> l_Term (llog c ?\<tau> ! n)"
        by (intro good_log_sorted [of c]) (auto simp: agrees_def)
      moreover have "llog c ?\<tau> ! p = last M"
        using p by (metis lessI nth_take)
      ultimately show False
        using agrees_nth [OF a [THEN conjunct2], of n] T less by simp
    qed
    then have "take (Suc n) M = take (Suc n) (llog c ?\<tau>)" "n < length M"
      using p(1,3) by (metis Suc_le_mono min.absorb1 nat_le_linear take_take, simp)
    with a show ?thesis by (simp add: agrees_def)
  qed
qed

text \<open>The log of the winner of an election has every open position of earlier terms.\<close>

lemma winner_complete:
  assumes inv: "base_inv ms c" "complete_inv ms c" and i: "i \<in> set ms"
    and win: "n_role (node c i) = Candidate" "currentTerm (node c i) = t"
      "tally (Quorum (n_cfg (node c i))) 1 (map snd (ballot c i t)) \<noteq> None"
    and o: "open_at ms c T n" "T < t"
  shows "agrees c (n_log (node c i)) T n"
proof -
  let ?M = "n_log (node c i)"
  note lg = base_invD(3) [OF inv(1)]
  from election_won(2) [OF base_invD(2,1) [OF inv(1)] i win] obtain P
    where P: "quorum ms P" "\<And>j. j \<in> P \<Longrightarrow> (t, i) \<in> votes c j"
    by blast
  from o(1) obtain Q where Q: "quorum ms Q" "\<And>j. j \<in> Q \<Longrightarrow> acc c j T n \<or> currentTerm (node c j) \<le> T"
    by (auto simp: open_at_def)
  from quorums_meet [OF P(1) Q(1)] obtain j where j: "j \<in> P" "j \<in> Q" .
  from P(2) [OF j(1)] obtain L where L: "(j, t, i, L) \<in> voted c"
    by (auto simp: votes_def)
  note vt = vote_term [OF inv(1) L]
  have "acc c j T n"
    using Q(2) [OF j(2)] vt(1) o(2) by auto
  from complete_invD(3) [OF inv(2) o(1) this o(2) L] have ag: "agrees c L T n" .
  have M: "good_log c ?M"
    using log_invD(1) [OF lg i] by (simp add: node_log_ok_def)
  have up: "up_to_date ?M L"
    using cand_invD(4) [OF base_invD(4) [OF inv(1)] L] win(1,2) by (simp add: standing_def)
  have T: "l_Term (llog c T ! n) = T" "0 < T"
    using o(1) log_invD(2) [OF lg] by (auto simp: open_at_def entry_at_def leader_log_ok_def)
  show ?thesis
  proof (rule up_to_date_agrees [OF vt(3) ag M up T])
    fix U assume U: "T < U" "U = l_Term (last ?M)"
    have "0 < l_Term (last ?M)"
      using T(2) U by simp
    from last_good [OF M this, of "leader c U \<noteq> None"] obtain k where "leader c U = Some k"
      unfolding U(2) by blast
    with complete_invD(1) [OF inv(2) o(1) U(1)] good_log_llog [OF lg]
    show "good_log c (llog c U) \<and> agrees c (llog c U) T n" by blast
  qed
qed

text \<open>The only new entries are those a leader proposes in its own term.\<close>

definition proposed_at :: "Cluster \<Rightarrow> Cluster \<Rightarrow> string \<Rightarrow> nat \<Rightarrow> nat \<Rightarrow> bool" where
  "proposed_at c c' i T n \<longleftrightarrow> leader c T = Some i \<and> currentTerm (node c i) = T \<and> currentTerm (node c' i) = T \<and>
     length (llog c T) \<le> n \<and> append_resps c' = append_resps c \<and> voted c' = voted c \<and> leader c' = leader c \<and>
     n_log (node c' i) = llog c' T"

lemma leading:
  assumes "base_inv ms c" "i \<in> set ms" "n_role (node c i) = Leader"
  shows "leader c (currentTerm (node c i)) = Some i" "n_log (node c i) = llog c (currentTerm (node c i))"
proof -
  from remembersD(11) [OF base_invD(6) [OF assms(1,2), unfolded votes_ok_def] assms(3)]
  show "leader c (currentTerm (node c i)) = Some i"
    by (simp add: won_def)
  show "n_log (node c i) = llog c (currentTerm (node c i))"
    using log_invD(1) [OF base_invD(3) [OF assms(1)] assms(2)] assms(3) by (simp add: node_log_ok_def)
qed

lemma step_entry:
  assumes "cluster_step ms c c'" "base_inv ms c" "entry_at c' T n"
  shows "entry_at c T n \<or> (\<exists>i. proposed_at c c' i T n)"
  using assms(1)
proof cases
  case (count_votes i t n')
  from count_votes(3) show ?thesis
  proof (cases rule: count_votes_cases)
    case won
    have c': "c' = (put_node c i n')\<lparr>leader := (leader c)(t := Some i), llog := (llog c)(t := n_log n')\<rparr>"
      using won count_votes(1) by simp
    have "T \<noteq> t"
    proof
      assume [simp]: "T = t"
      have g: "good_log c (n_log (node c i))" and t: "0 < t"
        using log_invD(1) [OF base_invD(3) [OF assms(2)] count_votes(2)] won
          remembersD(7) [OF base_invD(6) [OF assms(2) count_votes(2), unfolded votes_ok_def]]
          counted_okD(2) [OF base_invD(5) [OF assms(2)]] by (auto simp: node_log_ok_def)
      have n: "n < length (n_log (node c i))" "l_Term (n_log (node c i) ! n) = t"
        using assms(3) won(8) by (simp_all add: entry_at_def c')
      have "0 < n"
        using n(2) t good_logD(3) [OF g] by (cases n) (auto simp: sentinel_def)
      from good_logD(5) [OF g this n(1)] n(2) election_won(1) [OF base_invD(2,1) [OF assms(2)] count_votes(2) won(1-3)]
      show False by simp
    qed
    with assms(3) show ?thesis by (simp add: entry_at_def c')
  qed (use count_votes assms(3) in \<open>simp add: entry_at_def\<close>)
next
  case (propose i data n' idx t)
  note p = Propose_Some [OF propose(4)]
  note l = leading [OF assms(2) propose(2)]
  show ?thesis
  proof (cases "entry_at c T n")
    case False
    then have "T = t" "length (llog c T) \<le> n"
      using assms(3) p l by (auto simp: entry_at_def propose(1) nth_append split: if_splits)
    then have "proposed_at c c' i T n"
      using p l by (auto simp: proposed_at_def propose(1))
    then show ?thesis by blast
  qed simp
qed (use assms(3) in \<open>simp_all add: entry_at_def\<close>)

text \<open>Leaders of a node's term or a later one have what the node accepted.\<close>

lemma leader_agrees:
  assumes "complete_inv ms c" "open_at ms c T n" "leader c V = Some k" "T \<le> V"
  shows "agrees c (llog c V) T n"
  using complete_invD(1) [OF assms(1,2), of V k] agrees_self assms
  by (cases "T = V") (auto simp: open_at_def entry_at_def)

lemma agrees_trans:
  assumes "agrees c L T n" "agrees c (llog c V) T n"
  shows "agrees c L V n"
  using assms by (simp add: agrees_def)

text \<open>What a node accepted agrees with the leader of every term the node has not passed.\<close>

lemma accepted_agrees:
  assumes inv: "base_inv ms c" "complete_inv ms c" and o: "open_at ms c T n"
    and acc: "acc c j T n" "leader c V = Some k" "currentTerm (node c j) \<le> V"
  shows "agrees c (n_log (node c j)) V n"
proof (rule agrees_trans)
  show "agrees c (n_log (node c j)) T n"
    using complete_invD(2) [OF inv(2) o acc(1)] .
  show "agrees c (llog c V) T n"
    using leader_agrees [OF inv(2) o acc(2)] acc_bound(4) [OF inv(1) acc(1)] acc(3) by simp
qed

lemma append_agrees:
  assumes inv: "base_inv ms c" "complete_inv ms c" "(j, req) \<in> append_reqs c"
    and step: "HandleAppendEntries (node c j) req = Some (n', resp)"
    and o: "open_at ms c T n" "leader c T \<noteq> None"
    and acc: "acc c j T n \<or> ar_Success resp \<and> ae_Term req = T \<and> n \<le> ae_PrevLogIndex req + length (ae_Entries req)"
  shows "agrees c (n_log n') T n"
proof -
  let ?L = "n_log (node c j)" and ?V = "ae_Term req" and ?p = "ae_PrevLogIndex req"
  note lg = base_invD(3) [OF inv(1)]
  have rq: "req_ok ms c j req"
    using log_invD(4) [OF lg inv(3)] .
  then have ld: "leader c ?V = Some (ae_LeaderId req)" and j: "j \<in> set ms"
    by (simp_all add: req_ok_def)
  have ok: "good_log c ?L" "length ?L \<le> 2 ^ 63" "terms_le (currentTerm (node c j)) ?L"
    using log_invD(1) [OF lg j] by (simp_all add: node_log_ok_def)
  note old = complete_invD(2) [OF inv(2) o(1)] and both = accepted_agrees [OF inv(1,2) o(1) _ ld]
  from step show ?thesis
  proof (cases rule: HandleAppendEntries_cases)
    case conflict
    then have a: "agrees c ?L T n" "agrees c ?L ?V n"
      using acc old both by auto
    have "n < ?p"
      using agrees_nth [OF a(2), of ?p] conflict(3) rq by (force simp: req_ok_def)
    with a(1) conflict(4) show ?thesis
      by (simp add: agrees_def take_take)
  next
    case (merged l)
    note m = merged_log [OF lg rq ok(1,2) merged(2,3) terms_le_mono [OF ok(3) merged(1)]]
    have n': "n_log n' = append_entries (Suc ?p) (ae_Entries req) ?L"
      using merged_frame [OF merged(6)] by (simp add: apply_frame_def)
    show ?thesis
    proof (cases "acc c j T n")
      case True
      note a = old [OF True] both [OF True merged(1)]
      then have "n < length (n_log n') \<and> take (Suc n) (n_log n') = take (Suc n) (llog c ?V)"
        unfolding n' by (intro m(7)) (simp_all add: agrees_def)
      with a show ?thesis by (simp add: agrees_def)
    next
      case False
      then have "n < Suc (?p + length (ae_Entries req))" "?V = T"
        using acc by auto
      with m(4,5) take_eq_less [OF m(6), of "Suc n"] show ?thesis
        unfolding n' by (simp add: agrees_def)
    qed
  qed (use acc old in auto)
qed

lemma step_log_agrees:
  assumes step: "cluster_step ms c c'" and inv: "base_inv ms c" "complete_inv ms c"
    and o: "open_at ms c T n" and acc: "acc c' j T n"
  shows "agrees c (n_log (node c' j)) T n"
proof -
  have e: "leader c T \<noteq> None" "n < length (llog c T)"
    using o by (simp_all add: open_at_def entry_at_def)
  have same: "agrees c (n_log (node c' j)) T n"
    if "n_log (node c' j) = n_log (node c j)" "acc c j T n"
    using complete_invD(2) [OF inv(2) o that(2)] that(1) by simp
  from step show ?thesis
  proof cases
    case (timeout i n' req)
    with acc onElectionTimeout_Some [OF timeout(4,3)] show ?thesis
      by (intro same) (auto simp: acc_def)
  next
    case (request_vote req k n' resp)
    with acc HandleRequestVote_shape [OF request_vote(5)] show ?thesis
      by (intro same) (auto simp: acc_def)
  next
    case (vote_reply k req resp i t n' granted)
    with acc vote_response_log [OF vote_reply(7)] show ?thesis
      by (intro same) (auto simp: acc_def)
  next
    case (count_votes i t n')
    from count_votes(3) show ?thesis
    proof (cases rule: count_votes_cases)
      case won
      with election_won(1) [OF base_invD(2,1) [OF inv(1)] count_votes(2) won(1-3)] acc e(1) show ?thesis
        by (intro same) (auto simp: count_votes(1) acc_def split: if_splits)
    qed (rule same; use acc count_votes in \<open>auto simp: acc_def\<close>)
  next
    case (propose i data n' idx t)
    have "acc c j T n"
      using acc e(2) by (auto simp: propose(1) acc_def split: if_splits)
    from complete_invD(2) [OF inv(2) o this] Propose_Some [OF propose(4)] show ?thesis
      by (auto simp: propose(1) agrees_def)
  next
    case (replicate i p t req)
    with acc show ?thesis by (intro same) (auto simp: acc_def)
  next
    case (append k req n' resp)
    show ?thesis
    proof (cases "j = k")
      case True
      with acc append_agrees [OF inv append(2,4) o e(1)] show ?thesis
        by (auto simp: append(1) acc_def)
    qed (rule same; use acc in \<open>auto simp: append(1) acc_def\<close>)
  next
    case (append_reply k req resp i n')
    with acc replicate_response_log [OF append_reply(5)] show ?thesis
      by (intro same) (auto simp: acc_def)
  next
    case (restart i n')
    with acc restart_Some [OF member_fields(6) [OF base_invD(1) [OF inv(1)] restart(2)] restart(3,4)] show ?thesis
      by (intro same) (auto simp: acc_def)
  next
    case (unblock i k n')
    with acc unblock_frame(1) [OF unblock(3)] show ?thesis
      by (intro same) (auto simp: acc_def apply_frame_def)
  next
    case (receive i n' m)
    with acc receive_frame(1) [OF receive(3)] show ?thesis
      by (intro same) (auto simp: acc_def apply_frame_def)
  qed
qed

lemma step_voted:
  assumes "cluster_step ms c c'" "(j, U, k, L) \<in> voted c'"
  shows "(j, U, k, L) \<in> voted c \<or> L = n_log (node c j) \<and> append_resps c' = append_resps c \<and>
    leader c' = leader c \<and> llog c' = llog c"
  using assms(1)
proof cases
  case (timeout i n' req)
  with assms(2) onElectionTimeout_Some [OF timeout(4,3)] show ?thesis by auto
next
  case (request_vote req i n' resp)
  with assms(2) show ?thesis by (auto split: if_splits)
qed (use assms(2) in \<open>auto split: if_splits\<close>)

text \<open>A position proposed just now is open only as long as no later leader exists.\<close>

lemma proposed_acc:
  assumes "base_inv ms c" "proposed_at c c' i T n" "acc c' j T n"
  shows "j = i"
proof (rule ccontr)
  assume "j \<noteq> i"
  with assms(2,3) have "acc c j T n"
    by (auto simp: proposed_at_def acc_def)
  from acc_bound(2) [OF assms(1) this] assms(2) show False
    by (simp add: proposed_at_def)
qed

lemma proposed_no_later_leader:
  assumes step: "cluster_step ms c c'" and inv: "base_inv ms c" and p: "proposed_at c c' i T n"
    and o: "open_at ms c' T n" and U: "leader c' U = Some k" "T < U"
  shows False
proof -
  from U p have "leader c U = Some k"
    by (simp add: proposed_at_def)
  with counted_okD(7) [OF base_invD(5) [OF inv]] obtain P where P: "quorum ms P" "\<And>j. j \<in> P \<Longrightarrow> (U, k) \<in> votes c j"
    by blast
  from o obtain Q where Q: "quorum ms Q" "\<And>j. j \<in> Q \<Longrightarrow> acc c' j T n \<or> currentTerm (node c' j) \<le> T"
    by (auto simp: open_at_def)
  from quorums_meet [OF P(1) Q(1)] obtain j where j: "j \<in> P" "j \<in> Q" .
  from P(2) [OF j(1)] obtain L where L: "(j, U, k, L) \<in> voted c"
    by (auto simp: votes_def)
  have "U \<le> currentTerm (node c' j)"
    using vote_term(1) [OF inv L] step_terms [OF step base_invD(1) [OF inv], of j] by simp
  with Q(2) [OF j(2)] U(2) have "acc c' j T n" "currentTerm (node c' j) \<noteq> T"
    by auto
  with proposed_acc [OF inv p] p show False
    by (auto simp: proposed_at_def)
qed

text \<open>An open position is an old one or has just been proposed.\<close>

lemma step_open:
  assumes "cluster_step ms c c'" "base_inv ms c" "open_at ms c' T n"
  obtains (old) "leader c T \<noteq> None" "open_at ms c T n" | (new) i where "proposed_at c c' i T n"
  using step_entry [OF assms(1,2), of T n] open_back [OF assms] assms(3) by (auto simp: open_at_def entry_at_def)

lemma step_new_leader:
  assumes "cluster_step ms c c'" "leader c U = None" "leader c' U = Some k"
  obtains x where "x \<in> set ms" "n_role (node c x) = Candidate" "currentTerm (node c x) = U"
    "tally (Quorum (n_cfg (node c x))) 1 (map snd (ballot c x U)) \<noteq> None" "llog c' U = n_log (node c x)"
  using assms(1)
proof cases
  case (count_votes y t n')
  from count_votes(3) show ?thesis
  proof (cases rule: count_votes_cases)
    case won
    with count_votes assms(2,3) show ?thesis
      by (intro that [of y]) (auto split: if_splits)
  qed (use count_votes assms(2,3) in \<open>auto split: if_splits\<close>)
qed (use assms(2,3) in auto)

lemma complete_leaders_step:
  assumes step: "cluster_step ms c c'" and inv: "base_inv ms c" "complete_inv ms c" and ev: "evolves c c' i"
    and o: "open_at ms c' T n" and U: "T < U" "leader c' U = Some k"
  shows "agrees c' (llog c' U) T n"
  using step inv(1) o
proof (cases rule: step_open)
  case old
  show ?thesis
  proof (cases "leader c U")
    case (Some k')
    then have "agrees c (llog c U) T n"
      using complete_invD(1) [OF inv(2) old(2) U(1)] by blast
    from evolves_agrees [OF ev old(1) this] evolves_llog [OF ev, of U n] Some show ?thesis
      by (auto simp: agrees_def)
  next
    case None
    from step_new_leader [OF step None U(2)] obtain x where x: "x \<in> set ms" "n_role (node c x) = Candidate"
      "currentTerm (node c x) = U" "tally (Quorum (n_cfg (node c x))) 1 (map snd (ballot c x U)) \<noteq> None"
      "llog c' U = n_log (node c x)" .
    from evolves_agrees [OF ev old(1) winner_complete [OF inv x(1-4) old(2) U(1)]] x(5) show ?thesis
      by simp
  qed
next
  case new
  from proposed_no_later_leader [OF step inv(1) new o U(2,1)] show ?thesis ..
qed

lemma complete_nodes_step:
  assumes step: "cluster_step ms c c'" and inv: "base_inv ms c" "complete_inv ms c" and ev: "evolves c c' i"
    and o: "open_at ms c' T n" and a: "acc c' j T n"
  shows "agrees c' (n_log (node c' j)) T n"
  using step inv(1) o
proof (cases rule: step_open)
  case old
  from evolves_agrees [OF ev old(1) step_log_agrees [OF step inv old(2) a]] show ?thesis .
next
  case (new x)
  with proposed_acc [OF inv(1) new a] o show ?thesis
    by (auto simp: proposed_at_def open_at_def entry_at_def intro: agrees_self)
qed

lemma complete_votes_step:
  assumes step: "cluster_step ms c c'" and inv: "base_inv ms c" "complete_inv ms c" and ev: "evolves c c' i"
    and o: "open_at ms c' T n" and a: "acc c' j T n" and U: "T < U" "(j, U, k, L) \<in> voted c'"
  shows "agrees c' L T n"
proof -
  have before: "acc c j T n" if "(j, U, k, L) \<in> voted c"
    using step_acc [OF step base_invD(2,1,3) [OF inv(1)] a] vote_term(1) [OF inv(1) that] U(1) by auto
  from step inv(1) o show ?thesis
  proof (cases rule: step_open)
    case old
    from step_voted [OF step U(2)] have "agrees c L T n"
    proof (elim disjE conjE)
      assume v: "(j, U, k, L) \<in> voted c"
      from complete_invD(3) [OF inv(2) old(2) before [OF v] U(1) v] show ?thesis .
    next
      assume s: "L = n_log (node c j)" "append_resps c' = append_resps c" "leader c' = leader c" "llog c' = llog c"
      then have "acc c j T n"
        using a by (simp add: acc_def)
      from complete_invD(2) [OF inv(2) old(2) this] s(1) show ?thesis
        by simp
    qed
    from evolves_agrees [OF ev old(1) this] show ?thesis .
  next
    case (new x)
    then have "(j, U, k, L) \<in> voted c"
      using U(2) by (simp add: proposed_at_def)
    from acc_bound(2) [OF inv(1) before [OF this]] new show ?thesis
      by (simp add: proposed_at_def)
  qed
qed

lemma complete_inv_step:
  assumes "cluster_step ms c c'" "base_inv ms c" "complete_inv ms c"
  shows "complete_inv ms c'"
proof -
  obtain i where ev: "evolves c c' i"
    using step_evolves [OF assms(1) base_invD(2,1,3) [OF assms(2)]] .
  from complete_leaders_step [OF assms ev] complete_nodes_step [OF assms ev] complete_votes_step [OF assms ev]
  show ?thesis
    unfolding complete_inv_def by blast
qed

end
