(* ===== verification/CommitSafety.thy ===== *)
theory CommitSafety
  imports LeaderCompleteness
begin

text \<open>
  State machine safety: what the nodes commit and hand over for application never
  disagrees. The commit index of a node, and of a request, is backed by a chosen position
  whose log agrees with the node's log up to it; the match indexes of a leader are accepted
  positions; and every message on an apply channel carries a committed entry.
\<close>

section \<open>Committed entries\<close>

definition committed :: "string list \<Rightarrow> Cluster \<Rightarrow> nat \<Rightarrow> LogEntry \<Rightarrow> bool" where
  "committed ms c p e \<longleftrightarrow> (\<exists>V n. chosen_at ms c V n \<and> p \<le> n \<and> llog c V ! p = e)"

definition backed :: "string list \<Rightarrow> Cluster \<Rightarrow> LogEntry list \<Rightarrow> nat \<Rightarrow> nat \<Rightarrow> bool" where
  "backed ms c L T ci \<longleftrightarrow> ci = 0 \<or> (\<exists>V n. V \<le> T \<and> chosen_at ms c V n \<and> ci \<le> n \<and> agrees c L V ci)"

definition messages :: "Node \<Rightarrow> ApplyMsg set" where
  "messages n = set (applyCh n) \<union> set (blocked n)"

text \<open>Every message the node has handed over since its start: queued, waiting, or received.\<close>

definition handed :: "Cluster \<Rightarrow> string \<Rightarrow> ApplyMsg set" where
  "handed c i = messages (node c i) \<union> set (received c i)"

declare handed_def [simp]

definition node_commit_ok :: "string list \<Rightarrow> Cluster \<Rightarrow> string \<Rightarrow> bool" where
  "node_commit_ok ms c i \<longleftrightarrow>
     backed ms c (n_log (node c i)) (currentTerm (node c i)) (commitIndex (node c i)) \<and>
     (\<forall>m \<in> handed c i. \<exists>p e. 0 < p \<and> committed ms c p e \<and> m = apply_msg e) \<and>
     (n_role (node c i) = Leader \<longrightarrow> (\<forall>p \<in> set (peerIDs (node c i)). 0 < matchIndex (node c i) p \<longrightarrow>
        acc c p (currentTerm (node c i)) (matchIndex (node c i) p)))"

definition req_commit_ok :: "string list \<Rightarrow> Cluster \<Rightarrow> AppendEntriesRequest \<Rightarrow> bool" where
  "req_commit_ok ms c req \<longleftrightarrow> ae_LeaderCommit req \<le> ae_PrevLogIndex req + length (ae_Entries req) \<and>
     backed ms c (llog c (ae_Term req)) (ae_Term req) (ae_LeaderCommit req)"

definition commit_inv :: "string list \<Rightarrow> Cluster \<Rightarrow> bool" where
  "commit_inv ms c \<longleftrightarrow> (\<forall>i \<in> set ms. node_commit_ok ms c i) \<and>
     (\<forall>j req. (j, req) \<in> append_reqs c \<longrightarrow> req_commit_ok ms c req)"

definition safe_inv :: "string list \<Rightarrow> Cluster \<Rightarrow> bool" where
  "safe_inv ms c \<longleftrightarrow> base_inv ms c \<and> complete_inv ms c \<and> commit_inv ms c"

lemma safe_invD:
  assumes "safe_inv ms c"
  shows "base_inv ms c" "complete_inv ms c" "i \<in> set ms \<Longrightarrow> node_commit_ok ms c i"
    "(j, req) \<in> append_reqs c \<Longrightarrow> req_commit_ok ms c req"
  using assms unfolding safe_inv_def commit_inv_def by blast+

lemma acc_less: "acc c j T n \<Longrightarrow> m \<le> n \<Longrightarrow> acc c j T m"
  by (fastforce simp: acc_def)

text \<open>Two chosen positions agree.\<close>

lemma committed_unique:
  assumes inv: "complete_inv ms c" and p: "committed ms c p e" "committed ms c p e'"
  shows "e = e'"
proof -
  have *: "llog c V' ! p = llog c V ! p"
    if "chosen_at ms c V n" "chosen_at ms c V' n'" "p \<le> n" "p \<le> n'" "V \<le> V'" for V V' n n'
  proof -
    note V = that
    obtain k where "leader c V' = Some k"
      using V(2) by (auto simp: chosen_at_def entry_at_def)
    from leader_agrees [OF inv chosen_open [OF V(1)] this V(5)] show ?thesis
      using agrees_nth V(3) by blast
  qed
  from p obtain V n V' n' where "chosen_at ms c V n" "p \<le> n" "llog c V ! p = e"
    "chosen_at ms c V' n'" "p \<le> n'" "llog c V' ! p = e'"
    by (auto simp: committed_def)
  with * [of V n V' n'] * [of V' n' V n] show ?thesis
    by (cases "V \<le> V'") auto
qed

lemma evolves_committed:
  assumes "evolves c c' i" "append_resps c \<subseteq> append_resps c'" "committed ms c p e"
  shows "committed ms c' p e"
proof -
  obtain V n where V: "chosen_at ms c V n" "p \<le> n" "llog c V ! p = e"
    using assms(3) by (auto simp: committed_def)
  then have "leader c V \<noteq> None" "p < length (llog c V)"
    by (auto simp: chosen_at_def entry_at_def)
  from evolves_llog(3) [OF assms(1) this] evolves_chosen [OF assms(1,2) V(1)] V(2,3) show ?thesis
    by (auto simp: committed_def)
qed

lemma evolves_backed:
  assumes "evolves c c' i" "append_resps c \<subseteq> append_resps c'" "backed ms c L T ci" "T \<le> T'"
  shows "backed ms c' L T' ci"
proof (cases "ci = 0")
  case False
  then obtain V n where V: "V \<le> T" "chosen_at ms c V n" "ci \<le> n" "agrees c L V ci"
    using assms(3) by (auto simp: backed_def)
  then have "agrees c' L V ci"
    using evolves_agrees [OF assms(1)] by (auto simp: chosen_at_def entry_at_def)
  with V evolves_chosen [OF assms(1,2) V(2)] assms(4) show ?thesis
    unfolding backed_def by (meson order_trans)
qed (simp add: backed_def)

lemma backed_longer:
  assumes "backed ms c L T ci" "ci < length L" "take (Suc ci) L' = take (Suc ci) L" "ci < length L'"
  shows "backed ms c L' T ci"
  using assms by (auto simp: backed_def agrees_def)

lemma backed_committed:
  assumes "backed ms c L T ci" "0 < p" "p \<le> ci"
  shows "committed ms c p (L ! p)" "p < length L"
proof -
  obtain V n where V: "chosen_at ms c V n" "ci \<le> n" "agrees c L V ci"
    using assms by (auto simp: backed_def)
  with assms(3) agrees_nth [OF V(3) assms(3)] show "committed ms c p (L ! p)" "p < length L"
    by (auto simp: committed_def agrees_def intro: order_trans)
qed

section \<open>Messages\<close>

lemma messages_frame [simp]:
  "messages (n\<lparr>commitIndex := x\<rparr>) = messages n" "messages (persistStateLocked n) = messages n"
  "messages (step_down n t) = messages n" "messages (n\<lparr>n_log := L\<rparr>) = messages n"
  "messages (accepted_term n req) = messages n" "messages (n\<lparr>lastApplied := x\<rparr>) = messages n"
  "messages (n\<lparr>matchIndex := f, nextIndex := g\<rparr>) = messages n" "messages (n\<lparr>nextIndex := g\<rparr>) = messages n"
  "messages (n\<lparr>matchIndex := f\<rparr>) = messages n"
  by (simp_all add: messages_def accepted_term_def)

lemma messages_merged [simp]: "messages (merged_node n req) = messages n"
  by (simp add: merged_node_def)

lemma messages_send [simp]: "messages (send_apply n m) = insert m (messages n)"
  by (auto simp: messages_def send_apply_def)

lemma applyCommitted_msgs:
  "applyCommittedEntriesLocked n = Some n' \<Longrightarrow> m \<in> messages n' \<Longrightarrow>
    m \<in> messages n \<or> (\<exists>q. 0 < q \<and> q \<le> commitIndex n \<and> m = apply_msg (n_log n ! q))"
proof (induction n rule: applyCommittedEntriesLocked.induct)
  case (1 n)
  show ?case
  proof (cases "lastApplied n < commitIndex n")
    case False
    with "1.prems" show ?thesis
      by (subst (asm) applyCommittedEntriesLocked.simps) auto
  next
    case True
    let ?n = "send_apply (n\<lparr>lastApplied := lastApplied n + 1\<rparr>) (apply_msg (n_log n ! (lastApplied n + 1)))"
    have lt: "lastApplied n + 1 < length (n_log n)"
      using "1.prems"(1) True by (subst (asm) applyCommittedEntriesLocked.simps) (auto split: if_splits)
    then have "applyCommittedEntriesLocked ?n = Some n'"
      using "1.prems"(1) True by (subst (asm) applyCommittedEntriesLocked.simps) simp
    from "1.IH" [OF True lt this "1.prems"(2)] True show ?thesis
      by (auto intro: exI [of _ "lastApplied n + 1"])
  qed
qed

lemma advance_commit_msgs:
  "advance_commit n k = Some n' \<Longrightarrow> m \<in> messages n' \<Longrightarrow>
    m \<in> messages n \<or> (\<exists>q. 0 < q \<and> q \<le> commitIndex n' \<and> m = apply_msg (n_log n ! q))"
proof (induction k)
  case (Suc k)
  show ?case
  proof (cases "committable n (Suc k)")
    case True
    then have a: "applyCommittedEntriesLocked (n\<lparr>commitIndex := Suc k\<rparr>) = Some n'"
      using Suc.prems(1) by (auto simp: committable_def Let_def)
    from applyCommitted_msgs [OF a Suc.prems(2)] applyCommitted_frame [OF a] show ?thesis
      by (auto simp: apply_frame_def)
  next
    case False
    then have "advance_commit n k = Some n' \<or> n' = n"
      using Suc.prems by (auto simp: committable_def Let_def split: if_splits)
    with Suc.IH Suc.prems(2) show ?thesis by auto
  qed
qed simp

lemma maybeAdvance_msgs:
  "maybeAdvanceCommitIndexLocked n = Some n' \<Longrightarrow> m \<in> messages n' \<Longrightarrow>
    m \<in> messages n \<or> (\<exists>q. 0 < q \<and> q \<le> commitIndex n' \<and> m = apply_msg (n_log n ! q))"
  using advance_commit_msgs by (auto simp: maybeAdvanceCommitIndexLocked_def split: option.splits)

section \<open>The steps\<close>

lemma node_commit_ok_same:
  assumes "node_commit_ok ms c i" "evolves c c' k" "append_resps c \<subseteq> append_resps c'"
    and "n_log (node c' i) = n_log (node c i)" "commitIndex (node c' i) = commitIndex (node c i)"
    and "handed c' i \<subseteq> handed c i" "currentTerm (node c i) \<le> currentTerm (node c' i)"
    and "n_role (node c' i) = Leader \<Longrightarrow> n_role (node c i) = Leader \<and> currentTerm (node c' i) = currentTerm (node c i) \<and>
      peerIDs (node c' i) = peerIDs (node c i) \<and> matchIndex (node c' i) = matchIndex (node c i)"
  shows "node_commit_ok ms c' i"
  unfolding node_commit_ok_def
proof (intro conjI)
  show "backed ms c' (n_log (node c' i)) (currentTerm (node c' i)) (commitIndex (node c' i))"
    unfolding assms(4,5) using assms(1) by (intro evolves_backed [OF assms(2,3) _ assms(7)]) (simp add: node_commit_ok_def)
  show "\<forall>m \<in> handed c' i. \<exists>p e. 0 < p \<and> committed ms c' p e \<and> m = apply_msg e"
    using assms(1) evolves_committed [OF assms(2,3)] assms(6) unfolding node_commit_ok_def by blast
  show "n_role (node c' i) = Leader \<longrightarrow> (\<forall>p \<in> set (peerIDs (node c' i)). 0 < matchIndex (node c' i) p \<longrightarrow>
      acc c' p (currentTerm (node c' i)) (matchIndex (node c' i) p))"
    using assms(1,8) evolves_acc [OF assms(2,3)] by (auto simp: node_commit_ok_def)
qed

lemma commit_inv_put:
  assumes inv: "safe_inv ms c" and ev: "evolves c c' k" "append_resps c \<subseteq> append_resps c'"
    and same: "\<And>j. j \<noteq> i \<Longrightarrow> node c' j = node c j \<and> received c' j = received c j"
    and i: "i \<in> set ms \<Longrightarrow> node_commit_ok ms c' i"
    and rq: "\<And>j req. (j, req) \<in> append_reqs c' \<Longrightarrow> (j, req) \<in> append_reqs c \<or> req_commit_ok ms c' req"
  shows "commit_inv ms c'"
  unfolding commit_inv_def
proof (intro conjI ballI allI impI)
  fix j assume j: "j \<in> set ms"
  show "node_commit_ok ms c' j"
  proof (cases "j = i")
    case False
    with node_commit_ok_same [OF safe_invD(3) [OF inv j] ev] same show ?thesis
      by simp
  qed (use i j in simp)
next
  fix j req assume "(j, req) \<in> append_reqs c'"
  from rq [OF this] show "req_commit_ok ms c' req"
  proof
    assume r: "(j, req) \<in> append_reqs c"
    note lg = base_invD(3) [OF safe_invD(1) [OF inv]]
    note rqo = log_invD(4) [OF lg r]
    have ld: "leader c (ae_Term req) \<noteq> None"
      and req: "ae_LeaderCommit req \<le> ae_PrevLogIndex req + length (ae_Entries req)"
      "backed ms c (llog c (ae_Term req)) (ae_Term req) (ae_LeaderCommit req)"
      using rqo safe_invD(4) [OF inv r] by (simp_all add: req_ok_def req_commit_ok_def)
    have lc: "ae_LeaderCommit req < length (llog c (ae_Term req))"
      using req_ok_entries(1) [OF lg rqo] req(1) by simp
    note e = evolves_llog [OF ev(1) ld lc]
    from backed_longer [OF evolves_backed [OF ev req(2) order_refl] lc e(2,1)] req(1) show ?thesis
      by (simp add: req_commit_ok_def)
  qed
qed

text \<open>The commit index of a node lies within its log.\<close>

lemma commit_in_log:
  assumes "safe_inv ms c" "i \<in> set ms"
  shows "commitIndex (node c i) < length (n_log (node c i))"
proof -
  have "n_log (node c i) \<noteq> []"
    using log_invD(1) [OF base_invD(3) [OF safe_invD(1) [OF assms(1)]] assms(2)] good_logD(2) by (auto simp: node_log_ok_def)
  with safe_invD(3) [OF assms] show ?thesis
    by (auto simp: node_commit_ok_def backed_def agrees_def)
qed

text \<open>A leader of the node's term or a later one agrees with the committed part of its log.\<close>

lemma backed_leader:
  assumes "complete_inv ms c" "backed ms c L T ci" "leader c W = Some k" "T \<le> W" "0 < ci"
  shows "agrees c L W ci" "agrees c (llog c W) W ci"
proof -
  obtain V n where V: "V \<le> T" "chosen_at ms c V n" "ci \<le> n" "agrees c L V ci"
    using assms(2,5) by (auto simp: backed_def)
  have "agrees c (llog c W) V n"
    using leader_agrees [OF assms(1) chosen_open [OF V(2)] assms(3)] V(1) assms(4) by simp
  from agrees_trans [OF V(4) agrees_less [OF this V(3)]] show "agrees c L W ci" .
  then show "agrees c (llog c W) W ci"
    by (simp add: agrees_def)
qed

lemma backed_msgs:
  assumes "backed ms c L T ci" "\<And>m. m \<in> M \<Longrightarrow> (\<exists>p e. 0 < p \<and> committed ms c p e \<and> m = apply_msg e) \<or>
      (\<exists>q. 0 < q \<and> q \<le> ci \<and> m = apply_msg (L ! q))"
  shows "\<forall>m \<in> M. \<exists>p e. 0 < p \<and> committed ms c p e \<and> m = apply_msg e"
  using assms(2) backed_committed(1) [OF assms(1)] by blast

text \<open>A node with new committed entries, as seen from the state before the step.\<close>

lemma node_commit_okI:
  assumes ok: "node_commit_ok ms c j" and ev: "evolves c c' k" "append_resps c \<subseteq> append_resps c'"
    and bk: "backed ms c (n_log (node c' j)) (currentTerm (node c' j)) (commitIndex (node c' j))"
    and rc: "received c' j = received c j"
    and ms: "\<And>m. m \<in> messages (node c' j) \<Longrightarrow> m \<in> messages (node c j) \<or>
      (\<exists>q. 0 < q \<and> q \<le> commitIndex (node c' j) \<and> m = apply_msg (n_log (node c' j) ! q))"
    and ld: "\<And>p. n_role (node c' j) = Leader \<Longrightarrow> p \<in> set (peerIDs (node c' j)) \<Longrightarrow> 0 < matchIndex (node c' j) p \<Longrightarrow>
      acc c' p (currentTerm (node c' j)) (matchIndex (node c' j) p)"
  shows "node_commit_ok ms c' j"
  unfolding node_commit_ok_def
proof (intro conjI)
  show "backed ms c' (n_log (node c' j)) (currentTerm (node c' j)) (commitIndex (node c' j))"
    using evolves_backed [OF ev bk order_refl] .
  have "\<forall>m \<in> handed c' j. \<exists>p e. 0 < p \<and> committed ms c p e \<and> m = apply_msg e"
  proof (rule backed_msgs [OF bk])
    fix m assume "m \<in> handed c' j"
    then have "m \<in> handed c j \<or> (\<exists>q. 0 < q \<and> q \<le> commitIndex (node c' j) \<and> m = apply_msg (n_log (node c' j) ! q))"
      using ms rc by (auto simp del: ex_simps)
    with ok show "(\<exists>p e. 0 < p \<and> committed ms c p e \<and> m = apply_msg e) \<or>
      (\<exists>q. 0 < q \<and> q \<le> commitIndex (node c' j) \<and> m = apply_msg (n_log (node c' j) ! q))"
      unfolding node_commit_ok_def by blast
  qed
  with evolves_committed [OF ev] show "\<forall>m \<in> handed c' j. \<exists>p e. 0 < p \<and> committed ms c' p e \<and> m = apply_msg e"
    by blast
qed (use ld in blast)

lemma backed_later: "backed ms c L T ci \<Longrightarrow> T \<le> T' \<Longrightarrow> backed ms c L T' ci"
  by (auto simp: backed_def intro: order_trans)

text \<open>A request never conflicts with the committed part of a log.\<close>

lemma conflict_behind_commit:
  assumes inv: "safe_inv ms c" and rq: "req_ok ms c j req" and j: "currentTerm (node c j) \<le> ae_Term req"
    and conflict: "l_Term (n_log (node c j) ! ae_PrevLogIndex req) \<noteq> ae_PrevLogTerm req"
  shows "commitIndex (node c j) < ae_PrevLogIndex req"
proof (cases "commitIndex (node c j) = 0")
  case True
  have "j \<in> set ms"
    using rq by (simp add: req_ok_def)
  with conflict_position [OF base_invD(3) [OF safe_invD(1) [OF inv]] rq _ conflict]
    log_invD(1) [OF base_invD(3) [OF safe_invD(1) [OF inv]]] True
  show ?thesis by (simp add: node_log_ok_def)
next
  case False
  have "j \<in> set ms" and ld: "leader c (ae_Term req) = Some (ae_LeaderId req)"
    using rq by (simp_all add: req_ok_def)
  then have "backed ms c (n_log (node c j)) (currentTerm (node c j)) (commitIndex (node c j))"
    using safe_invD(3) [OF inv] by (simp add: node_commit_ok_def)
  from backed_leader(1) [OF safe_invD(2) [OF inv] this ld j] False
  have a: "agrees c (n_log (node c j)) (ae_Term req) (commitIndex (node c j))"
    by simp
  show ?thesis
  proof (rule ccontr)
    assume "\<not> ?thesis"
    with agrees_nth [OF a, of "ae_PrevLogIndex req"] conflict rq show False
      by (simp add: req_ok_def)
  qed
qed

text \<open>The commit index after an accepted request.\<close>

lemma merged_commit:
  assumes inv: "safe_inv ms c" and rq: "(j, req) \<in> append_reqs c" and le: "currentTerm (node c j) \<le> ae_Term req"
    and p: "ae_PrevLogIndex req < length (n_log (node c j))"
      "l_Term (n_log (node c j) ! ae_PrevLogIndex req) = ae_PrevLogTerm req"
  defines "L \<equiv> append_entries (Suc (ae_PrevLogIndex req)) (ae_Entries req) (n_log (node c j))"
  shows "l_Index (last L) = length L - 1" "ae_LeaderCommit req \<le> length L - 1"
    "backed ms c L (ae_Term req) (if ae_LeaderCommit req > commitIndex (node c j)
       then min (ae_LeaderCommit req) (length L - 1) else commitIndex (node c j))"
proof -
  let ?n = "node c j" and ?V = "ae_Term req" and ?LC = "ae_LeaderCommit req"
  note lg = base_invD(3) [OF safe_invD(1) [OF inv]]
  note rqo = log_invD(4) [OF lg rq]
  then have ld: "leader c ?V = Some (ae_LeaderId req)" and j: "j \<in> set ms"
    by (simp_all add: req_ok_def)
  have ok: "good_log c (n_log ?n)" "length (n_log ?n) \<le> 2 ^ 63" "terms_le (currentTerm ?n) (n_log ?n)"
    using log_invD(1) [OF lg j] by (simp_all add: node_log_ok_def)
  note m = merged_log [OF lg rqo ok(1,2) p terms_le_mono [OF ok(3) le], folded L_def]
  show "l_Index (last L) = length L - 1"
    using indexed_last [OF good_logD(1) [OF m(1)]] .
  have bk: "backed ms c (n_log ?n) (currentTerm ?n) (commitIndex ?n)"
    using safe_invD(3) [OF inv j] by (simp add: node_commit_ok_def)
  have rc: "?LC \<le> ae_PrevLogIndex req + length (ae_Entries req)" "backed ms c (llog c ?V) ?V ?LC"
    using safe_invD(4) [OF inv rq] by (simp_all add: req_commit_ok_def)
  show le': "?LC \<le> length L - 1"
    using rc(1) m(4) by simp
  have new: "backed ms c L ?V ?LC"
    using rc(1) m(4,5) take_eq_less [OF m(6), of "Suc ?LC"] by (intro backed_longer [OF rc(2)]) simp_all
  have old: "backed ms c L ?V (commitIndex ?n)"
  proof (cases "commitIndex ?n = 0")
    case False
    then have a: "agrees c (n_log ?n) ?V (commitIndex ?n)"
      using backed_leader(1) [OF safe_invD(2) [OF inv] bk ld le] by simp
    then have "commitIndex ?n < length L \<and> take (Suc (commitIndex ?n)) L = take (Suc (commitIndex ?n)) (llog c ?V)"
      by (intro m(7)) (simp_all add: agrees_def)
    with a have "backed ms c L (currentTerm ?n) (commitIndex ?n)"
      by (intro backed_longer [OF bk]) (simp_all add: agrees_def)
    then show ?thesis by (rule backed_later [OF _ le])
  qed (simp add: backed_def)
  from new old le' show "backed ms c L ?V (if ?LC > commitIndex ?n then min ?LC (length L - 1) else commitIndex ?n)"
    by simp
qed

lemma append_commit:
  assumes inv: "safe_inv ms c" and rq: "(j, req) \<in> append_reqs c"
    and step: "HandleAppendEntries (node c j) req = Some (n', resp)"
    and c': "node c' j = n'" "leader c' = leader c" "llog c' = llog c" "append_resps c \<subseteq> append_resps c'"
      "received c' j = received c j"
  shows "node_commit_ok ms c' j"
proof -
  let ?n = "node c j"
  note rqo = log_invD(4) [OF base_invD(3) [OF safe_invD(1) [OF inv]] rq]
  have j: "j \<in> set ms"
    using rqo by (simp add: req_ok_def)
  note ok = safe_invD(3) [OF inv j]
  have bk: "backed ms c (n_log ?n) (currentTerm ?n) (commitIndex ?n)"
    using ok by (simp add: node_commit_ok_def)
  have ev: "evolves c c' j"
    using c' by (intro evolves_frame)
  note nl = receiver_not_leader [OF base_invD(2) [OF safe_invD(1) [OF inv]] rqo]
  from step show ?thesis
  proof (cases rule: HandleAppendEntries_cases)
    case stale
    with c' show ?thesis by (intro node_commit_ok_same [OF ok ev c'(4)]) simp_all
  next
    case missing
    with c' nl accepted_term_term [OF missing(1)] show ?thesis
      by (intro node_commit_ok_same [OF ok ev c'(4)]) simp_all
  next
    case conflict
    have "backed ms c (take (ae_PrevLogIndex req) (n_log ?n)) (currentTerm ?n) (commitIndex ?n)"
      using conflict_behind_commit [OF inv rqo conflict(1,3)] conflict(2)
      by (intro backed_longer [OF bk]) simp_all
    from backed_later [OF this conflict(1)] show ?thesis
      using conflict nl accepted_term_term [OF conflict(1)] c' by (intro node_commit_okI [OF ok ev c'(4)]) simp_all
  next
    case (merged l)
    note fr = merged_frame [OF merged(6)] and mc = merged_commit [OF inv rq merged(1-3)]
    have L: "n_log n' = append_entries (Suc (ae_PrevLogIndex req)) (ae_Entries req) (n_log ?n)"
      "currentTerm n' = ae_Term req" "n_role n' \<noteq> Leader"
      using fr accepted_term_term [OF merged(1)] nl [OF merged(1)] by (simp_all add: apply_frame_def)
    have l: "l = length (n_log n') - 1"
      using merged(5) mc(1) L(1) by (simp add: lastLogIndexLocked_def split: if_splits)
    have "backed ms c (n_log n') (currentTerm n') (commitIndex n')"
      unfolding fr [THEN conjunct2] l L(2) using mc(3) [folded L(1)] .
    moreover have "x \<in> messages ?n \<or> (\<exists>q. 0 < q \<and> q \<le> commitIndex n' \<and> x = apply_msg (n_log n' ! q))"
      if "x \<in> messages n'" for x
    proof (cases "ae_LeaderCommit req > commitIndex ?n")
      case True
      then have a: "applyCommittedEntriesLocked ((merged_node ?n req)\<lparr>commitIndex := min (ae_LeaderCommit req) l\<rparr>) = Some n'"
        using merged(6) by simp
      from applyCommitted_msgs [OF a that] fr True L(1) show ?thesis
        by simp
    qed (use merged(6) that in simp)
    ultimately show ?thesis
      using L(3) c' by (intro node_commit_okI [OF ok ev c'(4)]) simp_all
  qed
qed

text \<open>The commit rule of the leader chooses a position.\<close>

lemma committable_chosen:
  assumes inv: "base_inv ms c" "i \<in> set ms"
    and n: "n_role (node c i) = Leader" "n_log n = n_log (node c i)" "currentTerm n = currentTerm (node c i)"
      "peerIDs n = peerIDs (node c i)" "n_cfg n = n_cfg (node c i)"
    and acc: "\<And>p. p \<in> set (peerIDs n) \<Longrightarrow> 0 < matchIndex n p \<Longrightarrow> acc c p (currentTerm n) (matchIndex n p)"
    and N: "committable n N"
  shows "chosen_at ms c (currentTerm n) N"
proof -
  let ?P = "filter (\<lambda>p. matchIndex n p \<ge> N) (peerIDs n)"
  let ?Q = "insert i (set ?P)"
  note i = member_fields [OF base_invD(1) [OF inv(1)] inv(2)]
  note ld = leading [OF inv n(1)]
  have N': "0 < N" "N < length (llog c (currentTerm n))" "l_Term (llog c (currentTerm n) ! N) = currentTerm n"
    "Quorum (n_cfg n) \<le> 1 + length ?P"
    using N n(2,3) ld(2) by (simp_all add: committable_def replicated_def)
  have "card (set ?P) = length ?P"
    using i(4) n(4) by (intro distinct_card) simp
  moreover have "i \<notin> set ?P"
    using i(5) n(4) by auto
  ultimately have "quorum ms ?Q"
    using N'(4) i(3,5) n(4,5) inv(2) by (auto simp: quorum_def)
  moreover have "acc c j (currentTerm n) N" if "j \<in> ?Q" for j
  proof (cases "j = i")
    case True
    with ld(1) N'(2) n(3) show ?thesis by (simp add: acc_def)
  next
    case False
    with that have "j \<in> set (peerIDs n)" "N \<le> matchIndex n j"
      by auto
    with acc [of j] N'(1) acc_less show ?thesis by fastforce
  qed
  ultimately show ?thesis
    using N' ld(1) n(3) by (auto simp: chosen_at_def entry_at_def)
qed

text \<open>Advancing the commit index after the acknowledgement of \<open>x\<close> entries by \<open>j\<close>; \<open>n\<close> is the leader with
  the acknowledgement recorded.\<close>

lemma acked_commit:
  assumes inv: "safe_inv ms c" "i \<in> set ms" and ld: "n_role (node c i) = Leader"
    and n: "n_log n = n_log (node c i)" "currentTerm n = currentTerm (node c i)" "peerIDs n = peerIDs (node c i)"
      "n_cfg n = n_cfg (node c i)" "matchIndex n = (matchIndex (node c i))(j := x)"
      "messages n = messages (node c i)" "commitIndex n = commitIndex (node c i)"
    and x: "acc c j (currentTerm (node c i)) x" and adv: "maybeAdvanceCommitIndexLocked n = Some n'"
  shows "node_commit_ok ms (put_node c i n') i"
proof -
  note ok = safe_invD(3) [OF inv] and base = safe_invD(1) [OF inv(1)] and fr = maybeAdvance_Some [OF adv]
  have ev: "evolves c (put_node c i n') i" "append_resps c \<subseteq> append_resps (put_node c i n')"
    by (auto intro: evolves_frame)
  have acc: "acc c p (currentTerm n) (matchIndex n p)" if "p \<in> set (peerIDs n)" "0 < matchIndex n p" for p
    using ok ld that x unfolding n by (cases "p = j") (auto simp: node_commit_ok_def)
  have "backed ms c (n_log n) (currentTerm n) (commitIndex n')"
  proof (cases "n' = n")
    case True
    with ok n show ?thesis by (simp add: node_commit_ok_def)
  next
    case False
    then have N: "committable n (commitIndex n')"
      using fr by blast
    from committable_chosen [OF base inv(2) ld n(1-4) acc N]
    have "chosen_at ms c (currentTerm n) (commitIndex n')" .
    moreover from this have "agrees c (n_log n) (currentTerm n) (commitIndex n')"
      using leading(2) [OF base inv(2) ld] n(1,2) by (simp add: agrees_def chosen_at_def entry_at_def)
    ultimately show ?thesis by (auto simp: backed_def)
  qed
  moreover have "n_log n' = n_log n" "currentTerm n' = currentTerm n" "peerIDs n' = peerIDs n"
      "matchIndex n' = matchIndex n"
    using fr by (simp_all add: apply_frame_def)
  ultimately show ?thesis
    using maybeAdvance_msgs [OF adv] n(6) acc evolves_acc [OF ev]
    by (intro node_commit_okI [OF ok ev]) simp_all
qed

lemma append_reply_commit:
  assumes inv: "safe_inv ms c" "i \<in> set ms"
    and step: "(j, req, resp) \<in> append_resps c" "i = ae_LeaderId req"
      "replicate_response (node c i) j (ae_Term req) (ae_Entries req) resp = Some n'"
  shows "node_commit_ok ms (put_node c i n') i"
proof -
  note lg = base_invD(3) [OF safe_invD(1) [OF inv(1)]]
  have ev: "evolves c (put_node c i n') i" "append_resps c \<subseteq> append_resps (put_node c i n')"
    by (auto intro: evolves_frame)
  note same = node_commit_ok_same [OF safe_invD(3) [OF inv] ev]
  from step(3) show ?thesis
  proof (cases rule: replicate_response_cases)
    case acked
    have "req_ok ms c j req"
      using log_invD(4,5) [OF lg] step(1) by blast
    then have "acc c j (currentTerm (node c i)) (l_Index (last (ae_Entries req)))"
      using req_ok_entries(2) [OF lg _ acked(4)] step(1) acked(2,3) by (auto simp: acc_def)
    from acked_commit [OF inv acked(1) _ _ _ _ _ _ _ this acked(5)] show ?thesis
      by simp
  qed (rule same; simp)+
qed

lemma startElection_messages: "startElection n t bs = Some n' \<Longrightarrow> messages n' = messages n"
  by (auto simp: startElection_def elected_def init_leader_def messages_def split: option.splits if_splits)

lemma commit_count_votes:
  assumes ok: "node_commit_ok ms c i" and ev: "evolves c c' k" "append_resps c \<subseteq> append_resps c'"
    and step: "startElection (node c i) t bs = Some (node c' i)" "received c' i = received c i"
  shows "node_commit_ok ms c' i"
  using step(1)
proof (cases rule: count_votes_cases)
  case same
  with step(2) show ?thesis
    by (intro node_commit_ok_same [OF ok ev]) (simp_all add: handed_def)
next
  case won
  have "matchIndex (node c' i) p = 0" if "p \<in> set (peerIDs (node c' i))" for p
    using startElection_Some [OF step(1)] won that by auto
  moreover have "messages (node c' i) = messages (node c i)" "commitIndex (node c' i) = commitIndex (node c i)"
    using startElection_messages [OF step(1)] startElection_Some [OF step(1)] by auto
  ultimately show ?thesis
    using won ok step(2) by (intro node_commit_okI [OF ok ev]) (auto simp: node_commit_ok_def)
qed

lemma commit_propose:
  assumes inv: "safe_inv ms c" "i \<in> set ms" and ev: "evolves c c' k" "append_resps c \<subseteq> append_resps c'"
    and step: "Propose (node c i) data = Some (node c' i, idx, t, True)" "received c' i = received c i"
  shows "node_commit_ok ms c' i"
proof -
  note p = Propose_Some [OF step(1)] and ok = safe_invD(3) [OF inv]
  have b: "backed ms c (n_log (node c i)) (currentTerm (node c' i)) (commitIndex (node c' i))"
    using p ok by (auto simp: node_commit_ok_def)
  have "backed ms c (n_log (node c' i)) (currentTerm (node c' i)) (commitIndex (node c' i))"
    using p commit_in_log [OF inv] by (intro backed_longer [OF b]) auto
  then show ?thesis
    using p ok step(2) evolves_acc [OF ev]
    by (intro node_commit_okI [OF ok ev]) (auto simp: messages_def node_commit_ok_def)
qed

lemma commit_replicate:
  assumes inv: "safe_inv ms c" "i \<in> set ms" and ev: "evolves c c' k" "append_resps c \<subseteq> append_resps c'"
    and step: "p \<in> set (replicateToPeers (node c i) t)" "replicate_request (node c i) p t = Some req"
      "llog c' = llog c"
  shows "req_commit_ok ms c' req"
proof -
  note base = safe_invD(1) [OF inv(1)]
  note r = replicate_request_ok [OF base_invD(3,2,1) [OF base] inv(2) step(1,2)]
  have "backed ms c (llog c t) t (commitIndex (node c i))"
    using safe_invD(3) [OF inv] leading(2) [OF base inv(2) r(2)] r(3) by (simp add: node_commit_ok_def)
  then show ?thesis
    using evolves_backed [OF ev] r(4-6) commit_in_log [OF inv] step(3) by (auto simp: req_commit_ok_def)
qed

lemma commit_inv_step:
  assumes step: "cluster_step ms c c'" and inv: "safe_inv ms c"
  shows "commit_inv ms c'"
proof -
  note base = safe_invD(1) [OF inv]
  obtain k where ev: "evolves c c' k"
    using step_evolves [OF step base_invD(2,1,3) [OF base]] .
  note ev = ev step_append_resps [OF step]
  note same = node_commit_ok_same [OF safe_invD(3) [OF inv] ev] and put = commit_inv_put [OF inv ev]
  from step show ?thesis
  proof cases
    case (timeout i n' req)
    with onElectionTimeout_Some [OF timeout(4,3)] show ?thesis
      by (intro put [of i] same) (auto simp: messages_def)
  next
    case (request_vote req j n' resp)
    with HandleRequestVote_shape [OF request_vote(5)] show ?thesis
      by (intro put [of j] same) (auto simp: messages_def)
  next
    case (vote_reply j req resp i t n' granted)
    have "n' = node c i \<or> (\<exists>u > currentTerm (node c i). n' = step_down (node c i) u)"
      using vote_reply(7) by (cases rule: vote_response_cases) auto
    with vote_reply(1) show ?thesis
      by (intro put [of i] same) auto
  next
    case (count_votes i t n')
    with commit_count_votes [OF safe_invD(3) [OF inv count_votes(2)] ev, of t "map snd (ballot c i t)"] show ?thesis
      by (intro put [of i]) (auto split: if_splits)
  next
    case (propose i data n' idx t)
    with commit_propose [OF inv propose(2) ev, of data idx t] show ?thesis
      by (intro put [of i]) simp_all
  next
    case (replicate i p t req)
    with commit_replicate [OF inv replicate(2) ev replicate(3,4)] show ?thesis
      by (intro put [of i] same) auto
  next
    case (append j req n' resp)
    with append_commit [OF inv append(2,4), of c'] ev(2) show ?thesis
      by (intro put [of j]) simp_all
  next
    case (append_reply j req resp i n')
    with append_reply_commit [OF inv append_reply(4,2,3,5)] show ?thesis
      by (intro put [of i]) simp_all
  next
    case (restart i n')
    have "node_commit_ok ms c' i"
      by (simp add: restart(1) restart_Some [OF member_fields(6) [OF base_invD(1) [OF base] restart(2)] restart(3,4)]
          node_commit_ok_def handed_def messages_def backed_def fresh_node_def)
    with restart(1) show ?thesis
      by (intro put [of i]) simp_all
  next
    case (unblock i k n')
    with unblock_frame [OF unblock(3)] show ?thesis
      by (intro put [of i] same) (simp_all add: apply_frame_def handed_def messages_def)
  next
    case (receive i n' m)
    with receive_frame [OF receive(3)] show ?thesis
      by (intro put [of i] same) (auto simp: apply_frame_def handed_def messages_def)
  qed
qed

lemma reachable_safe_inv: "reachable ms c \<Longrightarrow> safe_inv ms c"
proof (induction rule: reachable.induct)
  case (start c)
  note r = reachable.start [OF start]
  have "cand_inv c" "commit_inv ms c" "complete_inv ms c"
    using start by (auto simp: cand_inv_def commit_inv_def complete_inv_def initial_def node_commit_ok_def
        backed_def handed_def messages_def open_at_def entry_at_def fresh_node_def)
  with reachable_members_ok [OF r] reachable_election_inv [OF r] reachable_log_inv [OF r] show ?case
    by (simp add: safe_inv_def base_inv_def)
next
  case (step c c')
  then have "base_inv ms c" "complete_inv ms c"
    by (simp_all add: safe_inv_def)
  with step.IH base_inv_step [OF step.hyps(2)] complete_inv_step [OF step.hyps(2)] commit_inv_step [OF step.hyps(2)]
  show ?case by (simp add: safe_inv_def)
qed

lemma chosen_later:
  assumes "(cluster_step ms)\<^sup>*\<^sup>* c c'" "reachable ms c" "chosen_at ms c V n"
  shows "chosen_at ms c' V n \<and> (\<forall>p \<le> n. llog c' V ! p = llog c V ! p)"
  using assms(1)
proof (induction rule: rtranclp_induct)
  case (step d d')
  have base: "base_inv ms d"
    using safe_invD(1) [OF reachable_safe_inv [OF reachable_steps [OF step.hyps(1) assms(2)]]] .
  obtain k where ev: "evolves d d' k"
    using step_evolves [OF step.hyps(2) base_invD(2,1,3) [OF base]] .
  have "leader d V \<noteq> None" "n < length (llog d V)"
    using step.IH by (auto simp: chosen_at_def entry_at_def)
  with evolves_llog(3) [OF ev this(1)] step.IH evolves_chosen [OF ev step_append_resps [OF step.hyps(2)]] show ?case
    by auto
qed (use assms(3) in simp)

lemma committed_later:
  assumes "(cluster_step ms)\<^sup>*\<^sup>* c c'" "reachable ms c" "committed ms c p e"
  shows "committed ms c' p e"
proof -
  obtain V n where "chosen_at ms c V n" "p \<le> n" "llog c V ! p = e"
    using assms(3) by (auto simp: committed_def)
  with chosen_later [OF assms(1,2)] show ?thesis
    unfolding committed_def by metis
qed

lemma node_committed:
  assumes "reachable ms c" "i \<in> set ms" "0 < p" "p \<le> commitIndex (node c i)"
  shows "committed ms c p (n_log (node c i) ! p)"
  using backed_committed(1) [OF _ assms(3,4)] safe_invD(3) [OF reachable_safe_inv [OF assms(1)] assms(2)]
  by (auto simp: node_commit_ok_def)

lemma committed_entry_index:
  assumes "reachable ms c" "committed ms c p e"
  shows "l_Index e = p"
proof -
  obtain V n k where V: "leader c V = Some k" "p < length (llog c V)" "llog c V ! p = e"
    using assms(2) by (auto simp: committed_def chosen_at_def entry_at_def)
  from good_logD(1) [OF good_log_llog [OF base_invD(3) [OF safe_invD(1) [OF reachable_safe_inv [OF assms(1)]]] V(1)]] V(2,3)
  show ?thesis by (auto simp: indexed_def)
qed

text \<open>A message a node has handed over carries a committed entry, and its index determines it.\<close>

lemma handed_command:
  assumes "reachable ms c" "i \<in> set ms" "m \<in> handed c i"
  shows "\<exists>e. 0 < l_Index e \<and> committed ms c (l_Index e) e \<and> m = apply_msg e"
proof -
  obtain p e where e: "0 < p" "committed ms c p e" "m = apply_msg e"
    using safe_invD(3) [OF reachable_safe_inv [OF assms(1)] assms(2)] assms(3) unfolding node_commit_ok_def by blast
  with committed_entry_index [OF assms(1) e(2)] show ?thesis
    by blast
qed

lemma handed_unique:
  assumes "reachable ms c" "(cluster_step ms)\<^sup>*\<^sup>* c c'" "i \<in> set ms" "j \<in> set ms"
    and "m \<in> handed c i" "m' \<in> handed c' j" "CommandIndex m = CommandIndex m'"
  shows "m = m'"
proof -
  note r' = reachable_steps [OF assms(2,1)]
  obtain e where e: "committed ms c (l_Index e) e" "m = apply_msg e"
    using handed_command [OF assms(1,3,5)] by blast
  obtain f where f: "committed ms c' (l_Index f) f" "m' = apply_msg f"
    using handed_command [OF r' assms(4,6)] by blast
  have "l_Index e = l_Index f"
    using assms(7) e(2) f(2) by (simp add: apply_msg_def)
  with committed_unique [OF safe_invD(2) [OF reachable_safe_inv [OF r']] committed_later [OF assms(2,1) e(1)], of f] e f
  show ?thesis by simp
qed

lemma append_total:
  assumes inv: "safe_inv ms c" and rq: "(j, req) \<in> append_reqs c"
  shows "HandleAppendEntries (node c j) req \<noteq> None"
proof (cases "currentTerm (node c j) \<le> ae_Term req \<and> ae_PrevLogIndex req < length (n_log (node c j)) \<and>
    l_Term (n_log (node c j) ! ae_PrevLogIndex req) = ae_PrevLogTerm req")
  case True
  note lg = base_invD(3) [OF safe_invD(1) [OF inv]]
  note rqo = log_invD(4) [OF lg rq]
  then have ok: "good_log c (n_log (node c j))" "length (n_log (node c j)) \<le> 2 ^ 63"
      "terms_le (currentTerm (node c j)) (n_log (node c j))"
    using log_invD(1) [OF lg, of j] by (auto simp: req_ok_def node_log_ok_def)
  have "good_log c (append_entries (Suc (ae_PrevLogIndex req)) (ae_Entries req) (n_log (node c j)))"
    using True by (intro merged_log(1) [OF lg rqo ok(1,2)] terms_le_mono [OF ok(3)]) auto
  from HandleAppendEntries_accepts [OF _ _ _ good_logD(1) [OF this]] True show ?thesis
    by auto
qed (auto simp: HandleAppendEntries_eq)

text \<open>Two nodes that have both committed a position hold the same entry there.\<close>

lemma commits_agree:
  assumes "reachable ms c" and "(cluster_step ms)\<^sup>*\<^sup>* c c'" and "i \<in> set ms" and "j \<in> set ms"
    and "p \<le> commitIndex (node c i)" and "p \<le> commitIndex (node c' j)"
  shows "p < length (n_log (node c i)) \<and> p < length (n_log (node c' j)) \<and>
    n_log (node c i) ! p = n_log (node c' j) ! p"
proof -
  note r' = reachable_steps [OF assms(2,1)]
  have len: "p < length (n_log (node c i))" "p < length (n_log (node c' j))"
    using commit_in_log [OF reachable_safe_inv [OF assms(1)] assms(3)]
      commit_in_log [OF reachable_safe_inv [OF r'] assms(4)] assms(5,6) by simp_all
  moreover have "n_log (node c i) ! p = n_log (node c' j) ! p"
  proof (cases "p = 0")
    case True
    have "good_log c (n_log (node c i))" "good_log c' (n_log (node c' j))"
      using log_invD(1) [OF reachable_log_inv [OF assms(1)] assms(3)]
        log_invD(1) [OF reachable_log_inv [OF r'] assms(4)] by (simp_all add: node_log_ok_def)
    from good_logD(3) [OF this(1)] good_logD(3) [OF this(2)] True show ?thesis by simp
  next
    case False
    then have "committed ms c' p (n_log (node c i) ! p)" "committed ms c' p (n_log (node c' j) ! p)"
      using committed_later [OF assms(2,1) node_committed [OF assms(1,3) _ assms(5)]]
        node_committed [OF r' assms(4) _ assms(6)] by simp_all
    with committed_unique [OF safe_invD(2) [OF reachable_safe_inv [OF r']]] show ?thesis
      by blast
  qed
  ultimately show ?thesis by blast
qed

section \<open>Properties\<close>

text \<open>Property C1. State machine safety: committed log prefixes never disagree. If a node has
  committed position \<open>p\<close> at some time of a run, and a node has committed it at that time or
  later, both hold the same entry at \<open>p\<close>, also when nodes restarted and leaders changed in
  between. Commit indexes always point into the log.\<close>

theorem state_machine_safety:
  assumes "reachable ms c" and "(cluster_step ms)\<^sup>*\<^sup>* c c'" and "i \<in> set ms" and "j \<in> set ms"
    and "p \<le> commitIndex (node c i)" and "p \<le> commitIndex (node c' j)"
  shows "p < length (n_log (node c i)) \<and> p < length (n_log (node c' j)) \<and>
    n_log (node c i) ! p = n_log (node c' j) ! p"
  using commits_agree [OF assms] .

theorem state_machine_safety_witness:
  "\<exists>c. reachable [''a'', ''b''] c \<and> commitIndex (node c ''a'') = 1 \<and> commitIndex (node c ''b'') = 1 \<and>
     n_log (node c ''a'') ! 1 = n_log (node c ''b'') ! 1"
proof -
  obtain c where c: "reachable [''a'', ''b''] c" "node c ''a'' = A4" "node c ''b'' = B3"
    using demo_run by blast
  with state_machine_safety [OF c(1) rtranclp.rtrancl_refl, of "''a''" "''b''" 1] show ?thesis
    by (auto simp: demo_end intro!: exI [of _ c])
qed

text \<open>Property C11. What the state machines receive: two commands with the same index that any two nodes hand
  over to their state machines, or that the state machines have received, at the same or at
  different times of a run, are the same.\<close>

theorem applied_commands_agree:
  assumes "reachable ms c" and "(cluster_step ms)\<^sup>*\<^sup>* c c'" and "i \<in> set ms" and "j \<in> set ms"
    and "m \<in> set (received c i @ applyCh (node c i) @ blocked (node c i))"
    and "m' \<in> set (received c' j @ applyCh (node c' j) @ blocked (node c' j))"
    and "CommandIndex m = CommandIndex m'"
  shows "Command m = Command m' \<and> CommandValid m \<and> 0 < CommandIndex m"
  using handed_command [OF assms(1,3), of m] handed_unique [OF assms(1-4) _ _ assms(7)] assms(5,6)
  by (auto simp: messages_def apply_msg_def)

theorem applied_commands_agree_witness:
  "\<exists>c. reachable [''a'', ''b''] c \<and> applyCh (node c ''a'') = [apply_msg demo_entry] \<and>
     Command (hd (applyCh (node c ''a''))) = Command (hd (applyCh (node c ''b'')))"
proof -
  obtain c where c: "reachable [''a'', ''b''] c" "node c ''a'' = A4" "node c ''b'' = B3"
    using demo_run by blast
  with applied_commands_agree [OF c(1) rtranclp.rtrancl_refl, of "''a''" "''b''" "apply_msg demo_entry" "apply_msg demo_entry"]
  show ?thesis
    by (auto simp: demo_end intro!: exI [of _ c])
qed

text \<open>Property C5. Leader completeness: a leader of the term in which a node committed a position, or of a
  later term, holds the committed entry at that position.\<close>

theorem leader_completeness:
  assumes "reachable ms c" and "(cluster_step ms)\<^sup>*\<^sup>* c c'" and "i \<in> set ms" and "j \<in> set ms"
    and "p \<le> commitIndex (node c i)" and "n_role (node c' j) = Leader"
    and "currentTerm (node c i) \<le> currentTerm (node c' j)"
  shows "p < length (n_log (node c' j)) \<and> n_log (node c' j) ! p = n_log (node c i) ! p"
proof -
  note r' = reachable_steps [OF assms(2,1)]
  note s' = reachable_safe_inv [OF r']
  have gl: "good_log c (n_log (node c i))" "good_log c' (n_log (node c' j))"
    using log_invD(1) [OF reachable_log_inv [OF assms(1)] assms(3)]
      log_invD(1) [OF reachable_log_inv [OF r'] assms(4)] by (simp_all add: node_log_ok_def)
  show ?thesis
  proof (cases "p = 0")
    case True
    with gl show ?thesis
      using good_logD(2,3) [OF gl(1)] good_logD(2,3) [OF gl(2)] by simp
  next
    case False
    let ?W = "currentTerm (node c' j)"
    note ld = leading [OF safe_invD(1) [OF s'] assms(4,6)]
    obtain V n where V: "V \<le> currentTerm (node c i)" "chosen_at ms c V n" "p \<le> n" "agrees c (n_log (node c i)) V (commitIndex (node c i))"
      using safe_invD(3) [OF reachable_safe_inv [OF assms(1)] assms(3)] False assms(5)
      by (auto simp: node_commit_ok_def backed_def intro: order_trans)
    have V': "chosen_at ms c' V n" "llog c' V ! p = llog c V ! p"
      using chosen_later [OF assms(2,1) V(2)] V(3) by blast+
    have "agrees c' (llog c' ?W) V n"
      using leader_agrees [OF safe_invD(2) [OF s'] chosen_open [OF V'(1)] ld(1)] V(1) assms(7) by simp
    with agrees_nth [OF this V(3)] agrees_nth [OF V(4) assms(5)] V'(2) V(3) ld(2) show ?thesis
      by (simp add: agrees_def)
  qed
qed

theorem leader_completeness_witness:
  "\<exists>c. reachable [''a'', ''b''] c \<and> commitIndex (node c ''b'') = 1 \<and> n_role (node c ''a'') = Leader \<and>
     n_log (node c ''a'') ! 1 = n_log (node c ''b'') ! 1"
proof -
  obtain c where c: "reachable [''a'', ''b''] c" "node c ''a'' = A4" "node c ''b'' = B3"
    using demo_run by blast
  with leader_completeness [OF c(1) rtranclp.rtrancl_refl, of "''b''" "''a''" 1] show ?thesis
    by (auto simp: demo_end intro!: exI [of _ c])
qed

text \<open>Property C12. The handlers of a cluster never panic: in every reachable state a timeout, a proposal, a
  vote request, a count of votes, and every append request and response in the network are
  handled to the end. No access to a log is out of range and no log is ever empty.\<close>

theorem cluster_never_panics:
  assumes "reachable ms c" and "i \<in> set ms"
  shows "onElectionTimeout (node c i) \<noteq> None \<and> Propose (node c i) data \<noteq> None \<and>
    HandleRequestVote (node c i) vreq \<noteq> None \<and> startElection (node c i) t results \<noteq> None \<and>
    (\<forall>req. (i, req) \<in> append_reqs c \<longrightarrow> HandleAppendEntries (node c i) req \<noteq> None) \<and>
    (\<forall>j req resp. (j, req, resp) \<in> append_resps c \<longrightarrow>
       replicate_response (node c i) j (ae_Term req) (ae_Entries req) resp \<noteq> None)"
proof (intro conjI allI impI)
  let ?n = "node c i"
  note safe = reachable_safe_inv [OF assms(1)]
  note base = safe_invD(1) [OF safe]
  have ix: "indexed (n_log ?n)" "n_log ?n \<noteq> []"
    using log_invD(1) [OF base_invD(3) [OF base] assms(2)] good_logD(1,2) by (auto simp: node_log_ok_def)
  show "onElectionTimeout ?n \<noteq> None" "Propose ?n data \<noteq> None" "startElection ?n t results \<noteq> None"
    using ix(2) by (auto simp: onElectionTimeout_def Propose_def startElection_def elected_def lastLogIndexLocked_def
        lastLogTermLocked_def Let_def split: option.splits)
  show "HandleRequestVote ?n vreq \<noteq> None"
    using ix(2) by (auto simp: HandleRequestVote_def lastLogIndexLocked_def lastLogTermLocked_def Let_def)
  show "replicate_response ?n j (ae_Term req) (ae_Entries req) resp \<noteq> None" for j req resp
    using maybeAdvance_result [of "?n\<lparr>matchIndex := (matchIndex ?n)(j := l_Index (last (ae_Entries req))),
         nextIndex := (nextIndex ?n)(j := u64 (l_Index (last (ae_Entries req)) + 1))\<rparr>"] ix(1)
    by (auto simp: replicate_response_def Let_def)
  show "HandleAppendEntries ?n req \<noteq> None" if "(i, req) \<in> append_reqs c" for req
    using append_total [OF safe that] .
qed

theorem cluster_never_panics_witness:
  "\<exists>c. reachable [''a'', ''b''] c \<and> n_role (node c ''a'') = Leader \<and> Propose (node c ''a'') [3] \<noteq> None"
proof -
  obtain c where c: "reachable [''a'', ''b''] c" "node c ''a'' = A4"
    using demo_run by blast
  with cluster_never_panics [OF c(1), of "''a''" "[3]"] show ?thesis
    by (auto simp: demo_end)
qed

end
