(* ===== verification/Delivery.thy ===== *)
theory Delivery
  imports CommitSafety "HOL-Library.Multiset"
begin

text \<open>
  The apply channel of a running node: between a start and the next one, the state machine is
  handed every entry up to \<open>lastApplied\<close> exactly once, and in log order as long as the
  channel's buffer has room for every message that is sent. The theory follows the messages through
  \<open>applyCommittedEntriesLocked\<close> (\<open>replication.go\<close>), the buffer, the waiting goroutines and the
  applier's receive.
\<close>

section \<open>What the handlers do to the channel\<close>

definition same_channel :: "Node \<Rightarrow> Node \<Rightarrow> bool" where
  "same_channel n n' \<longleftrightarrow> applyCh n' = applyCh n \<and> blocked n' = blocked n \<and> lastApplied n' = lastApplied n \<and>
     applyCap n' = applyCap n"

text \<open>Either nothing is handed over, or the entries up to a new commit index are.\<close>

definition hands_over :: "Node \<Rightarrow> Node \<Rightarrow> bool" where
  "hands_over n n' \<longleftrightarrow> (\<exists>m. same_channel n m \<and> commitIndex n \<le> commitIndex m \<and>
     (n' = m \<or> applyCommittedEntriesLocked m = Some n'))"

lemma hands_over_same: "same_channel n n' \<Longrightarrow> commitIndex n \<le> commitIndex n' \<Longrightarrow> hands_over n n'"
  by (auto simp: hands_over_def)

lemma hands_over_apply:
  "applyCommittedEntriesLocked m = Some n' \<Longrightarrow> same_channel n m \<Longrightarrow> commitIndex n \<le> commitIndex m \<Longrightarrow> hands_over n n'"
  by (auto simp: hands_over_def)

lemma same_channel_refl [simp]: "same_channel n n"
  by (simp add: same_channel_def)

lemma same_channel_update [simp]:
  "same_channel n (persistStateLocked n') \<longleftrightarrow> same_channel n n'" "same_channel n (step_down n' t) \<longleftrightarrow> same_channel n n'"
  "same_channel n (n'\<lparr>n_log := L\<rparr>) \<longleftrightarrow> same_channel n n'" "same_channel n (n'\<lparr>n_role := r\<rparr>) \<longleftrightarrow> same_channel n n'"
  "same_channel n (n'\<lparr>currentTerm := t\<rparr>) \<longleftrightarrow> same_channel n n'" "same_channel n (n'\<lparr>votedFor := v\<rparr>) \<longleftrightarrow> same_channel n n'"
  "same_channel n (n'\<lparr>nextIndex := f\<rparr>) \<longleftrightarrow> same_channel n n'" "same_channel n (n'\<lparr>matchIndex := g\<rparr>) \<longleftrightarrow> same_channel n n'"
  "same_channel n (n'\<lparr>commitIndex := x\<rparr>) \<longleftrightarrow> same_channel n n'"
  by (simp_all add: same_channel_def)

lemma same_channel_accepted [simp]: "same_channel n (accepted_term n req)" "same_channel n (merged_node n req)"
  by (simp_all add: accepted_term_def merged_node_def)

lemma advance_commit_hands:
  "advance_commit n m = Some n' \<Longrightarrow> hands_over n n'"
proof (induction m)
  case 0
  then show ?case by (auto intro: hands_over_same)
next
  case (Suc m)
  show ?case
  proof (cases "committable n (Suc m)")
    case True
    then have "applyCommittedEntriesLocked (n\<lparr>commitIndex := Suc m\<rparr>) = Some n'" "commitIndex n \<le> Suc m"
      using Suc.prems by (auto simp: committable_def Let_def)
    then show ?thesis by (intro hands_over_apply) auto
  next
    case False
    then have "advance_commit n m = Some n' \<or> n' = n"
      using Suc.prems by (auto simp: committable_def Let_def split: if_splits)
    with Suc.IH show ?thesis by (auto intro: hands_over_same)
  qed
qed

lemma replicate_response_hands:
  assumes "replicate_response n p t es resp = Some n'"
  shows "hands_over n n'"
  using assms
proof (cases rule: replicate_response_cases)
  case acked
  then have "\<exists>l. advance_commit (n\<lparr>matchIndex := (matchIndex n)(p := l_Index (last es)),
         nextIndex := (nextIndex n)(p := u64 (l_Index (last es) + 1))\<rparr>) l = Some n'"
    by (auto simp: maybeAdvanceCommitIndexLocked_def split: option.splits)
  then show ?thesis
    using advance_commit_hands by (fastforce simp: hands_over_def same_channel_def)
qed (auto intro: hands_over_same)

lemma HandleAppendEntries_hands:
  assumes "safe_inv ms c" "(j, req) \<in> append_reqs c" "HandleAppendEntries (node c j) req = Some (n', resp)"
  shows "hands_over (node c j) n'"
  using assms(3)
proof (cases rule: HandleAppendEntries_cases)
  case (merged l)
  note mc = merged_commit [OF assms(1,2) merged(1-3)]
  have "l = length (n_log (merged_node (node c j) req)) - 1"
    using merged(5) mc(1) by (simp add: lastLogIndexLocked_def split: if_splits)
  then have "ae_LeaderCommit req \<le> l"
    using mc(2) by simp
  with merged(6) show ?thesis
    by (cases "ae_LeaderCommit req > commitIndex (node c j)")
      (auto intro: hands_over_same hands_over_apply)
qed (auto intro: hands_over_same)

section \<open>The messages of a node\<close>

definition applied_entries :: "Node \<Rightarrow> ApplyMsg list" where
  "applied_entries n = map (\<lambda>q. apply_msg (n_log n ! q)) [1..<Suc (lastApplied n)]"

definition channel_ok :: "Node \<Rightarrow> ApplyMsg list \<Rightarrow> bool" where
  "channel_ok n rc \<longleftrightarrow> lastApplied n \<le> commitIndex n \<and>
     mset (rc @ applyCh n @ blocked n) = mset (applied_entries n) \<and>
     (lastApplied n \<le> applyCap n \<longrightarrow> blocked n = [] \<and> rc @ applyCh n = applied_entries n)"

lemma channel_okD:
  assumes "channel_ok n rc"
  shows "lastApplied n \<le> commitIndex n" "mset (rc @ applyCh n @ blocked n) = mset (applied_entries n)"
    "lastApplied n \<le> applyCap n \<Longrightarrow> blocked n = []" "lastApplied n \<le> applyCap n \<Longrightarrow> rc @ applyCh n = applied_entries n"
  using assms by (simp_all add: channel_ok_def)

lemma applyCommitted_mset:
  "applyCommittedEntriesLocked n = Some n' \<Longrightarrow>
    mset (applyCh n' @ blocked n') = mset (applyCh n @ blocked n) +
      mset (map (\<lambda>q. apply_msg (n_log n ! q)) [Suc (lastApplied n)..<Suc (commitIndex n)])"
proof (induction n rule: applyCommittedEntriesLocked.induct)
  case (1 n)
  show ?case
  proof (cases "lastApplied n < commitIndex n")
    case False
    with "1.prems" show ?thesis
      by (subst (asm) applyCommittedEntriesLocked.simps) auto
  next
    case True
    let ?n = "send_apply (n\<lparr>lastApplied := lastApplied n + 1\<rparr>) (apply_msg (n_log n ! (lastApplied n + 1)))"
    have lt: "lastApplied n + 1 < length (n_log n)"
      using "1.prems" True by (subst (asm) applyCommittedEntriesLocked.simps) (auto split: if_splits)
    then have "applyCommittedEntriesLocked ?n = Some n'"
      using "1.prems" True by (subst (asm) applyCommittedEntriesLocked.simps) simp
    moreover have "mset (applyCh ?n @ blocked ?n) = add_mset (apply_msg (n_log n ! (lastApplied n + 1))) (mset (applyCh n @ blocked n))"
      by (simp add: send_apply_def)
    moreover have "[Suc (lastApplied n)..<Suc (commitIndex n)] = Suc (lastApplied n) # [Suc (Suc (lastApplied n))..<Suc (commitIndex n)]"
      using True by (intro upt_conv_Cons) simp
    ultimately show ?thesis
      using "1.IH" [OF True lt] by (simp del: upt_Suc)
  qed
qed

text \<open>More entries of the same log.\<close>

lemma applied_entries_more:
  assumes "lastApplied n \<le> lastApplied n'" "\<And>q. 0 < q \<Longrightarrow> q \<le> lastApplied n \<Longrightarrow> n_log n' ! q = n_log n ! q"
  shows "applied_entries n' =
    applied_entries n @ map (\<lambda>q. apply_msg (n_log n' ! q)) [Suc (lastApplied n)..<Suc (lastApplied n')]"
proof -
  have "[1..<Suc (lastApplied n')] = [1..<Suc (lastApplied n)] @ [Suc (lastApplied n)..<Suc (lastApplied n')]"
    using upt_add_eq_append [of 1 "Suc (lastApplied n)" "lastApplied n' - lastApplied n"] assms(1) by (simp del: upt_Suc)
  moreover have "map (\<lambda>q. apply_msg (n_log n' ! q)) [1..<Suc (lastApplied n)] = applied_entries n"
    using assms(2) by (auto simp: applied_entries_def)
  ultimately show ?thesis
    by (simp add: applied_entries_def del: upt_Suc)
qed

lemma channel_ok_hands:
  assumes ok: "channel_ok n rc" and h: "hands_over n n'"
    and log: "\<And>q. 0 < q \<Longrightarrow> q \<le> lastApplied n \<Longrightarrow> n_log n' ! q = n_log n ! q"
  shows "channel_ok n' rc"
proof -
  obtain m where m: "same_channel n m" "commitIndex n \<le> commitIndex m" "n' = m \<or> applyCommittedEntriesLocked m = Some n'"
    using h by (auto simp: hands_over_def)
  note mf = m(1) [unfolded same_channel_def]
  from m(3) show ?thesis
  proof
    assume "n' = m"
    then have "applied_entries n' = applied_entries n"
      using applied_entries_more [of n n'] log mf by simp
    with ok mf m(2) \<open>n' = m\<close> show ?thesis
      by (simp add: channel_ok_def)
  next
    assume a: "applyCommittedEntriesLocked m = Some n'"
    note fr = applyCommitted_frame [OF a]
    have la: "lastApplied n' = commitIndex m" "lastApplied n \<le> commitIndex m" "n_log n' = n_log m" "applyCap n' = applyCap n"
        "commitIndex n' = commitIndex m"
      using fr mf channel_okD(1) [OF ok] m(2) by (simp_all add: apply_frame_def)
    let ?new = "map (\<lambda>q. apply_msg (n_log m ! q)) [Suc (lastApplied n)..<Suc (commitIndex m)]"
    have e: "applied_entries n' = applied_entries n @ ?new"
      using applied_entries_more [of n n'] log la by simp
    have "mset (rc @ applyCh n' @ blocked n') = mset (applied_entries n')"
      using applyCommitted_mset [OF a] channel_okD(2) [OF ok] mf e by (simp add: ac_simps del: upt_Suc)
    moreover have "blocked n' = [] \<and> rc @ applyCh n' = applied_entries n'" if "lastApplied n' \<le> applyCap n'"
    proof -
      have cap: "lastApplied n \<le> applyCap n" "commitIndex m \<le> applyCap n"
        using that la by simp_all
      note o = channel_okD(3,4) [OF ok cap(1)]
      have "length (applyCh n) \<le> lastApplied n"
        using arg_cong [OF o(2), of length] by (simp add: applied_entries_def del: upt_Suc)
      then have "blocked n' = []"
        using mf o(1) cap(2) la(2) by (intro applyCommitted_room [OF a]) simp_all
      with applyCommitted_messages [OF a] mf o e show ?thesis
        by (simp del: upt_Suc)
    qed
    ultimately show ?thesis
      using la by (simp add: channel_ok_def)
  qed
qed

lemma channel_ok_unblock:
  assumes "channel_ok n rc" "unblock_apply n k = Some n'"
  shows "channel_ok n' rc"
proof -
  have k: "k < length (blocked n)" and n': "n' = n\<lparr>applyCh := applyCh n @ [blocked n ! k],
      blocked := take k (blocked n) @ drop (Suc k) (blocked n)\<rparr>"
    using assms(2) by (auto simp: unblock_apply_def split: if_splits)
  have "mset (blocked n) = add_mset (blocked n ! k) (mset (take k (blocked n) @ drop (Suc k) (blocked n)))"
    using arg_cong [OF id_take_nth_drop [OF k], of mset] by simp
  moreover have "\<not> lastApplied n \<le> applyCap n"
    using channel_okD(3) [OF assms(1)] k by auto
  moreover have "applied_entries n' = applied_entries n"
    by (simp add: n' applied_entries_def)
  ultimately show ?thesis
    using channel_okD(1,2) [OF assms(1)] by (simp add: channel_ok_def n')
qed

lemma channel_ok_receive:
  assumes "channel_ok n rc" "receive_apply n = Some (n', m)"
  shows "channel_ok n' (rc @ [m])"
proof -
  note fr = receive_frame [OF assms(2)]
  have "applied_entries n' = applied_entries n"
    using fr(1,2) by (simp add: applied_entries_def apply_frame_def)
  with assms(1) fr show ?thesis
    by (simp add: channel_ok_def apply_frame_def)
qed

section \<open>The invariant\<close>

text \<open>The entries a node has handed over stay in its log as long as its commit index does not fall.\<close>

lemma applied_entries_kept:
  assumes "reachable ms c" "cluster_step ms c c'" "i \<in> set ms" "channel_ok (node c i) rc"
    and "hands_over (node c i) (node c' i)" "0 < q" "q \<le> lastApplied (node c i)"
  shows "n_log (node c' i) ! q = n_log (node c i) ! q"
proof -
  obtain m where m: "commitIndex (node c i) \<le> commitIndex m" "node c' i = m \<or> applyCommittedEntriesLocked m = Some (node c' i)"
    using assms(5) by (auto simp: hands_over_def)
  then have "commitIndex (node c' i) = commitIndex m"
    using applyCommitted_frame by (auto simp: apply_frame_def)
  with m(1) assms(7) channel_okD(1) [OF assms(4)] have "q \<le> commitIndex (node c i)" "q \<le> commitIndex (node c' i)"
    by simp_all
  with commits_agree [OF assms(1) _ assms(3,3), of c' q] assms(2) show ?thesis
    by (simp add: r_into_rtranclp)
qed

lemma startElection_channel: "startElection n t bs = Some n' \<Longrightarrow> same_channel n n' \<and> commitIndex n' = commitIndex n"
  by (auto simp: startElection_def elected_def init_leader_def same_channel_def split: option.splits if_splits)

lemma HandleRequestVote_channel: "HandleRequestVote n req = Some (n', resp) \<Longrightarrow> same_channel n n' \<and> commitIndex n' = commitIndex n"
  by (erule HandleRequestVote_cases) (auto simp: same_channel_def)

text \<open>What a step does to a node that it does not start anew.\<close>

lemma step_channel:
  assumes "cluster_step ms c c'" "safe_inv ms c"
  obtains (hands) "hands_over (node c i) (node c' i)" "received c' i = received c i"
  | (sent) k where "unblock_apply (node c i) k = Some (node c' i)" "received c' i = received c i"
  | (taken) m where "receive_apply (node c i) = Some (node c' i, m)" "received c' i = received c i @ [m]"
  | (fresh) "lastApplied (node c' i) = 0" "applyCh (node c' i) = []" "blocked (node c' i) = []" "received c' i = []"
proof -
  have here: thesis if "node c' i = n'" "same_channel (node c i) n'" "commitIndex (node c i) \<le> commitIndex n'" "received c' i = received c i" for n'
    using hands hands_over_same that by blast
  from assms(1) show thesis
  proof cases
    case (timeout k n' req)
    with onElectionTimeout_Some [OF timeout(4,3)] here [of "node c' i"] show thesis
      by (cases "i = k") auto
  next
    case (request_vote req j n' resp)
    with HandleRequestVote_channel [OF request_vote(5)] here [of "node c' i"] show thesis
      by (cases "i = j") auto
  next
    case (vote_reply j req resp k t n' granted)
    from vote_reply(7) have "same_channel (node c k) n' \<and> commitIndex n' = commitIndex (node c k)"
      by (cases rule: vote_response_cases) auto
    with vote_reply(1) here [of "node c' i"] show thesis
      by (cases "i = k") auto
  next
    case (count_votes k t n')
    with startElection_channel [OF count_votes(3)] here [of "node c' i"] show thesis
      by (cases "i = k") auto
  next
    case (propose k data n' idx t)
    with Propose_Some [OF propose(4)] here [of "node c' i"] show thesis
      by (cases "i = k") auto
  next
    case (replicate k p t req)
    with here [of "node c' i"] show thesis by auto
  next
    case (append j req n' resp)
    with HandleAppendEntries_hands [OF assms(2) append(2,4)] here [of "node c' i"] hands show thesis
      by (cases "i = j") auto
  next
    case (append_reply j req resp k n')
    with replicate_response_hands [OF append_reply(5)] here [of "node c' i"] hands show thesis
      by (cases "i = k") auto
  next
    case (restart k n')
    note n' = restart_Some [OF member_fields(6) [OF base_invD(1) [OF safe_invD(1) [OF assms(2)]] restart(2)] restart(3,4)]
    with restart(1) here [of "node c' i"] fresh show thesis
      by (cases "i = k") (auto simp: fresh_node_def)
  next
    case (unblock k b n')
    with here [of "node c' i"] show thesis
      using sent by (cases "i = k") auto
  next
    case (receive k n' m)
    with here [of "node c' i"] show thesis
      using taken by (cases "i = k") auto
  qed
qed

lemma reachable_channel_ok:
  "reachable ms c \<Longrightarrow> i \<in> set ms \<Longrightarrow> channel_ok (node c i) (received c i)"
proof (induction rule: reachable.induct)
  case (start c)
  then show ?case
    by (auto simp: initial_def channel_ok_def applied_entries_def fresh_node_def)
next
  case (step c c')
  note ok = step.IH [OF step.prems]
  from step.hyps(2) reachable_safe_inv [OF step.hyps(1)] show ?case
  proof (cases rule: step_channel [where i = i])
    case hands
    from channel_ok_hands [OF ok hands(1) applied_entries_kept [OF step.hyps step.prems ok hands(1)]] hands(2) show ?thesis
      by simp
  next
    case (sent k)
    with channel_ok_unblock [OF ok] show ?thesis by simp
  next
    case (taken m)
    with channel_ok_receive [OF ok] show ?thesis by simp
  next
    case fresh
    then show ?thesis by (simp add: channel_ok_def applied_entries_def)
  qed
qed

section \<open>Order\<close>

text \<open>No message has waited for room in the buffer since node \<open>i\<close> started: \<open>lastApplied\<close> is 0
  after a start, and in no state since then did a goroutine wait.\<close>

inductive unfilled :: "string list \<Rightarrow> string \<Rightarrow> Cluster \<Rightarrow> bool" for ms i where
  started: "reachable ms c \<Longrightarrow> lastApplied (node c i) = 0 \<Longrightarrow> unfilled ms i c"
| kept: "unfilled ms i c \<Longrightarrow> cluster_step ms c c' \<Longrightarrow> blocked (node c' i) = [] \<Longrightarrow> unfilled ms i c'"

lemma unfilled_reachable: "unfilled ms i c \<Longrightarrow> reachable ms c"
  by (induction rule: unfilled.induct) (auto intro: reachable.step)

text \<open>A handler that leaves no goroutine waiting appends the new entries to the buffer in order.\<close>

lemma hands_over_in_order:
  assumes ok: "channel_ok n rc" and h: "hands_over n n'" and b: "blocked n = []" "blocked n' = []"
    and log: "\<And>q. 0 < q \<Longrightarrow> q \<le> lastApplied n \<Longrightarrow> n_log n' ! q = n_log n ! q"
    and o: "rc @ applyCh n = applied_entries n"
  shows "rc @ applyCh n' = applied_entries n'"
proof -
  obtain m where m: "same_channel n m" "commitIndex n \<le> commitIndex m" "n' = m \<or> applyCommittedEntriesLocked m = Some n'"
    using h by (auto simp: hands_over_def)
  note mf = m(1) [unfolded same_channel_def]
  from m(3) show ?thesis
  proof
    assume "n' = m"
    then show ?thesis
      using applied_entries_more [of n n'] log mf o by simp
  next
    assume a: "applyCommittedEntriesLocked m = Some n'"
    have "lastApplied n' = commitIndex m" "lastApplied n \<le> commitIndex m" "n_log n' = n_log m"
      using applyCommitted_frame [OF a] mf channel_okD(1) [OF ok] m(2) by (simp_all add: apply_frame_def)
    with applied_entries_more [of n n'] log applyCommitted_messages [OF a] mf o b show ?thesis
      by (simp del: upt_Suc)
  qed
qed

lemma unfilled_order:
  "unfilled ms i c \<Longrightarrow> i \<in> set ms \<Longrightarrow>
    blocked (node c i) = [] \<and> received c i @ applyCh (node c i) = applied_entries (node c i)"
proof (induction rule: unfilled.induct)
  case (started c)
  then show ?case
    using channel_okD(2) [OF reachable_channel_ok [OF started.hyps(1) started.prems]]
    by (simp add: applied_entries_def)
next
  case (kept c c')
  note IH = kept.IH [OF kept.prems]
  note r = unfilled_reachable [OF kept.hyps(1)]
  note ok = reachable_channel_ok [OF r kept.prems]
  from kept.hyps(2) reachable_safe_inv [OF r] show ?case
  proof (cases rule: step_channel [where i = i])
    case hands
    have "received c i @ applyCh (node c' i) = applied_entries (node c' i)"
      using hands_over_in_order [OF ok hands(1)] applied_entries_kept [OF r kept.hyps(2) kept.prems ok hands(1)] IH kept.hyps(3)
      by blast
    with hands(2) kept.hyps(3) show ?thesis by simp
  next
    case (sent k)
    with IH show ?thesis by (auto simp: unblock_apply_def)
  next
    case (taken m)
    have "applied_entries (node c' i) = applied_entries (node c i)"
      using receive_frame [OF taken(1)] by (simp add: applied_entries_def apply_frame_def)
    with receive_frame [OF taken(1)] taken(2) IH kept.hyps(3) show ?thesis by simp
  next
    case fresh
    then show ?thesis by (simp add: applied_entries_def)
  qed
qed

section \<open>Properties\<close>

text \<open>Property C10. Exactly-once hand-over: in every reachable state the messages that the state machine of a node has
  received since the node started, those in the channel's buffer and those of the waiting
  goroutines are together the committed entries 1 to \<open>lastApplied\<close> of the node's log, each
  exactly once. As long as no goroutine has waited for room in the buffer since the node started (\<open>unfilled\<close>), the state machine
  receives the entries in log order and those it has not received yet are in the buffer in this order; this is so
  in particular while \<open>lastApplied\<close> does not exceed the capacity of the buffer.\<close>

theorem entries_delivered_once:
  assumes "reachable ms c" and "i \<in> set ms"
  shows "lastApplied (node c i) \<le> commitIndex (node c i) \<and> commitIndex (node c i) < length (n_log (node c i)) \<and>
    mset (received c i @ applyCh (node c i) @ blocked (node c i)) =
      mset (map (\<lambda>q. apply_msg (n_log (node c i) ! q)) [1..<Suc (lastApplied (node c i))]) \<and>
    (unfilled ms i c \<or> lastApplied (node c i) \<le> applyCap (node c i) \<longrightarrow> blocked (node c i) = [] \<and>
      received c i @ applyCh (node c i) = map (\<lambda>q. apply_msg (n_log (node c i) ! q)) [1..<Suc (lastApplied (node c i))])"
  using channel_okD [OF reachable_channel_ok [OF assms]] commit_in_log [OF reachable_safe_inv [OF assms(1)] assms(2)]
    unfilled_order [OF _ assms(2)]
  unfolding applied_entries_def by blast

theorem entries_delivered_once_witness:
  "\<exists>c. reachable [''a'', ''b''] c \<and> received c ''a'' = [apply_msg demo_entry] \<and>
     lastApplied (node c ''a'') = 1 \<and> n_log (node c ''a'') ! 1 = demo_entry"
proof -
  obtain c where c: "reachable [''a'', ''b''] c" "received c ''a'' = [apply_msg demo_entry]" "node c ''a'' = A4\<lparr>applyCh := []\<rparr>"
    using demo_received by blast
  have "lastApplied A4 = 1" "n_log A4 ! 1 = demo_entry" "applyCap A4 = 8"
    by (simp_all add: A4_def A3_def A2_def A1_def init_leader_def demo_fields)
  with entries_delivered_once [OF c(1), of "''a''"] c show ?thesis
    by (intro exI [of _ c]) simp
qed

end
