(* ===== verification/SkipList.thy ===== *)
theory SkipList
  imports WAL
begin

text \<open>
  The skip list of \<open>internal/storage/memtable.go\<close>, on an explicit heap.

  A pointer is an index into the list of allocated nodes (nodes are never freed), \<open>None\<close> is
  the nil pointer and node 0 is the head. \<open>get\<close>, \<open>put\<close> and \<open>iterate\<close> follow the forward
  pointers as the code does; a forward index out of range or a dereference of nil (a Go
  panic) and a loop that does not end are both the value \<open>None\<close>. Under the invariant
  \<open>sl_inv\<close> the operations always return, and they implement insertion into and lookup in
  the key-sorted list of entries, whatever levels the random number generator picks.
\<close>

section \<open>Nodes and the heap\<close>

record skipListNode =
  n_key :: bytes
  n_value :: slice
  n_op :: OpType
  forward :: "nat option list"

record skipList =
  heap :: "skipListNode list"
  level :: nat
  sl_length :: nat

definition maxSkipListLevel :: nat where "maxSkipListLevel = 16"

definition newSkipList :: skipList where
  "newSkipList =
     \<lparr>heap = [\<lparr>n_key = [], n_value = None, n_op = 0,
                forward = replicate maxSkipListLevel None\<rparr>],
      level = 1, sl_length = 0\<rparr>"

text \<open>\<open>randomLevel\<close>: \<open>rnd i\<close> is the outcome of the \<open>i\<close>-th test \<open>rand.Float64() < 0.5\<close>.\<close>

function random_from :: "(nat \<Rightarrow> bool) \<Rightarrow> nat \<Rightarrow> nat" where
  "random_from rnd lvl =
     (if lvl < maxSkipListLevel \<and> rnd (lvl - 1) then random_from rnd (Suc lvl) else lvl)"
  by pat_completeness auto
termination
  by (relation "measure (\<lambda>(rnd, lvl). maxSkipListLevel - lvl)") auto

declare random_from.simps [simp del]

definition randomLevel :: "(nat \<Rightarrow> bool) \<Rightarrow> nat" where
  "randomLevel rnd = random_from rnd 1"

text \<open>\<open>deref h a\<close> is the node at \<open>a\<close>; \<open>fwd h a i\<close> is \<open>a.forward[i]\<close>.\<close>

definition deref :: "skipListNode list \<Rightarrow> nat \<Rightarrow> skipListNode option" where
  "deref h a = (if a < length h then Some (h ! a) else None)"

definition fwd :: "skipListNode list \<Rightarrow> nat \<Rightarrow> nat \<Rightarrow> nat option option" where
  "fwd h a i =
     (case deref h a of
        None \<Rightarrow> None
      | Some n \<Rightarrow> if i < length (forward n) then Some (forward n ! i) else None)"

text \<open>The inner loop: \<open>for current.forward[i] != nil && current.forward[i].key < key\<close>.\<close>

partial_function (option) advance :: "skipListNode list \<Rightarrow> nat \<Rightarrow> bytes \<Rightarrow> nat \<Rightarrow> nat option" where
  "advance h i key current =
     (case fwd h current i of
        None \<Rightarrow> None
      | Some None \<Rightarrow> Some current
      | Some (Some nxt) \<Rightarrow>
          (case deref h nxt of
             None \<Rightarrow> None
           | Some n \<Rightarrow>
               if bytes_Compare (n_key n) key < 0 then advance h i key nxt else Some current))"

text \<open>The outer loop from level \<open>i - 1\<close> down to 0, recording \<open>update[i]\<close>.\<close>

fun descend ::
  "skipListNode list \<Rightarrow> bytes \<Rightarrow> nat \<Rightarrow> nat \<Rightarrow> nat option list \<Rightarrow> (nat \<times> nat option list) option" where
  "descend h key 0 current update = Some (current, update)"
| "descend h key (Suc i) current update =
     (case advance h i key current of
        None \<Rightarrow> None
      | Some c \<Rightarrow> descend h key i c (update[i := Some c]))"

text \<open>\<open>get\<close> keeps no \<open>update\<close> array: the same search with the array ignored.\<close>

fun descend_get :: "skipListNode list \<Rightarrow> bytes \<Rightarrow> nat \<Rightarrow> nat \<Rightarrow> nat option" where
  "descend_get h key 0 current = Some current"
| "descend_get h key (Suc i) current =
     (case advance h i key current of None \<Rightarrow> None | Some c \<Rightarrow> descend_get h key i c)"

definition sl_get :: "skipList \<Rightarrow> bytes \<Rightarrow> skipListNode option option" where
  "sl_get sl key =
     (case descend_get (heap sl) key (level sl) 0 of
        None \<Rightarrow> None
      | Some current \<Rightarrow>
          (case fwd (heap sl) current 0 of
             None \<Rightarrow> None
           | Some None \<Rightarrow> Some None
           | Some (Some c) \<Rightarrow>
               (case deref (heap sl) c of
                  None \<Rightarrow> None
                | Some candidate \<Rightarrow>
                    if n_key candidate = key then Some (Some candidate) else Some None)))"

text \<open>The linking loop of \<open>put\<close>, for levels \<open>i\<close> up to the new node's height.\<close>

fun link :: "nat \<Rightarrow> nat option list \<Rightarrow> nat list \<Rightarrow> skipListNode list \<Rightarrow> skipListNode list option" where
  "link new update [] h = Some h"
| "link new update (i # is) h =
     (if i < length update
      then (case update ! i of
              None \<Rightarrow> None
            | Some u \<Rightarrow>
                (case fwd h u i of
                   None \<Rightarrow> None
                 | Some nxt \<Rightarrow>
                     let h1 = h[new := (h ! new)\<lparr>forward := (forward (h ! new))[i := nxt]\<rparr>];
                         h2 = h1[u := (h1 ! u)\<lparr>forward := (forward (h1 ! u))[i := Some new]\<rparr>]
                     in link new update is h2))
      else None)"

definition raise_level :: "nat \<Rightarrow> nat \<Rightarrow> nat option list \<Rightarrow> nat option list" where
  "raise_level lvl newLevel update =
     fold (\<lambda>i u. u[i := Some 0]) [lvl..<newLevel] update"

definition sl_insert ::
  "skipList \<Rightarrow> bytes \<Rightarrow> slice \<Rightarrow> OpType \<Rightarrow> (nat \<Rightarrow> bool) \<Rightarrow> nat option list \<Rightarrow> skipList option" where
  "sl_insert sl key value op rnd update =
     (let newLevel = randomLevel rnd;
          update' = (if newLevel > level sl then raise_level (level sl) newLevel update
                     else update);
          lvl = (if newLevel > level sl then newLevel else level sl);
          new = length (heap sl);
          newNode = \<lparr>n_key = key, n_value = value, n_op = op,
                     forward = replicate newLevel None\<rparr>
      in case link new update' [0..<newLevel] (heap sl @ [newNode]) of
           None \<Rightarrow> None
         | Some h \<Rightarrow> Some \<lparr>heap = h, level = lvl, sl_length = sl_length sl + 1\<rparr>)"

definition sl_put ::
  "skipList \<Rightarrow> bytes \<Rightarrow> slice \<Rightarrow> OpType \<Rightarrow> (nat \<Rightarrow> bool) \<Rightarrow> skipList option" where
  "sl_put sl key value op rnd =
     (case descend (heap sl) key (level sl) 0 (replicate maxSkipListLevel None) of
        None \<Rightarrow> None
      | Some (current, update) \<Rightarrow>
          (case fwd (heap sl) current 0 of
             None \<Rightarrow> None
           | Some existing \<Rightarrow>
               (case existing of
                  Some e \<Rightarrow>
                    (case deref (heap sl) e of
                       None \<Rightarrow> None
                     | Some n \<Rightarrow>
                         if n_key n = key
                         then Some (sl\<lparr>heap := (heap sl)[e := n\<lparr>n_value := value, n_op := op\<rparr>]\<rparr>)
                         else sl_insert sl key value op rnd update)
                | None \<Rightarrow> sl_insert sl key value op rnd update)))"

record MemTableEntry =
  e_Key :: bytes
  e_Value :: slice
  e_Op :: OpType

definition node_entry :: "skipListNode \<Rightarrow> MemTableEntry" where
  "node_entry n = \<lparr>e_Key = n_key n, e_Value = n_value n, e_Op = n_op n\<rparr>"

partial_function (option) iterate_from ::
  "skipListNode list \<Rightarrow> nat option \<Rightarrow> MemTableEntry list \<Rightarrow> MemTableEntry list option" where
  "iterate_from h current entries =
     (case current of
        None \<Rightarrow> Some entries
      | Some a \<Rightarrow>
          (case deref h a of
             None \<Rightarrow> None
           | Some n \<Rightarrow>
               (case fwd h a 0 of
                  None \<Rightarrow> None
                | Some nxt \<Rightarrow> iterate_from h nxt (entries @ [node_entry n]))))"

definition sl_iterate :: "skipList \<Rightarrow> MemTableEntry list option" where
  "sl_iterate sl =
     (case fwd (heap sl) 0 0 of None \<Rightarrow> None | Some nxt \<Rightarrow> iterate_from (heap sl) nxt [])"

section \<open>Paths in the heap\<close>

definition height :: "skipListNode list \<Rightarrow> nat \<Rightarrow> nat" where
  "height h a = length (forward (h ! a))"

fun links :: "skipListNode list \<Rightarrow> nat \<Rightarrow> nat \<Rightarrow> nat list \<Rightarrow> bool" where
  "links h i a [] \<longleftrightarrow> True"
| "links h i a (b # bs) \<longleftrightarrow> fwd h a i = Some (Some b) \<and> links h i b bs"

definition lpath :: "skipListNode list \<Rightarrow> nat \<Rightarrow> nat \<Rightarrow> nat list \<Rightarrow> bool" where
  "lpath h i a as \<longleftrightarrow> links h i a as \<and> fwd h (last (a # as)) i = Some None"

lemma links_append: "links h i a (xs @ ys) \<longleftrightarrow> links h i a xs \<and> links h i (last (a # xs)) ys"
  by (induction xs arbitrary: a) auto

lemma lpath_append: "lpath h i a (xs @ ys) \<longleftrightarrow> links h i a xs \<and> lpath h i (last (a # xs)) ys"
  by (auto simp: lpath_def links_append last_append)

lemma lpath_Cons: "lpath h i a (b # bs) \<longleftrightarrow> fwd h a i = Some (Some b) \<and> lpath h i b bs"
  by (auto simp: lpath_def)

lemma lpath_Nil: "lpath h i a [] \<longleftrightarrow> fwd h a i = Some None"
  by (simp add: lpath_def)

lemma links_cong:
  "(\<And>x. x \<in> set (butlast (a # as)) \<Longrightarrow> fwd h' x i = fwd h x i) \<Longrightarrow> links h' i a as \<longleftrightarrow> links h i a as"
  by (induction as arbitrary: a) (auto split: if_splits)

lemma lpath_cong:
  assumes "\<And>x. x \<in> set (a # as) \<Longrightarrow> fwd h' x i = fwd h x i"
  shows "lpath h' i a as \<longleftrightarrow> lpath h i a as"
proof -
  have "links h' i a as \<longleftrightarrow> links h i a as"
    by (rule links_cong) (auto intro!: assms dest: in_set_butlastD split: if_splits)
  with assms show ?thesis
    by (auto simp: lpath_def)
qed

lemma lpath_in_heap: "lpath h i a as \<Longrightarrow> x \<in> set (a # as) \<Longrightarrow> x < length h \<and> i < height h x"
proof (induction as arbitrary: a)
  case Nil
  then show ?case
    by (auto simp: lpath_def fwd_def deref_def height_def split: if_splits option.splits)
next
  case (Cons b bs)
  then show ?case
    by (auto simp: lpath_Cons fwd_def [of h a] deref_def height_def split: if_splits option.splits)
qed

text \<open>The inner loop walks to the last node of the path whose key is smaller.\<close>

lemma advance_path:
  "\<lbrakk>lpath h i a (xs @ ys); \<forall>x \<in> set xs. n_key (h ! x) < k;
    \<forall>y \<in> set ys. k \<le> n_key (h ! y)\<rbrakk> \<Longrightarrow> advance h i k a = Some (last (a # xs))"
proof (induction xs arbitrary: a)
  case Nil
  show ?case
  proof (cases ys)
    case Nil
    with Nil.prems show ?thesis by (subst advance.simps) (simp add: lpath_Nil)
  next
    case (Cons y ys')
    with Nil.prems lpath_in_heap [of h i a ys y] show ?thesis
      by (subst advance.simps) (auto simp: lpath_Cons deref_def order_simps)
  qed
next
  case (Cons x xs)
  then have "x < length h"
    using lpath_in_heap [of h i a "(x # xs) @ ys" x] by simp
  with Cons show ?case
    by (subst advance.simps) (simp add: lpath_Cons deref_def order_simps)
qed

section \<open>The invariant\<close>

text \<open>
  \<open>sl_wf sl as\<close>: the allocated nodes other than the head are \<open>as\<close>, in strictly increasing
  order of their keys, and for every level \<open>i\<close> the forward pointers of that level thread
  exactly the nodes of \<open>as\<close> that are taller than \<open>i\<close>, in this order.
\<close>

abbreviation lane :: "skipListNode list \<Rightarrow> nat \<Rightarrow> nat list \<Rightarrow> nat list" where
  "lane h i as \<equiv> filter (\<lambda>a. i < height h a) as"

definition node_keys :: "skipListNode list \<Rightarrow> nat list \<Rightarrow> bytes list" where
  "node_keys h as = map (\<lambda>a. n_key (h ! a)) as"

definition sl_wf :: "skipList \<Rightarrow> nat list \<Rightarrow> bool" where
  "sl_wf sl as \<longleftrightarrow>
     heap sl \<noteq> [] \<and> height (heap sl) 0 = maxSkipListLevel \<and>
     1 \<le> level sl \<and> level sl \<le> maxSkipListLevel \<and>
     set as = {1..<length (heap sl)} \<and>
     sorted_wrt (<) (node_keys (heap sl) as) \<and>
     (\<forall>a \<in> set as. 1 \<le> height (heap sl) a \<and> height (heap sl) a \<le> level sl) \<and>
     (\<forall>i < maxSkipListLevel. lpath (heap sl) i 0 (lane (heap sl) i as)) \<and>
     sl_length sl = length as"

definition sl_inv :: "skipList \<Rightarrow> bool" where
  "sl_inv sl \<longleftrightarrow> (\<exists>as. sl_wf sl as)"

definition sl_entries :: "skipListNode list \<Rightarrow> nat list \<Rightarrow> MemTableEntry list" where
  "sl_entries h as = map (\<lambda>a. node_entry (h ! a)) as"

lemma sl_wf_new: "sl_wf newSkipList []"
  by (auto simp: sl_wf_def newSkipList_def height_def maxSkipListLevel_def node_keys_def
      lpath_def fwd_def deref_def)

lemma node_keys_distinct: "sorted_wrt (<) (node_keys h as) \<Longrightarrow> distinct as"
  unfolding node_keys_def
  by (induction as) auto

lemma lane_0:
  assumes "sl_wf sl as" and "set xs \<subseteq> set as"
  shows "lane (heap sl) 0 xs = xs"
proof (rule filter_True)
  show "\<forall>x \<in> set xs. 0 < height (heap sl) x"
    using assms by (fastforce simp: sl_wf_def)
qed

lemma lane_level:
  assumes "sl_wf sl as" and "set xs \<subseteq> set as" and "level sl \<le> i"
  shows "lane (heap sl) i xs = []"
  using assms by (fastforce simp: sl_wf_def filter_empty_conv)

text \<open>The search key splits the nodes into those before it and those from it on.\<close>

lemma key_split:
  assumes "sorted_wrt (<) (node_keys h as)"
  obtains xs ys where "as = xs @ ys" "\<forall>x \<in> set xs. n_key (h ! x) < k" "\<forall>y \<in> set ys. k \<le> n_key (h ! y)"
proof
  let ?P = "\<lambda>a. n_key (h ! a) < k"
  show "as = takeWhile ?P as @ dropWhile ?P as"
    by simp
  show "\<forall>x \<in> set (takeWhile ?P as). n_key (h ! x) < k"
    by (auto dest: set_takeWhileD)
  show "\<forall>y \<in> set (dropWhile ?P as). k \<le> n_key (h ! y)"
    using assms unfolding node_keys_def
    by (induction as) (auto simp: not_less intro: order_trans less_imp_le)
qed

lemma sl_wf_lane_path:
  assumes wf: "sl_wf sl (xs @ ys)" and i: "i < maxSkipListLevel"
    and cur: "cur = last (0 # lane (heap sl) (Suc i) xs)"
  shows "\<exists>qs. lpath (heap sl) i cur (qs @ lane (heap sl) i ys) \<and> set qs \<subseteq> set xs
    \<and> last (cur # qs) = last (0 # lane (heap sl) i xs)"
proof -
  let ?l = "lane (heap sl)"
  have all: "lpath (heap sl) i 0 (?l i xs @ ?l i ys)"
    using wf i by (simp add: sl_wf_def)
  obtain ps qs where pq: "?l i xs = ps @ qs" "cur = last (0 # ps)"
  proof (cases "?l (Suc i) xs = []")
    case True
    with cur that [of "[]" "?l i xs"] show thesis by simp
  next
    case False
    then have "cur \<in> set (?l (Suc i) xs)"
      using cur last_in_set [OF False] by (simp del: set_filter)
    then have "cur \<in> set (?l i xs)" by auto
    then obtain ps qs where "?l i xs = (ps @ [cur]) @ qs"
      by (metis append.assoc append_Cons append_Nil split_list)
    with that show thesis by (metis last_ConsR last_snoc snoc_eq_iff_butlast)
  qed
  have "lpath (heap sl) i cur (qs @ ?l i ys)"
    using all lpath_append [of "heap sl" i 0 ps "qs @ ?l i ys"] pq by simp
  moreover have "set qs \<subseteq> set xs"
  proof -
    have "set qs \<subseteq> set (?l i xs)"
      by (simp add: pq(1))
    then show ?thesis by auto
  qed
  moreover have "last (cur # qs) = last (0 # ?l i xs)"
    using pq by (cases qs) (auto simp: last_append)
  ultimately show ?thesis by blast
qed

lemma advance_lane:
  assumes wf: "sl_wf sl (xs @ ys)" and i: "i < maxSkipListLevel"
    and "\<forall>x \<in> set xs. n_key (heap sl ! x) < k" "\<forall>y \<in> set ys. k \<le> n_key (heap sl ! y)"
  shows "advance (heap sl) i k (last (0 # lane (heap sl) (Suc i) xs))
    = Some (last (0 # lane (heap sl) i xs))"
proof -
  obtain qs where qs: "lpath (heap sl) i (last (0 # lane (heap sl) (Suc i) xs)) (qs @ lane (heap sl) i ys)"
    "set qs \<subseteq> set xs"
    "last (last (0 # lane (heap sl) (Suc i) xs) # qs) = last (0 # lane (heap sl) i xs)"
    using sl_wf_lane_path [OF wf i refl] by blast
  have "advance (heap sl) i k (last (0 # lane (heap sl) (Suc i) xs))
      = Some (last (last (0 # lane (heap sl) (Suc i) xs) # qs))"
    using qs(2) assms(3,4) by (intro advance_path [OF qs(1)]) auto
  then show ?thesis by (simp only: qs(3))
qed

lemma descend_lane:
  assumes wf: "sl_wf sl (xs @ ys)" and "n \<le> maxSkipListLevel"
    and "\<forall>x \<in> set xs. n_key (heap sl ! x) < k" "\<forall>y \<in> set ys. k \<le> n_key (heap sl ! y)"
    and "length upd = maxSkipListLevel"
  shows "\<exists>upd'. descend (heap sl) k n (last (0 # lane (heap sl) n xs)) upd
      = Some (last (0 # lane (heap sl) 0 xs), upd') \<and> length upd' = maxSkipListLevel \<and>
      (\<forall>i < maxSkipListLevel. upd' ! i =
         (if i < n then Some (last (0 # lane (heap sl) i xs)) else upd ! i))"
  using assms(2,5)
proof (induction n arbitrary: upd)
  case 0
  then show ?case by simp
next
  case (Suc n)
  let ?u = "upd[n := Some (last (0 # lane (heap sl) n xs))]"
  have adv: "advance (heap sl) n k (last (0 # lane (heap sl) (Suc n) xs))
      = Some (last (0 # lane (heap sl) n xs))"
    using Suc.prems(1) assms by (intro advance_lane) auto
  have "n \<le> maxSkipListLevel" and "length ?u = maxSkipListLevel"
    using Suc.prems by simp_all
  from Suc.IH [OF this] adv Suc.prems show ?case
    by (auto simp: less_Suc_eq nth_list_update)
qed

lemma descend_get_eq: "descend_get h k n a = map_option fst (descend h k n a upd)"
  by (induction n arbitrary: a upd) (auto split: option.splits)

lemma sl_search:
  assumes wf: "sl_wf sl (xs @ ys)"
    and "\<forall>x \<in> set xs. n_key (heap sl ! x) < k" "\<forall>y \<in> set ys. k \<le> n_key (heap sl ! y)"
  shows "\<exists>upd. descend (heap sl) k (level sl) 0 (replicate maxSkipListLevel None)
      = Some (last (0 # xs), upd) \<and> length upd = maxSkipListLevel \<and>
      (\<forall>i < maxSkipListLevel. upd ! i =
         (if i < level sl then Some (last (0 # lane (heap sl) i xs)) else None))"
proof -
  have "lane (heap sl) (level sl) xs = []" "lane (heap sl) 0 xs = xs"
    using lane_level [OF wf] lane_0 [OF wf] by auto
  moreover have "level sl \<le> maxSkipListLevel"
    using wf by (simp add: sl_wf_def)
  ultimately show ?thesis
    using descend_lane [OF wf, of "level sl" k "replicate maxSkipListLevel None"] assms(2,3)
    by (auto cong: if_cong)
qed

lemma sl_search_next:
  assumes wf: "sl_wf sl (xs @ ys)"
  shows "fwd (heap sl) (last (0 # xs)) 0 = Some (case ys of [] \<Rightarrow> None | y # _ \<Rightarrow> Some y)"
proof -
  have "lane (heap sl) 0 (xs @ ys) = xs @ ys"
    using lane_0 [OF wf] by blast
  moreover have "lpath (heap sl) 0 0 (lane (heap sl) 0 (xs @ ys))"
    using wf by (simp add: sl_wf_def maxSkipListLevel_def)
  ultimately have "lpath (heap sl) 0 0 (xs @ ys)"
    by simp
  then have "lpath (heap sl) 0 (last (0 # xs)) ys"
    by (simp only: lpath_append)
  then show ?thesis
    by (cases ys) (simp_all add: lpath_Nil lpath_Cons)
qed

lemma sl_wf_in_heap: "sl_wf sl as \<Longrightarrow> a \<in> set as \<Longrightarrow> 0 < a \<and> a < length (heap sl)"
  by (auto simp: sl_wf_def)

lemma sl_wf_sorted: "sl_wf sl as \<Longrightarrow> sorted_wrt (<) (node_keys (heap sl) as)"
  by (simp add: sl_wf_def)

lemma sl_wf_distinct: "sl_wf sl as \<Longrightarrow> distinct as"
  by (rule node_keys_distinct) (rule sl_wf_sorted)

lemma sl_wf_path: "sl_wf sl as \<Longrightarrow> i < maxSkipListLevel \<Longrightarrow> lpath (heap sl) i 0 (lane (heap sl) i as)"
  by (simp add: sl_wf_def)

section \<open>Lookup\<close>

definition find_entry :: "bytes \<Rightarrow> MemTableEntry list \<Rightarrow> MemTableEntry option" where
  "find_entry k es = find (\<lambda>e. e_Key e = k) es"

definition keys_sorted :: "MemTableEntry list \<Rightarrow> bool" where
  "keys_sorted es \<longleftrightarrow> sorted_wrt (<) (map e_Key es)"

lemma node_entry_key [simp]: "e_Key (node_entry n) = n_key n"
  by (simp add: node_entry_def)

lemma keys_sorted_entries: "keys_sorted (sl_entries h as) \<longleftrightarrow> sorted_wrt (<) (node_keys h as)"
  by (simp add: keys_sorted_def sl_entries_def node_keys_def comp_def)

lemma find_entry_above: "\<forall>e \<in> set es. k < e_Key e \<Longrightarrow> find_entry k es = None"
  unfolding find_entry_def by (induction es) auto

lemma find_entry_append:
  "\<forall>e \<in> set xs. e_Key e < k \<Longrightarrow> find_entry k (xs @ ys) = find_entry k ys"
  unfolding find_entry_def by (induction xs) auto

lemma sl_get_correct:
  assumes wf: "sl_wf sl as"
  shows "\<exists>r. sl_get sl k = Some r \<and>
    map_option node_entry r = find_entry k (sl_entries (heap sl) as)"
proof -
  let ?h = "heap sl"
  have srt: "sorted_wrt (<) (node_keys ?h as)"
    using wf by (simp add: sl_wf_def)
  obtain xs ys where as: "as = xs @ ys" and lo: "\<forall>x \<in> set xs. n_key (?h ! x) < k"
    and hi: "\<forall>y \<in> set ys. k \<le> n_key (?h ! y)"
    using key_split [OF srt] .
  have wf': "sl_wf sl (xs @ ys)"
    using wf as by simp
  obtain upd where "descend ?h k (level sl) 0 (replicate maxSkipListLevel None)
      = Some (last (0 # xs), upd)"
    using sl_search [OF wf' lo hi] by blast
  then have d: "descend_get ?h k (level sl) 0 = Some (last (0 # xs))"
    by (simp add: descend_get_eq [where upd = "replicate maxSkipListLevel None"])
  note nxt = sl_search_next [OF wf']
  have find: "find_entry k (sl_entries ?h as) = find_entry k (sl_entries ?h ys)"
    using lo by (simp add: as sl_entries_def) (subst find_entry_append, auto)
  show ?thesis
  proof (cases ys)
    case Nil
    then show ?thesis
      using d nxt find by (simp add: sl_get_def sl_entries_def find_entry_def)
  next
    case (Cons y ys')
    have y: "deref ?h y = Some (?h ! y)"
      using sl_wf_in_heap [OF wf', of y] Cons by (simp add: deref_def)
    have "find_entry k (sl_entries ?h ys') = None"
      using srt hi as Cons by (intro find_entry_above)
        (fastforce simp: node_keys_def sl_entries_def sorted_wrt_append)
    then show ?thesis
      using d nxt find y Cons by (simp add: sl_get_def sl_entries_def find_entry_def)
  qed
qed

lemma iterate_path:
  "\<lbrakk>lpath h 0 a as; a < length h\<rbrakk> \<Longrightarrow>
    iterate_from h (Some a) es = Some (es @ sl_entries h (a # as))"
proof (induction as arbitrary: a es)
  case Nil
  then show ?case
    by (subst iterate_from.simps) (simp add: lpath_Nil deref_def sl_entries_def iterate_from.simps)
next
  case (Cons b bs)
  then have "b < length h"
    using lpath_in_heap [of h 0 a "b # bs" b] by simp
  with Cons show ?case
    by (subst iterate_from.simps) (simp add: lpath_Cons deref_def sl_entries_def)
qed

lemma sl_iterate_correct:
  assumes wf: "sl_wf sl as"
  shows "sl_iterate sl = Some (sl_entries (heap sl) as)"
proof -
  have p: "lpath (heap sl) 0 0 as"
    using wf lane_0 [OF wf subset_refl] unfolding sl_wf_def maxSkipListLevel_def
    by (metis zero_less_numeral)
  show ?thesis
  proof (cases as)
    case Nil
    with p show ?thesis
      by (simp add: sl_iterate_def lpath_Nil sl_entries_def iterate_from.simps)
  next
    case (Cons b bs)
    moreover have "b < length (heap sl)"
      using sl_wf_in_heap [OF wf, of b] Cons by simp
    ultimately show ?thesis
      using p iterate_path [of "heap sl" b bs "[]"] by (simp add: sl_iterate_def lpath_Cons)
  qed
qed

section \<open>Insertion\<close>

text \<open>The specification of \<open>put\<close>: insertion or replacement in a key-sorted list.\<close>

fun put_entry :: "MemTableEntry \<Rightarrow> MemTableEntry list \<Rightarrow> MemTableEntry list" where
  "put_entry e [] = [e]"
| "put_entry e (x # xs) =
     (if e_Key e < e_Key x then e # x # xs
      else if e_Key e = e_Key x then e # xs
      else x # put_entry e xs)"

lemma put_entry_append:
  "\<forall>x \<in> set xs. e_Key x < e_Key e \<Longrightarrow> put_entry e (xs @ ys) = xs @ put_entry e ys"
  by (induction xs) auto

lemma set_put_entry: "e_Key ` set (put_entry e es) = insert (e_Key e) (e_Key ` set es)"
  by (induction es) auto

lemma put_entry_sorted: "keys_sorted es \<Longrightarrow> keys_sorted (put_entry e es)"
proof (induction es)
  case Nil
  show ?case by (simp add: keys_sorted_def)
next
  case (Cons x es)
  have "\<forall>y \<in> e_Key ` set (put_entry e es). e_Key x < y" if "e_Key x < e_Key e"
    using that Cons.prems by (auto simp: set_put_entry keys_sorted_def)
  with Cons show ?case
    by (auto simp: keys_sorted_def)
qed

lemma find_put_entry:
  "keys_sorted es \<Longrightarrow>
    find_entry k (put_entry e es) = (if k = e_Key e then Some e else find_entry k es)"
  by (induction es) (auto simp: find_entry_def keys_sorted_def)

text \<open>Replacing a node's value and operation changes no pointer and no key.\<close>

lemma sl_wf_set_value:
  fixes v op
  assumes wf: "sl_wf sl (xs @ y # ys)"
  defines "h \<equiv> (heap sl)[y := (heap sl ! y)\<lparr>n_value := v, n_op := op\<rparr>]"
  shows "sl_wf (sl\<lparr>heap := h\<rparr>) (xs @ y # ys)"
    and "sl_entries h (xs @ y # ys) = sl_entries (heap sl) xs
      @ \<lparr>e_Key = n_key (heap sl ! y), e_Value = v, e_Op = op\<rparr> # sl_entries (heap sl) ys"
proof -
  have y: "y < length (heap sl)"
    using sl_wf_in_heap [OF wf, of y] by simp
  have frame: "n_key (h ! a) = n_key (heap sl ! a)" "height h a = height (heap sl) a"
      "fwd h a i = fwd (heap sl) a i" for a i
    using y by (auto simp: h_def height_def fwd_def deref_def nth_list_update)
  have paths: "lpath h i a as \<longleftrightarrow> lpath (heap sl) i a as" for i a as
    by (rule lpath_cong) (simp add: frame)
  have len: "length h = length (heap sl)" "h \<noteq> [] \<longleftrightarrow> heap sl \<noteq> []"
    by (simp_all add: h_def)
  have "sl_wf (sl\<lparr>heap := h\<rparr>) as \<longleftrightarrow> sl_wf sl as" for as
    by (simp add: sl_wf_def frame node_keys_def paths len)
  with wf show "sl_wf (sl\<lparr>heap := h\<rparr>) (xs @ y # ys)"
    by blast
  have "distinct (xs @ y # ys)"
    using wf by (rule sl_wf_distinct)
  then have other: "h ! a = heap sl ! a" if "a \<in> set xs \<union> set ys" for a
    using that by (cases "a = y") (auto simp: h_def)
  show "sl_entries h (xs @ y # ys) = sl_entries (heap sl) xs
      @ \<lparr>e_Key = n_key (heap sl ! y), e_Value = v, e_Op = op\<rparr> # sl_entries (heap sl) ys"
    using y by (simp add: sl_entries_def other) (simp add: h_def node_entry_def)
qed

text \<open>
  The linking loop: on the levels it visits, the predecessors point to the new node and the
  new node to their old successors; nothing else changes.
\<close>

definition linked_fwd :: "nat \<Rightarrow> (nat \<Rightarrow> nat) \<Rightarrow> nat set \<Rightarrow> skipListNode list \<Rightarrow> nat \<Rightarrow> nat \<Rightarrow> nat option option" where
  "linked_fwd new u I h a i =
     (if i \<in> I \<and> a = u i then Some (Some new)
      else if i \<in> I \<and> a = new then fwd h (u i) i
      else fwd h a i)"

definition same_nodes :: "skipListNode list \<Rightarrow> skipListNode list \<Rightarrow> bool" where
  "same_nodes h h' \<longleftrightarrow> length h' = length h \<and>
     (\<forall>a. node_entry (h' ! a) = node_entry (h ! a) \<and> height h' a = height h a)"

lemma set_forward_frame:
  fixes i x
  assumes "a < length h"
  defines "h' \<equiv> h[a := (h ! a)\<lparr>forward := (forward (h ! a))[i := x]\<rparr>]"
  shows "same_nodes h h'"
    and "i < height h a \<Longrightarrow> fwd h' b j = (if b = a \<and> j = i then Some x else fwd h b j)"
  using assms(1)
  by (auto simp: h'_def same_nodes_def node_entry_def height_def fwd_def deref_def nth_list_update)

lemma link_correct:
  assumes "distinct is" "new < length h"
    and "\<And>i. i \<in> set is \<Longrightarrow> i < length upd \<and> upd ! i = Some (u i) \<and> u i < length h
      \<and> u i \<noteq> new \<and> i < height h (u i) \<and> i < height h new"
  shows "\<exists>h'. link new upd is h = Some h' \<and> same_nodes h h' \<and>
    (\<forall>a i. fwd h' a i = linked_fwd new u (set is) h a i)"
  using assms
proof (induction "is" arbitrary: h)
  case Nil
  then show ?case by (simp add: same_nodes_def linked_fwd_def)
next
  case (Cons i js)
  note i = Cons.prems(3) [of i, simplified]
  obtain nxt where nxt: "fwd h (u i) i = Some nxt"
    using i by (auto simp: fwd_def deref_def height_def)
  define h1 where "h1 = h[new := (h ! new)\<lparr>forward := (forward (h ! new))[i := nxt]\<rparr>]"
  define h2 where "h2 = h1[u i := (h1 ! u i)\<lparr>forward := (forward (h1 ! u i))[i := Some new]\<rparr>]"
  have h1: "same_nodes h h1" "fwd h1 b j = (if b = new \<and> j = i then Some nxt else fwd h b j)" for b j
    unfolding h1_def using Cons.prems(2) i by (auto intro: set_forward_frame set_forward_frame(2) [THEN trans])
  have "u i < length h1" "i < height h1 (u i)"
    using h1(1) i by (simp_all add: same_nodes_def)
  then have h2: "same_nodes h1 h2"
      "fwd h2 b j = (if b = u i \<and> j = i then Some (Some new) else fwd h1 b j)" for b j
    unfolding h2_def by (auto intro: set_forward_frame set_forward_frame(2) [THEN trans])
  have frame: "same_nodes h h2"
    using h1(1) h2(1) by (simp add: same_nodes_def)
  have prem: "i' < length upd \<and> upd ! i' = Some (u i') \<and> u i' < length h2
      \<and> u i' \<noteq> new \<and> i' < height h2 (u i') \<and> i' < height h2 new" if "i' \<in> set js" for i'
    using Cons.prems(3) [of i'] that frame by (simp add: same_nodes_def)
  have "distinct js" "new < length h2"
    using Cons.prems(1,2) frame by (simp_all add: same_nodes_def)
  from Cons.IH [OF this prem] obtain h' where h': "link new upd js h2 = Some h'" "same_nodes h2 h'"
      "\<And>a j. fwd h' a j = linked_fwd new u (set js) h2 a j"
    by blast
  have "link new upd (i # js) h = Some h'"
    using i nxt h'(1) by (simp add: Let_def h1_def h2_def)
  moreover have "same_nodes h h'"
    using frame h'(2) by (simp add: same_nodes_def)
  moreover have "fwd h' a j = linked_fwd new u (set (i # js)) h a j" for a j
    using Cons.prems(1) i nxt by (auto simp: h'(3) linked_fwd_def h1(2) h2(2))
  ultimately show ?case by blast
qed

lemma lpath_linked:
  assumes p: "lpath h i 0 (xs @ ys)" and d: "distinct (0 # xs @ ys)" and new: "new \<notin> set (0 # xs @ ys)"
    and f: "\<And>a. fwd h' a i = (if a = last (0 # xs) then Some (Some new)
      else if a = new then fwd h (last (0 # xs)) i else fwd h a i)"
  shows "lpath h' i 0 (xs @ new # ys)"
proof -
  have px: "links h i 0 xs" "lpath h i (last (0 # xs)) ys"
    using p by (simp_all only: lpath_append)
  have u: "last (0 # xs) \<in> set (0 # xs)"
    by (rule last_in_set) simp
  have "links h' i 0 xs"
  proof (rule links_cong [THEN iffD2, OF _ px(1)])
    fix x
    assume x: "x \<in> set (butlast (0 # xs))"
    have "butlast (0 # xs) @ [last (0 # xs)] = 0 # xs"
      by (rule append_butlast_last_id) simp
    moreover have "distinct (0 # xs)"
      using d by simp
    ultimately have "distinct (butlast (0 # xs) @ [last (0 # xs)])"
      by (simp only:)
    with x have "x \<noteq> last (0 # xs)" by auto
    moreover have "x \<noteq> new"
      using x new by (metis UnCI in_set_butlastD set_append append_Cons)
    ultimately show "fwd h' x i = fwd h x i"
      by (simp add: f)
  qed
  moreover have "lpath h' i new ys"
  proof (cases ys)
    case Nil
    with px(2) u new show ?thesis by (auto simp: lpath_Nil f)
  next
    case (Cons y zs)
    have "lpath h' i y zs"
    proof (rule lpath_cong [THEN iffD2])
      show "lpath h i y zs"
        using px(2) Cons by (simp add: lpath_Cons)
      fix x
      assume x: "x \<in> set (y # zs)"
      have "x \<noteq> last (0 # xs)"
        using u d x Cons by (metis Cons_eq_appendI IntI distinct_append empty_iff)
      moreover have "x \<noteq> new"
        using new x Cons by auto
      ultimately show "fwd h' x i = fwd h x i"
        by (simp add: f)
    qed
    with px(2) u new Cons show ?thesis by (auto simp: lpath_Cons f)
  qed
  ultimately show ?thesis
    by (simp add: lpath_append lpath_Cons f)
qed

text \<open>What the linking loop gives \<open>put\<close>, and the invariant that follows from it.\<close>

definition linked_insert ::
  "skipList \<Rightarrow> nat list \<Rightarrow> nat list \<Rightarrow> bytes \<Rightarrow> slice \<Rightarrow> OpType \<Rightarrow> nat \<Rightarrow> skipListNode list \<Rightarrow> bool" where
  "linked_insert sl xs ys k v op nl h' \<longleftrightarrow>
     (let new = length (heap sl);
          h0 = heap sl @ [\<lparr>n_key = k, n_value = v, n_op = op, forward = replicate nl None\<rparr>]
      in sl_wf sl (xs @ ys) \<and> 1 \<le> nl \<and> nl \<le> maxSkipListLevel \<and>
         (\<forall>x \<in> set xs. n_key (heap sl ! x) < k) \<and> (\<forall>y \<in> set ys. k < n_key (heap sl ! y)) \<and>
         same_nodes h0 h' \<and>
         (\<forall>a i. fwd h' a i = linked_fwd new (\<lambda>i. last (0 # lane (heap sl) i xs)) {0..<nl} h0 a i))"

lemma linked_insert_old:
  assumes "linked_insert sl xs ys k v op nl h'" and "a < length (heap sl)"
  shows "node_entry (h' ! a) = node_entry (heap sl ! a)" "height h' a = height (heap sl) a"
    "n_key (h' ! a) = n_key (heap sl ! a)"
  using assms
  by (auto simp: linked_insert_def same_nodes_def Let_def height_def nth_append node_entry_def)

lemma linked_insert_new:
  assumes "linked_insert sl xs ys k v op nl h'"
  shows "node_entry (h' ! length (heap sl)) = \<lparr>e_Key = k, e_Value = v, e_Op = op\<rparr>"
    "height h' (length (heap sl)) = nl" "n_key (h' ! length (heap sl)) = k"
    "length h' = Suc (length (heap sl))"
  using assms
  by (auto simp: linked_insert_def same_nodes_def Let_def height_def node_entry_def)

lemma linked_insert_mem:
  assumes "linked_insert sl xs ys k v op nl h'" and "a \<in> set (xs @ ys)"
  shows "0 < a" "a < length (heap sl)"
  using assms sl_wf_in_heap [of sl "xs @ ys" a] by (auto simp: linked_insert_def Let_def)

lemma linked_insert_lane:
  assumes "linked_insert sl xs ys k v op nl h'" and "set zs \<subseteq> set (xs @ ys)"
  shows "lane h' i zs = lane (heap sl) i zs"
  using assms(2) linked_insert_mem [OF assms(1)] linked_insert_old(2) [OF assms(1)]
  by (intro filter_cong) (auto dest!: subsetD)

lemma fwd_snoc: "a \<noteq> length h \<Longrightarrow> fwd (h @ [n]) a i = fwd h a i"
  by (simp add: fwd_def deref_def nth_append)

lemma linked_insert_path:
  assumes li: "linked_insert sl xs ys k v op nl h'" and i: "i < maxSkipListLevel"
  defines "new \<equiv> length (heap sl)"
  shows "lpath h' i 0 (lane h' i (xs @ new # ys))"
proof -
  let ?l = "lane (heap sl) i"
  have wf: "sl_wf sl (xs @ ys)" and new0: "0 < new"
    using li by (simp_all add: linked_insert_def Let_def sl_wf_def new_def)
  note mem = linked_insert_mem [OF li, folded new_def]
  have lanes: "lane h' i xs = ?l xs" "lane h' i ys = ?l ys"
    using linked_insert_lane [OF li] by auto
  have u: "last (0 # ?l xs) < new"
    using last_in_set [of "0 # ?l xs"] mem new0 by (auto split: if_splits)
  have old: "lpath (heap sl) i 0 (?l xs @ ?l ys)"
    using sl_wf_path [OF wf i] by simp
  show ?thesis
  proof (cases "i < nl")
    case True
    have "distinct (0 # ?l xs @ ?l ys)" "new \<notin> set (0 # ?l xs @ ?l ys)"
      using sl_wf_distinct [OF wf] mem new0 by (auto dest!: mem)
    moreover have "fwd h' a i = (if a = last (0 # ?l xs) then Some (Some new)
        else if a = new then fwd (heap sl) (last (0 # ?l xs)) i else fwd (heap sl) a i)" for a
      using True u li
      by (simp add: linked_insert_def Let_def linked_fwd_def new_def fwd_snoc del: last.simps)
    ultimately have "lpath h' i 0 (?l xs @ new # ?l ys)"
      by (intro lpath_linked [OF old]) auto
    with True show ?thesis
      by (simp add: new_def linked_insert_new(2) [OF li] lanes)
  next
    case False
    have "fwd h' a i = fwd (heap sl) a i" if "a < new" for a
      using False li that by (simp add: linked_insert_def Let_def linked_fwd_def fwd_snoc new_def)
    then have "lpath h' i 0 (?l xs @ ?l ys) \<longleftrightarrow> lpath (heap sl) i 0 (?l xs @ ?l ys)"
      using mem new0 by (intro lpath_cong) auto
    with False old show ?thesis
      by (simp add: new_def linked_insert_new(2) [OF li] lanes)
  qed
qed

lemma linked_insert_wf:
  assumes li: "linked_insert sl xs ys k v op nl h'"
  defines "new \<equiv> length (heap sl)"
  shows "sl_wf \<lparr>heap = h', level = max (level sl) nl, sl_length = Suc (sl_length sl)\<rparr> (xs @ new # ys)"
proof -
  have wf: "sl_wf sl (xs @ ys)" and new0: "0 < new" and nl: "1 \<le> nl" "nl \<le> maxSkipListLevel"
    using li by (simp_all add: linked_insert_def Let_def sl_wf_def new_def)
  note mem = linked_insert_mem [OF li, folded new_def]
  note oldn = linked_insert_old [OF li, folded new_def]
  note newn = linked_insert_new [OF li, folded new_def]
  have "set (xs @ new # ys) = {1..<Suc new}"
    using wf new0 by (auto simp: sl_wf_def new_def Suc_le_eq)
  moreover have "node_keys h' (xs @ new # ys) = node_keys (heap sl) xs @ k # node_keys (heap sl) ys"
    using mem by (simp add: node_keys_def oldn(3) newn(3))
  moreover have "sorted_wrt (<) (node_keys (heap sl) xs @ k # node_keys (heap sl) ys)"
    using sl_wf_sorted [OF wf] li
    by (auto simp: node_keys_def sorted_wrt_append linked_insert_def Let_def)
  moreover have "\<forall>a \<in> set (xs @ new # ys). 1 \<le> height h' a \<and> height h' a \<le> max (level sl) nl"
    using wf mem nl(1) by (auto simp: sl_wf_def oldn newn le_max_iff_disj)
  ultimately show ?thesis
    using wf nl(2) new0 linked_insert_path [OF li, folded new_def] newn(4)
    by (auto simp: sl_wf_def oldn(2))
qed

lemma linked_insert_entries:
  assumes li: "linked_insert sl xs ys k v op nl h'"
  shows "sl_entries h' (xs @ length (heap sl) # ys) = sl_entries (heap sl) xs
      @ \<lparr>e_Key = k, e_Value = v, e_Op = op\<rparr> # sl_entries (heap sl) ys"
  using linked_insert_mem [OF li] by (simp add: sl_entries_def linked_insert_old(1) [OF li]
      linked_insert_new(1) [OF li])

lemma random_from_bounds:
  "lvl \<le> maxSkipListLevel \<Longrightarrow> lvl \<le> random_from rnd lvl \<and> random_from rnd lvl \<le> maxSkipListLevel"
proof (induction rnd lvl rule: random_from.induct)
  case (1 rnd lvl)
  then show ?case by (auto simp: random_from.simps [of rnd lvl])
qed

lemma randomLevel_bounds: "1 \<le> randomLevel rnd \<and> randomLevel rnd \<le> maxSkipListLevel"
  unfolding randomLevel_def by (rule random_from_bounds) (simp add: maxSkipListLevel_def)

lemma raise_level_nth:
  "length (raise_level l n upd) = length upd \<and>
   (i < length upd \<longrightarrow>
      raise_level l n upd ! i = (if l \<le> i \<and> i < n then Some 0 else upd ! i))"
  unfolding raise_level_def by (induction n) (auto simp: nth_list_update less_Suc_eq)

text \<open>The predecessors that \<open>put\<close> has collected for every level of the new node.\<close>

lemma sl_insert_correct:
  assumes wf: "sl_wf sl (xs @ ys)"
    and lo: "\<forall>x \<in> set xs. n_key (heap sl ! x) < k" and hi: "\<forall>y \<in> set ys. k < n_key (heap sl ! y)"
    and upd: "length upd = maxSkipListLevel" "\<forall>i < maxSkipListLevel. upd ! i =
      (if i < level sl then Some (last (0 # lane (heap sl) i xs)) else None)"
  shows "\<exists>sl'. sl_insert sl k v op rnd upd = Some sl' \<and> sl_wf sl' (xs @ length (heap sl) # ys) \<and>
    sl_entries (heap sl') (xs @ length (heap sl) # ys) = sl_entries (heap sl) xs
      @ \<lparr>e_Key = k, e_Value = v, e_Op = op\<rparr> # sl_entries (heap sl) ys"
proof -
  define nl where "nl = randomLevel rnd"
  define u where "u i = last (0 # lane (heap sl) i xs)" for i
  define upd' where "upd' = (if nl > level sl then raise_level (level sl) nl upd else upd)"
  define h0 where "h0 = heap sl @ [\<lparr>n_key = k, n_value = v, n_op = op, forward = replicate nl None\<rparr>]"
  let ?new = "length (heap sl)"
  have nl: "1 \<le> nl" "nl \<le> maxSkipListLevel"
    using randomLevel_bounds by (simp_all add: nl_def)
  have upd': "length upd' = maxSkipListLevel \<and> upd' ! i = Some (u i)" if "i < nl" for i
  proof (cases "i < level sl")
    case True
    then show ?thesis
      using that nl upd raise_level_nth [of "level sl" nl upd i] by (auto simp: upd'_def u_def)
  next
    case False
    then have "u i = 0"
      using lane_level [OF wf, of xs i] by (simp add: u_def)
    then show ?thesis
      using False that nl upd raise_level_nth [of "level sl" nl upd i] by (auto simp: upd'_def)
  qed
  have pre: "i < length upd' \<and> upd' ! i = Some (u i) \<and> u i < length h0 \<and> u i \<noteq> ?new
      \<and> i < height h0 (u i) \<and> i < height h0 ?new" if i: "i \<in> set [0..<nl]" for i
  proof -
    have im: "i < maxSkipListLevel"
      using i nl by simp
    have "u i \<in> set (0 # lane (heap sl) i (xs @ ys))"
      using last_in_set [of "0 # lane (heap sl) i xs"] by (auto simp: u_def split: if_splits)
    with lpath_in_heap [OF sl_wf_path [OF wf im]] have "u i < ?new" "i < height (heap sl) (u i)"
      by blast+
    with i nl upd' [of i] show ?thesis
      by (auto simp: h0_def height_def nth_append)
  qed
  obtain h' where h': "link ?new upd' [0..<nl] h0 = Some h'" "same_nodes h0 h'"
      "\<forall>a i. fwd h' a i = linked_fwd ?new u (set [0..<nl]) h0 a i"
    using link_correct [of "[0..<nl]" ?new h0 upd' u] pre by (auto simp: h0_def)
  then have li: "linked_insert sl xs ys k v op nl h'"
    using wf lo hi nl by (auto simp: linked_insert_def Let_def h0_def u_def [abs_def])
  have "sl_insert sl k v op rnd upd
      = Some \<lparr>heap = h', level = max (level sl) nl, sl_length = Suc (sl_length sl)\<rparr>"
    unfolding sl_insert_def Let_def using h'(1)
    by (cases "level sl < nl") (simp_all add: nl_def [symmetric] upd'_def h0_def max_def)
  with linked_insert_wf [OF li] linked_insert_entries [OF li] show ?thesis by simp
qed

lemma sl_put_correct:
  assumes wf: "sl_wf sl as"
  shows "\<exists>sl' as'. sl_put sl k v op rnd = Some sl' \<and> sl_wf sl' as' \<and>
    sl_entries (heap sl') as'
      = put_entry \<lparr>e_Key = k, e_Value = v, e_Op = op\<rparr> (sl_entries (heap sl) as)"
proof -
  let ?h = "heap sl" and ?e = "\<lparr>e_Key = k, e_Value = v, e_Op = op\<rparr>"
  obtain xs ys where as: "as = xs @ ys" and lo: "\<forall>x \<in> set xs. n_key (?h ! x) < k"
    and hi: "\<forall>y \<in> set ys. k \<le> n_key (?h ! y)"
    using key_split [OF sl_wf_sorted [OF wf]] .
  have wf': "sl_wf sl (xs @ ys)"
    using wf as by simp
  obtain upd where d: "descend ?h k (level sl) 0 (replicate maxSkipListLevel None)
      = Some (last (0 # xs), upd)" and upd: "length upd = maxSkipListLevel"
      "\<forall>i < maxSkipListLevel. upd ! i =
         (if i < level sl then Some (last (0 # lane ?h i xs)) else None)"
    using sl_search [OF wf' lo hi] by blast
  note nxt = sl_search_next [OF wf']
  have spec: "put_entry ?e (sl_entries ?h as) = sl_entries ?h xs @ put_entry ?e (sl_entries ?h ys)"
    using lo by (simp add: as sl_entries_def) (subst put_entry_append, auto)
  show ?thesis
  proof (cases "\<exists>y zs. ys = y # zs \<and> n_key (?h ! y) = k")
    case True
    then obtain y zs where ys: "ys = y # zs" "n_key (?h ! y) = k"
      by blast
    have "deref ?h y = Some (?h ! y)"
      using sl_wf_in_heap [OF wf', of y] ys by (simp add: deref_def)
    then have "sl_put sl k v op rnd = Some (sl\<lparr>heap := ?h[y := (?h ! y)\<lparr>n_value := v, n_op := op\<rparr>]\<rparr>)"
      using d nxt ys by (simp add: sl_put_def)
    moreover have "put_entry ?e (sl_entries ?h as) = sl_entries ?h xs @ ?e # sl_entries ?h zs"
      using spec ys by (simp add: sl_entries_def)
    moreover note sl_wf_set_value [OF wf' [unfolded ys(1)], where v = v and op = op]
    ultimately show ?thesis
      using ys by (intro exI [of _ "xs @ y # zs"]
        exI [of _ "sl\<lparr>heap := ?h[y := (?h ! y)\<lparr>n_value := v, n_op := op\<rparr>]\<rparr>"] conjI) simp_all
  next
    case False
    have hi': "\<forall>y \<in> set ys. k < n_key (?h ! y)"
    proof (cases ys)
      case (Cons y zs)
      have y: "k < n_key (?h ! y)"
        using False hi Cons by (auto simp: order.strict_iff_order)
      moreover have "\<forall>z \<in> set zs. n_key (?h ! y) < n_key (?h ! z)"
        using sl_wf_sorted [OF wf'] Cons by (simp add: node_keys_def sorted_wrt_append)
      ultimately show ?thesis
        using Cons by (auto intro: less_trans)
    qed simp
    have "sl_put sl k v op rnd = sl_insert sl k v op rnd upd"
      using d nxt False sl_wf_in_heap [OF wf', of "hd ys"]
      by (cases ys) (auto simp: sl_put_def deref_def)
    moreover have "put_entry ?e (sl_entries ?h as) = sl_entries ?h xs @ ?e # sl_entries ?h ys"
      using hi' spec by (cases ys) (auto simp: sl_entries_def)
    moreover note sl_insert_correct [OF wf' lo hi' upd, of v op rnd]
    ultimately show ?thesis by auto
  qed
qed

section \<open>The interface to the mem table\<close>

text \<open>
  What a client of the skip list relies on: the operations return, they keep the invariant,
  and they act on the key-sorted list of entries like \<open>put_entry\<close> and \<open>find_entry\<close>. The
  random number generator is the argument \<open>r\<close> of \<open>put\<close>; no law mentions it.
\<close>

locale sorted_store =
  fixes inv :: "'s \<Rightarrow> bool"
    and empty :: "'s"
    and put :: "'s \<Rightarrow> bytes \<Rightarrow> slice \<Rightarrow> OpType \<Rightarrow> 'r \<Rightarrow> 's option"
    and get :: "'s \<Rightarrow> bytes \<Rightarrow> 'n option option"
    and entries :: "'s \<Rightarrow> MemTableEntry list option"
    and entry_of :: "'n \<Rightarrow> MemTableEntry"
    and count :: "'s \<Rightarrow> nat"
  assumes inv_empty: "inv empty"
    and entries_empty: "entries empty = Some []"
    and entries_ok: "inv s \<Longrightarrow> \<exists>es. entries s = Some es \<and> keys_sorted es \<and> count s = length es"
    and put_ok: "inv s \<Longrightarrow> entries s = Some es \<Longrightarrow>
      \<exists>s'. put s k v op r = Some s' \<and> inv s' \<and>
        entries s' = Some (put_entry \<lparr>e_Key = k, e_Value = v, e_Op = op\<rparr> es)"
    and get_ok: "inv s \<Longrightarrow> entries s = Some es \<Longrightarrow>
      \<exists>n. get s k = Some n \<and> map_option entry_of n = find_entry k es"
begin

lemma put_get:
  assumes "inv s"
  shows "\<exists>s' n n'. put s k v op r = Some s' \<and> inv s' \<and> get s k' = Some n \<and> get s' k' = Some n' \<and>
    map_option entry_of n' = (if k' = k then Some \<lparr>e_Key = k, e_Value = v, e_Op = op\<rparr>
      else map_option entry_of n)"
proof -
  obtain es where es: "entries s = Some es" "keys_sorted es"
    using entries_ok [OF assms] by blast
  obtain s' where s': "put s k v op r = Some s'" "inv s'"
      "entries s' = Some (put_entry \<lparr>e_Key = k, e_Value = v, e_Op = op\<rparr> es)"
    using put_ok [OF assms es(1)] by blast
  obtain n where n: "get s k' = Some n" "map_option entry_of n = find_entry k' es"
    using get_ok [OF assms es(1)] by blast
  obtain n' where n': "get s' k' = Some n'" "map_option entry_of n' =
      find_entry k' (put_entry \<lparr>e_Key = k, e_Value = v, e_Op = op\<rparr> es)"
    using get_ok [OF s'(2,3)] by blast
  show ?thesis
    using s' n n' es(2) by (simp add: find_put_entry)
qed

text \<open>A sequence of writes: the last write to a key is the one found.\<close>

fun puts :: "'s \<Rightarrow> (MemTableEntry \<times> 'r) list \<Rightarrow> 's option" where
  "puts s [] = Some s"
| "puts s ((e, r) # ws) =
     (case put s (e_Key e) (e_Value e) (e_Op e) r of None \<Rightarrow> None | Some s' \<Rightarrow> puts s' ws)"

lemma puts_entries:
  "inv s \<Longrightarrow> entries s = Some es \<Longrightarrow> \<exists>s'. puts s ws = Some s' \<and> inv s' \<and>
     entries s' = Some (fold (\<lambda>(e, r). put_entry e) ws es)"
proof (induction ws arbitrary: s es)
  case Nil
  then show ?case by simp
next
  case (Cons w ws)
  obtain e r where w: "w = (e, r)" by force
  obtain s' where "put s (e_Key e) (e_Value e) (e_Op e) r = Some s'" "inv s'"
      "entries s' = Some (put_entry e es)"
    using put_ok [OF Cons.prems, of "e_Key e" "e_Value e" "e_Op e" r] by (cases e) auto
  with Cons.IH show ?case by (simp add: w)
qed

end

interpretation sl: sorted_store sl_inv newSkipList sl_put sl_get sl_iterate node_entry sl_length
proof
  show "sl_inv newSkipList"
    using sl_wf_new by (auto simp: sl_inv_def)
  show "sl_iterate newSkipList = Some []"
    using sl_iterate_correct [OF sl_wf_new] by (simp add: sl_entries_def)
next
  fix s
  assume "sl_inv s"
  then obtain as where wf: "sl_wf s as" by (auto simp: sl_inv_def)
  then show "\<exists>es. sl_iterate s = Some es \<and> keys_sorted es \<and> sl_length s = length es"
    using sl_iterate_correct [OF wf] sl_wf_sorted [OF wf]
    by (simp add: keys_sorted_entries) (simp add: sl_wf_def sl_entries_def)
next
  fix s es k v op r
  assume "sl_inv s" and es: "sl_iterate s = Some es"
  then obtain as where wf: "sl_wf s as" by (auto simp: sl_inv_def)
  then have "es = sl_entries (heap s) as"
    using sl_iterate_correct [OF wf] es by simp
  with sl_put_correct [OF wf, of k v op r] show "\<exists>s'. sl_put s k v op r = Some s' \<and> sl_inv s' \<and>
      sl_iterate s' = Some (put_entry \<lparr>e_Key = k, e_Value = v, e_Op = op\<rparr> es)"
    using sl_iterate_correct by (fastforce simp: sl_inv_def)
next
  fix s es k
  assume "sl_inv s" and es: "sl_iterate s = Some es"
  then obtain as where wf: "sl_wf s as" by (auto simp: sl_inv_def)
  then have "es = sl_entries (heap s) as"
    using sl_iterate_correct [OF wf] es by simp
  then show "\<exists>n. sl_get s k = Some n \<and> map_option node_entry n = find_entry k es"
    using sl_get_correct [OF wf] by simp
qed

end
