(* ===== verification/MemTable.thy ===== *)
theory MemTable
  imports SkipList
begin

text \<open>
  \<open>MemTable\<close> of \<open>internal/storage/memtable.go\<close>: the skip list together with the running
  estimate \<open>sizeBytes\<close> that decides when the table is flushed. Every method holds the
  table's lock for its whole body, so each is one atomic step. The theorems rest on the
  interface \<open>sorted_store\<close> of the skip list only.
\<close>

section \<open>The table and its methods\<close>

record MemTable =
  sl :: skipList
  sizeBytes :: int

definition NewMemTable :: MemTable where
  "NewMemTable = \<lparr>sl = newSkipList, sizeBytes = 0\<rparr>"

definition size_without :: "int \<Rightarrow> skipListNode option \<Rightarrow> int" where
  "size_without sz existing =
     (case existing of
        None \<Rightarrow> sz
      | Some n \<Rightarrow> sz - int (length (n_key n) + length (slice_bytes (n_value n))))"

definition mem_Put :: "MemTable \<Rightarrow> bytes \<Rightarrow> slice \<Rightarrow> (nat \<Rightarrow> bool) \<Rightarrow> MemTable option" where
  "mem_Put m key value rnd =
     (case sl_get (sl m) key of
        None \<Rightarrow> None
      | Some existing \<Rightarrow>
          (case sl_put (sl m) key value OpPut rnd of
             None \<Rightarrow> None
           | Some s \<Rightarrow>
               Some \<lparr>sl = s, sizeBytes = size_without (sizeBytes m) existing
                 + int (length key + length (slice_bytes value) + 64)\<rparr>))"

definition mem_Delete :: "MemTable \<Rightarrow> bytes \<Rightarrow> (nat \<Rightarrow> bool) \<Rightarrow> MemTable option" where
  "mem_Delete m key rnd =
     (case sl_get (sl m) key of
        None \<Rightarrow> None
      | Some existing \<Rightarrow>
          (case sl_put (sl m) key None OpDelete rnd of
             None \<Rightarrow> None
           | Some s \<Rightarrow>
               Some \<lparr>sl = s, sizeBytes = size_without (sizeBytes m) existing
                 + int (length key + 64)\<rparr>))"

text \<open>\<open>Get\<close> returns \<open>(value, found)\<close>; a tombstone is \<open>(nil, true)\<close>.\<close>

definition mem_Get :: "MemTable \<Rightarrow> bytes \<Rightarrow> (slice \<times> bool) option" where
  "mem_Get m key =
     (case sl_get (sl m) key of
        None \<Rightarrow> None
      | Some None \<Rightarrow> Some (None, False)
      | Some (Some node) \<Rightarrow>
          if n_op node = OpDelete then Some (None, True) else Some (n_value node, True))"

definition mem_Size :: "MemTable \<Rightarrow> int" where
  "mem_Size m = sizeBytes m"

definition mem_Entries :: "MemTable \<Rightarrow> MemTableEntry list option" where
  "mem_Entries m = sl_iterate (sl m)"

definition mem_Len :: "MemTable \<Rightarrow> nat" where
  "mem_Len m = sl_length (sl m)"

section \<open>Specification\<close>

text \<open>
  \<open>mem_rep m es w\<close>: the table holds exactly the entries \<open>es\<close> after \<open>w\<close> writes. The size
  counts the bytes of the live entries, and 64 bytes for every write: an overwritten entry
  gives back its bytes but not its 64.
\<close>

definition entry_bytes :: "MemTableEntry \<Rightarrow> nat" where
  "entry_bytes e = length (e_Key e) + length (slice_bytes (e_Value e))"

definition mem_rep :: "MemTable \<Rightarrow> MemTableEntry list \<Rightarrow> nat \<Rightarrow> bool" where
  "mem_rep m es w \<longleftrightarrow>
     sl_inv (sl m) \<and> sl_iterate (sl m) = Some es \<and> keys_sorted es \<and> length es \<le> w \<and>
     sizeBytes m = int (sum_list (map entry_bytes es) + 64 * w)"

definition entry_result :: "MemTableEntry option \<Rightarrow> slice \<times> bool" where
  "entry_result r =
     (case r of
        None \<Rightarrow> (None, False)
      | Some e \<Rightarrow> if e_Op e = OpDelete then (None, True) else (e_Value e, True))"

lemma mem_rep_new: "mem_rep NewMemTable [] 0"
  by (simp add: mem_rep_def NewMemTable_def sl.inv_empty sl.entries_empty keys_sorted_def)

lemma sum_put_entry:
  "keys_sorted es \<Longrightarrow>
    int (sum_list (map entry_bytes (put_entry e es))) =
      int (sum_list (map entry_bytes es)) + int (entry_bytes e)
        - (case find_entry (e_Key e) es of None \<Rightarrow> 0 | Some x \<Rightarrow> int (entry_bytes x))"
proof (induction es)
  case Nil
  then show ?case by (simp add: find_entry_def)
next
  case (Cons x es)
  have tl: "keys_sorted es" "\<forall>y \<in> set es. e_Key x < e_Key y"
    using Cons.prems by (auto simp: keys_sorted_def)
  have "find_entry (e_Key e) es = None" if "e_Key e \<le> e_Key x"
    using tl(2) that by (intro find_entry_above) auto
  with Cons.IH [OF tl(1)] show ?case
    by (auto simp: find_entry_def)
qed

lemma length_put_entry: "length (put_entry e es) \<le> Suc (length es)"
  by (induction es) auto

text \<open>One write, for both methods: the get, the put and the new size.\<close>

lemma mem_write:
  assumes rep: "mem_rep m es w"
  shows "\<exists>existing s. sl_get (sl m) k = Some existing \<and> sl_put (sl m) k v op rnd = Some s \<and>
    mem_rep \<lparr>sl = s, sizeBytes = size_without (sizeBytes m) existing
        + int (length k + length (slice_bytes v) + 64)\<rparr>
      (put_entry \<lparr>e_Key = k, e_Value = v, e_Op = op\<rparr> es) (Suc w)"
proof -
  let ?e = "\<lparr>e_Key = k, e_Value = v, e_Op = op\<rparr>"
  have inv: "sl_inv (sl m)" "sl_iterate (sl m) = Some es" and srt: "keys_sorted es"
    using rep by (simp_all add: mem_rep_def)
  obtain n where n: "sl_get (sl m) k = Some n" "map_option node_entry n = find_entry k es"
    using sl.get_ok [OF inv] by blast
  obtain s where s: "sl_put (sl m) k v op rnd = Some s" "sl_inv s"
      "sl_iterate s = Some (put_entry ?e es)"
    using sl.put_ok [OF inv] by blast
  have "size_without (sizeBytes m) n = sizeBytes m
      - (case find_entry k es of None \<Rightarrow> 0 | Some x \<Rightarrow> int (entry_bytes x))"
    by (cases n) (simp_all add: size_without_def entry_bytes_def node_entry_def flip: n(2))
  then have "size_without (sizeBytes m) n + int (length k + length (slice_bytes v) + 64)
      = int (sum_list (map entry_bytes (put_entry ?e es)) + 64 * Suc w)"
    using rep sum_put_entry [OF srt, of ?e] by (simp add: mem_rep_def entry_bytes_def)
  then show ?thesis
    using n s rep put_entry_sorted [OF srt] length_put_entry [of ?e es]
    by (auto simp: mem_rep_def)
qed

lemma mem_Put_rep:
  "mem_rep m es w \<Longrightarrow> \<exists>m'. mem_Put m k v rnd = Some m' \<and>
    mem_rep m' (put_entry \<lparr>e_Key = k, e_Value = v, e_Op = OpPut\<rparr> es) (Suc w)"
  using mem_write [of m es w k v OpPut rnd] by (auto simp: mem_Put_def)

lemma mem_Delete_rep:
  "mem_rep m es w \<Longrightarrow> \<exists>m'. mem_Delete m k rnd = Some m' \<and>
    mem_rep m' (put_entry \<lparr>e_Key = k, e_Value = None, e_Op = OpDelete\<rparr> es) (Suc w)"
  using mem_write [of m es w k None OpDelete rnd] by (auto simp: mem_Delete_def)

lemma mem_Get_rep: "mem_rep m es w \<Longrightarrow> mem_Get m k = Some (entry_result (find_entry k es))"
proof -
  assume rep: "mem_rep m es w"
  then obtain n where "sl_get (sl m) k = Some n" "find_entry k es = map_option node_entry n"
    using sl.get_ok [of "sl m" es k] unfolding mem_rep_def by metis
  then show ?thesis
    by (cases n) (auto simp: mem_Get_def entry_result_def node_entry_def split: option.splits)
qed

lemma mem_Entries_rep: "mem_rep m es w \<Longrightarrow> mem_Entries m = Some es"
  by (simp add: mem_Entries_def mem_rep_def)

lemma mem_Len_rep: "mem_rep m es w \<Longrightarrow> mem_Len m = length es"
  using sl.entries_ok [of "sl m"] by (auto simp: mem_Len_def mem_rep_def)

lemma mem_Size_rep: "mem_rep m es w \<Longrightarrow> mem_Size m = int (sum_list (map entry_bytes es) + 64 * w)"
  by (simp add: mem_Size_def mem_rep_def)

lemmas mem_reps = mem_Get_rep mem_Entries_rep mem_Len_rep mem_Size_rep

lemma put_entry_same:
  "keys_sorted es \<Longrightarrow> find_entry (e_Key e) es = Some e \<Longrightarrow> put_entry e es = es"
proof (induction es)
  case Nil
  then show ?case by (simp add: find_entry_def)
next
  case (Cons x es)
  have "\<forall>y \<in> set es. e_Key x < e_Key y"
    using Cons.prems by (simp add: keys_sorted_def)
  then have "find_entry (e_Key e) es = None" if "e_Key e \<le> e_Key x"
    using that by (intro find_entry_above) auto
  with Cons show ?case
    by (fastforce simp: find_entry_def keys_sorted_def split: if_splits)
qed

text \<open>Repeated \<open>Put\<close>s of one key and value, each with its own random levels.\<close>

fun overwrite :: "MemTable \<Rightarrow> bytes \<Rightarrow> slice \<Rightarrow> (nat \<Rightarrow> bool) list \<Rightarrow> MemTable option" where
  "overwrite m k v [] = Some m"
| "overwrite m k v (r # rs) =
     (case mem_Put m k v r of None \<Rightarrow> None | Some m' \<Rightarrow> overwrite m' k v rs)"

section \<open>Properties\<close>

text \<open>Property C18. The mem table on the pointer-based skip list refines a key-sorted entry list:
  from a table that represents \<open>es\<close>, \<open>Put\<close> and \<open>Delete\<close> return (no nil dereference, no
  endless walk) for any key, value and random levels, the result represents \<open>es\<close> with the
  entry inserted or replaced at its place, and then \<open>Get\<close>, \<open>Entries\<close> and \<open>Len\<close> answer
  from that list.\<close>

theorem memtable_refines_sorted_list:
  assumes "mem_rep m es w"
  shows "\<exists>m1 m2.
      mem_Put m k v rnd = Some m1 \<and>
      mem_rep m1 (put_entry \<lparr>e_Key = k, e_Value = v, e_Op = OpPut\<rparr> es) (Suc w) \<and>
      mem_Get m1 k = Some (v, True) \<and>
      mem_Delete m k rnd = Some m2 \<and>
      mem_rep m2 (put_entry \<lparr>e_Key = k, e_Value = None, e_Op = OpDelete\<rparr> es) (Suc w) \<and>
      mem_Get m2 k = Some (None, True) \<and>
      (\<forall>k'. k' \<noteq> k \<longrightarrow> mem_Get m1 k' = mem_Get m k' \<and> mem_Get m2 k' = mem_Get m k') \<and>
      mem_Entries m = Some es \<and> mem_Len m = length es"
proof -
  have srt: "keys_sorted es"
    using assms by (simp add: mem_rep_def)
  obtain m1 where m1: "mem_Put m k v rnd = Some m1"
      "mem_rep m1 (put_entry \<lparr>e_Key = k, e_Value = v, e_Op = OpPut\<rparr> es) (Suc w)"
    using mem_Put_rep [OF assms] by blast
  obtain m2 where m2: "mem_Delete m k rnd = Some m2"
      "mem_rep m2 (put_entry \<lparr>e_Key = k, e_Value = None, e_Op = OpDelete\<rparr> es) (Suc w)"
    using mem_Delete_rep [OF assms] by blast
  show ?thesis
    using m1 m2 mem_reps [OF assms] mem_reps(1) [OF m1(2)] mem_reps(1) [OF m2(2)]
    by (simp add: find_put_entry [OF srt] entry_result_def OpPut_def OpDelete_def)
qed

theorem memtable_refines_sorted_list_witness:
  "\<exists>m1. mem_Put NewMemTable [98] (Some [1]) (\<lambda>_. True) = Some m1 \<and>
     mem_Get m1 [98] = Some (Some [1], True)"
  using memtable_refines_sorted_list [OF mem_rep_new, of "[98]" "Some [1]" "\<lambda>_. True"]
  by blast

text \<open>Fact. The size that triggers the flush is exact in the bytes of the live entries and
  charges 64 bytes per write, not per entry: overwriting one key \<open>n\<close> times with values of
  the same length adds \<open>64 * n\<close> although the table still holds the same number of entries
  and bytes.\<close>

theorem memtable_size_counts_writes:
  assumes "mem_rep m es w" and "find_entry k es = Some \<lparr>e_Key = k, e_Value = v, e_Op = OpPut\<rparr>"
  shows "\<exists>m'. overwrite m k v rs = Some m' \<and> mem_rep m' es (w + length rs) \<and>
    mem_Size m' = mem_Size m + 64 * int (length rs)"
  using assms
proof (induction rs arbitrary: m w)
  case Nil
  then show ?case by simp
next
  case (Cons r rs)
  let ?e = "\<lparr>e_Key = k, e_Value = v, e_Op = OpPut\<rparr>"
  obtain m1 where m1: "mem_Put m k v r = Some m1" "mem_rep m1 (put_entry ?e es) (Suc w)"
    using mem_Put_rep [OF Cons.prems(1)] by blast
  have same: "put_entry ?e es = es"
    using Cons.prems by (intro put_entry_same) (simp_all add: mem_rep_def)
  from m1(2) same have "mem_rep m1 es (Suc w)" by simp
  from Cons.IH [OF this Cons.prems(2)] m1(1) mem_Size_rep [OF this] mem_Size_rep [OF Cons.prems(1)]
  show ?case by auto
qed

theorem memtable_size_counts_writes_witness:
  "\<exists>m m'. mem_Put NewMemTable [107] (Some [118]) (\<lambda>_. False) = Some m \<and>
     overwrite m [107] (Some [118]) (replicate 1000 (\<lambda>_. True)) = Some m' \<and>
     mem_Size m' = mem_Size m + 64000"
proof -
  obtain m where m: "mem_Put NewMemTable [107] (Some [118]) (\<lambda>_. False) = Some m"
      "mem_rep m [\<lparr>e_Key = [107], e_Value = Some [118], e_Op = OpPut\<rparr>] 1"
    using mem_Put_rep [OF mem_rep_new] by fastforce
  with memtable_size_counts_writes [OF m(2), of "[107]" "Some [118]" "replicate 1000 (\<lambda>_. True)"]
  show ?thesis by (auto simp: find_entry_def)
qed

end
