(* ===== verification/Recovery.thy ===== *)
theory Recovery
  imports MemTable
begin

text \<open>
  Crash recovery (\<open>internal/storage/recovery.go\<close>): the log is read, its records are
  replayed into a new mem table, and the file is truncated to the records that were valid.
  The random levels of the skip list are an argument, one generator state per record.
\<close>

section \<open>Recover\<close>

fun replay ::
  "(nat \<Rightarrow> nat \<Rightarrow> bool) \<Rightarrow> MemTable \<Rightarrow> nat \<Rightarrow> WALRecord list \<Rightarrow> (MemTable \<times> nat) option" where
  "replay rnd mem count [] = Some (mem, count)"
| "replay rnd mem count (rec # recs) =
     (if rec_Op rec = OpPut then
        (case mem_Put mem (rec_Key rec) (rec_Value rec) (rnd (length recs)) of
           None \<Rightarrow> None
         | Some m \<Rightarrow> replay rnd m (count + 1) recs)
      else if rec_Op rec = OpDelete then
        (case mem_Delete mem (rec_Key rec) (rnd (length recs)) of
           None \<Rightarrow> None
         | Some m \<Rightarrow> replay rnd m (count + 1) recs)
      else replay rnd mem count recs)"

text \<open>\<open>os.Truncate\<close>: a longer file is cut, a shorter one is filled with zero bytes.\<close>

definition truncate_bytes :: "nat \<Rightarrow> bytes \<Rightarrow> bytes" where
  "truncate_bytes n f = take n f @ replicate (n - length f) 0"

definition rec_size :: "WALRecord \<Rightarrow> nat" where
  "rec_size r = walHeaderSize + length (rec_Key r) + length (slice_bytes (rec_Value r))"

definition computeValidWALSize :: "fs \<Rightarrow> string \<Rightarrow> nat \<Rightarrow> read_fault \<Rightarrow> (wal_error, nat) outcome" where
  "computeValidWALSize d path validRecordCount fault =
     (if validRecordCount = 0 then Ok 0
      else case ReadWALRecords d path fault of
             Ok records \<Rightarrow> Ok (sum_list (map rec_size (take validRecordCount records)))
           | Err e \<Rightarrow> Err e
           | Panic \<Rightarrow> Panic)"

definition truncateWAL :: "fs \<Rightarrow> string \<Rightarrow> nat \<Rightarrow> bool \<Rightarrow> fs \<times> (wal_error, unit) outcome" where
  "truncateWAL d path n fails =
     (case fs_read d path of
        None \<Rightarrow> (d, Err WalTruncateFailed)
      | Some f \<Rightarrow>
          if fails then (d, Err WalTruncateFailed) else (fs_write path (truncate_bytes n f) d, Ok ()))"

text \<open>The I/O errors of a recovery: of the two reads of the log, of \<open>os.Stat\<close> and of \<open>os.Truncate\<close>. Only
  the first read reports its error; after the others the file is left as it is.\<close>

record RecoverFaults =
  replay_fault :: read_fault
  count_fault :: read_fault
  stat_fails :: bool
  truncate_fails :: bool

definition sound_log :: RecoverFaults where
  "sound_log = \<lparr>replay_fault = ReadOk, count_fault = ReadOk, stat_fails = False, truncate_fails = False\<rparr>"

definition Recover ::
  "(nat \<Rightarrow> nat \<Rightarrow> bool) \<Rightarrow> fs \<Rightarrow> string \<Rightarrow> RecoverFaults \<Rightarrow> (wal_error, MemTable \<times> nat \<times> fs) outcome" where
  "Recover rnd d path io =
     (case ReadWALRecords d path (replay_fault io) of
        Err e \<Rightarrow> Err e
      | Panic \<Rightarrow> Panic
      | Ok records \<Rightarrow>
          (case replay rnd NewMemTable 0 records of
             None \<Rightarrow> Panic
           | Some (mem, count) \<Rightarrow>
               if fs_read d path = None \<or> stat_fails io then Ok (mem, count, d)
               else
                 (case computeValidWALSize d path (length records) (count_fault io) of
                    Ok validBytes \<Rightarrow> Ok (mem, count, fst (truncateWAL d path validBytes (truncate_fails io)))
                  | Err e \<Rightarrow> Ok (mem, count, d)
                  | Panic \<Rightarrow> Panic)))"

section \<open>Specification\<close>

text \<open>The entry a log record stands for, and the entry list a log builds.\<close>

definition rec_known :: "WALRecord \<Rightarrow> bool" where
  "rec_known r \<longleftrightarrow> rec_Op r = OpPut \<or> rec_Op r = OpDelete"

definition rec_entry :: "WALRecord \<Rightarrow> MemTableEntry" where
  "rec_entry r =
     \<lparr>e_Key = rec_Key r,
      e_Value = (if rec_Op r = OpDelete then None else rec_Value r),
      e_Op = rec_Op r\<rparr>"

definition log_entries :: "WALRecord list \<Rightarrow> MemTableEntry list" where
  "log_entries rs = fold put_entry (map rec_entry (filter rec_known rs)) []"

text \<open>The last record of a key in the log, as the table should answer it.\<close>

definition last_write :: "WALRecord list \<Rightarrow> bytes \<Rightarrow> MemTableEntry option" where
  "last_write rs k = map_option rec_entry (find (\<lambda>r. rec_Key r = k) (rev (filter rec_known rs)))"

lemma replay_rep:
  "mem_rep m es w \<Longrightarrow> \<exists>m'. replay rnd m c rs = Some (m', c + length (filter rec_known rs)) \<and>
    mem_rep m' (fold put_entry (map rec_entry (filter rec_known rs)) es)
      (w + length (filter rec_known rs))"
proof (induction rs arbitrary: m es w c)
  case Nil
  then show ?case by simp
next
  case (Cons r rs)
  show ?case
  proof (cases "rec_known r")
    case False
    with Cons show ?thesis by (auto simp: rec_known_def)
  next
    case True
    then have "\<exists>m1. replay rnd m c (r # rs) = replay rnd m1 (c + 1) rs \<and>
        mem_rep m1 (put_entry (rec_entry r) es) (Suc w)"
      using mem_Put_rep [OF Cons.prems, of "rec_Key r" "rec_Value r" "rnd (length rs)"]
        mem_Delete_rep [OF Cons.prems, of "rec_Key r" "rnd (length rs)"]
      by (auto simp: rec_known_def rec_entry_def OpPut_def OpDelete_def)
    then obtain m1 where m1: "replay rnd m c (r # rs) = replay rnd m1 (c + 1) rs"
        "mem_rep m1 (put_entry (rec_entry r) es) (Suc w)"
      by blast
    from Cons.IH [OF m1(2), of "c + 1"] m1(1) True show ?thesis by auto
  qed
qed

lemma fold_put_sorted: "keys_sorted es \<Longrightarrow> keys_sorted (fold put_entry xs es)"
  by (induction xs arbitrary: es) (auto intro: put_entry_sorted)

lemma find_fold_put:
  "keys_sorted es \<Longrightarrow> find_entry k (fold put_entry xs es) =
    (case find (\<lambda>e. e_Key e = k) (rev xs) of Some e \<Rightarrow> Some e | None \<Rightarrow> find_entry k es)"
proof (induction xs arbitrary: es)
  case Nil
  then show ?case by simp
next
  case (Cons x xs)
  have snoc: "find P (ys @ [x]) = (case find P ys of Some e \<Rightarrow> Some e | None \<Rightarrow> if P x then Some x else None)"
    for P :: "MemTableEntry \<Rightarrow> bool" and ys
    by (induction ys) auto
  show ?case
    using Cons by (simp add: put_entry_sorted find_put_entry snoc split: option.split)
qed

lemma find_map_rec_entry:
  "find (\<lambda>e. e_Key e = k) (map rec_entry rs) = map_option rec_entry (find (\<lambda>r. rec_Key r = k) rs)"
  by (induction rs) (auto simp: rec_entry_def)

lemma fold_put_subset: "set (fold put_entry xs es) \<subseteq> set xs \<union> set es"
proof (induction xs arbitrary: es)
  case (Cons x xs)
  have "set (put_entry x es) \<subseteq> insert x (set es)"
    by (induction x es rule: put_entry.induct) auto
  with Cons [of "put_entry x es"] show ?case by auto
qed simp

lemma log_entries_sorted: "keys_sorted (log_entries rs)"
  unfolding log_entries_def by (rule fold_put_sorted) (simp add: keys_sorted_def)

lemma find_log_entries: "find_entry k (log_entries rs) = last_write rs k"
proof -
  have "keys_sorted []"
    by (simp add: keys_sorted_def)
  then show ?thesis
    unfolding log_entries_def last_write_def
    by (simp add: find_fold_put rev_map find_map_rec_entry find_entry_def [of _ "[]"]
        split: option.split)
qed

lemma rec_size_bytes: "length (rec_bytes r) = rec_size r"
  by (simp add: rec_bytes_def rec_size_def length_wal_record)

lemma length_recs: "length (concat (map rec_bytes rs)) = sum_list (map rec_size rs)"
  by (induction rs) (simp_all add: rec_size_bytes)

text \<open>What \<open>Recover\<close> does on a file whose valid records are \<open>rs\<close>.\<close>

lemma Recover_file:
  assumes f: "fs_read d path = Some f" and rs: "read_records False f = Ok rs"
  shows "\<exists>mem. Recover rnd d path sound_log = Ok (mem, length (filter rec_known rs),
      fs_write path (concat (map rec_bytes rs)) d) \<and>
    mem_rep mem (log_entries rs) (length (filter rec_known rs))"
proof -
  obtain t where t: "f = concat (map rec_bytes rs) @ t"
    using read_records_prefix [OF rs] by blast
  have "computeValidWALSize d path (length rs) ReadOk = Ok (sum_list (map rec_size rs))"
    using f rs by (simp add: computeValidWALSize_def ReadWALRecords_def)
  moreover have "truncate_bytes (sum_list (map rec_size rs)) f = concat (map rec_bytes rs)"
    by (simp add: truncate_bytes_def t length_recs [symmetric])
  moreover obtain mem where "replay rnd NewMemTable 0 rs = Some (mem, length (filter rec_known rs))"
      "mem_rep mem (log_entries rs) (length (filter rec_known rs))"
    using replay_rep [OF mem_rep_new, of rnd 0 rs] by (auto simp: log_entries_def)
  ultimately show ?thesis
    using f rs by (simp add: Recover_def sound_log_def ReadWALRecords_def truncateWAL_def)
qed

lemma read_records_stable:
  "read_records False f = Ok rs \<Longrightarrow> read_records False (concat (map rec_bytes rs)) = Ok rs"
  using read_records_prefix [of f rs] read_records_list [of rs False "[]"] by auto

lemma rec_size_read [simp]: "rec_size (rec_read r) = rec_size r"
  by (simp add: rec_size_def rec_read_def nil_if_empty_def)

lemma rec_known_read [simp]: "rec_known (rec_read r) = rec_known r"
  by (simp add: rec_known_def rec_read_def)

text \<open>The bytes of a damaged sector: a read error inside the record \<open>r\<close>, \<open>n\<close> bytes behind its start.\<close>

lemma ReadWALRecords_error:
  assumes "fs_read d path = Some (concat (map rec_bytes rs) @ rec_bytes r @ s)" "list_all rec_fits rs" "rec_fits r"
    and "n < length (rec_bytes r)"
  shows "ReadWALRecords d path (ReadFailsAt (length (concat (map rec_bytes rs)) + n)) =
    (if n < walHeaderSize then Err WalReadFailed else Ok (map rec_read rs))"
proof -
  have "ReadWALRecords d path (ReadFailsAt (length (concat (map rec_bytes rs)) + n)) =
      read_records True (concat (map rec_bytes rs) @ take n (rec_bytes r))"
    using assms(1,4) by (simp add: ReadWALRecords_def)
  also have "\<dots> = (case read_records True (take n (rec_bytes r)) of
      Ok rs' \<Rightarrow> Ok (map rec_read rs @ rs') | Err e \<Rightarrow> Err e | Panic \<Rightarrow> Panic)"
    using read_records_list [OF assms(2)] .
  also have "read_records True (take n (rec_bytes r)) = (if n < walHeaderSize then Err WalReadFailed else Ok [])"
    using assms(3,4) read_records_torn_more [of "rec_Key r" "rec_Value r" n "[]" "rec_Op r" True]
    by (simp add: read_records_error rec_bytes_def rec_fits_def)
  finally show ?thesis by simp
qed

section \<open>Properties\<close>

text \<open>Property C21. Recovery of any log file on which reading does not panic, however it is damaged:
  it returns a mem table that answers every key with its last valid record in the log; the
  file is cut to exactly the bytes of those records; and recovering again reads the same
  records, counts the same number and leaves the file as it is.\<close>

theorem recover_correct:
  assumes "fs_read d path = Some f" and "read_records False f = Ok rs"
  shows "\<exists>mem d'. Recover rnd d path sound_log = Ok (mem, length (filter rec_known rs), d') \<and>
    (\<forall>k. mem_Get mem k = Some (entry_result (last_write rs k))) \<and>
    fs_read d' path = Some (concat (map rec_bytes rs)) \<and>
    (\<exists>t. f = concat (map rec_bytes rs) @ t) \<and>
    (\<exists>mem'. Recover rnd' d' path sound_log = Ok (mem', length (filter rec_known rs), d') \<and>
       mem_Entries mem' = mem_Entries mem)"
proof -
  let ?d' = "fs_write path (concat (map rec_bytes rs)) d"
  obtain mem where mem: "Recover rnd d path sound_log = Ok (mem, length (filter rec_known rs), ?d')"
      "mem_rep mem (log_entries rs) (length (filter rec_known rs))"
    using Recover_file [OF assms] by blast
  have d': "fs_read ?d' path = Some (concat (map rec_bytes rs))"
    by (simp add: update_conv')
  obtain mem' where mem': "Recover rnd' ?d' path sound_log = Ok (mem', length (filter rec_known rs),
      fs_write path (concat (map rec_bytes rs)) ?d')"
      "mem_rep mem' (log_entries rs) (length (filter rec_known rs))"
    using Recover_file [OF d' read_records_stable [OF assms(2)]] by blast
  moreover have "fs_write path (concat (map rec_bytes rs)) ?d' = ?d'"
    by simp
  moreover have "\<exists>t. f = concat (map rec_bytes rs) @ t"
    using read_records_prefix [OF assms(2)] by blast
  ultimately show ?thesis
    using mem d' mem_Get_rep [OF mem(2)] mem_Entries_rep [OF mem(2)] mem_Entries_rep [OF mem'(2)]
    by (simp add: find_log_entries)
qed

theorem recover_correct_witness:
  "\<exists>mem d'. Recover (\<lambda>_ _. False)
       [(''wal.log'', wal_record OpPut [107, 49] (Some [118, 49]) @ wal_record OpDelete [107, 49] None
          @ [1, 2, 3])] ''wal.log'' sound_log = Ok (mem, 2, d') \<and>
     mem_Get mem [107, 49] = Some (None, True) \<and>
     fs_read d' ''wal.log'' =
       Some (wal_record OpPut [107, 49] (Some [118, 49]) @ wal_record OpDelete [107, 49] None)"
proof -
  let ?rs = "[\<lparr>rec_Op = OpPut, rec_Key = [107, 49], rec_Value = Some [118, 49]\<rparr>,
              \<lparr>rec_Op = OpDelete, rec_Key = [107, 49], rec_Value = None\<rparr>]"
  let ?f = "wal_record OpPut [107, 49] (Some [118, 49]) @ wal_record OpDelete [107, 49] None
    @ [1, 2, 3]"
  have tail: "read_records False [1, 2, 3] = Ok []"
    by (rule read_records_short) (simp add: walHeaderSize_def)
  have "read_records False ?f = Ok ?rs"
    using read_records_list [of ?rs False "[1, 2, 3]"] tail
    by (simp add: rec_fits_def rec_bytes_def rec_read_def nil_if_empty_def)
  from recover_correct [of "[(''wal.log'', ?f)]" "''wal.log''" ?f ?rs "\<lambda>_ _. False" "\<lambda>_ _. True", OF _ this]
  show ?thesis
    by (auto simp: rec_known_def rec_bytes_def last_write_def rec_entry_def entry_result_def
        OpPut_def OpDelete_def)
qed

text \<open>Fact. A sector of the log that cannot be read makes \<open>Recover\<close> fail, and leaves the log as it is, when
  the read of a header meets it. When the read of a body meets it, the error counts as the end of
  the log: \<open>Recover\<close> succeeds with the records before it and cuts the file there, and the records
  behind it, acknowledged and intact, are gone for good.\<close>

theorem recover_read_error:
  assumes "fs_read d path = Some (concat (map rec_bytes rs) @ rec_bytes r @ s)" "list_all rec_fits rs" "rec_fits r"
    and "n < length (rec_bytes r)"
    and "replay_fault io = ReadFailsAt (length (concat (map rec_bytes rs)) + n)" "count_fault io = replay_fault io"
    and "\<not> stat_fails io" "\<not> truncate_fails io"
  shows "if n < walHeaderSize then Recover rnd d path io = Err WalReadFailed
    else \<exists>mem. Recover rnd d path io =
      Ok (mem, length (filter rec_known rs), fs_write path (concat (map rec_bytes rs)) d)"
proof (cases "n < walHeaderSize")
  case True
  with ReadWALRecords_error [OF assms(1-4)] show ?thesis
    by (simp add: Recover_def assms(5))
next
  case False
  note rd = ReadWALRecords_error [OF assms(1-4)]
  have "computeValidWALSize d path (length rs) (count_fault io) = Ok (length (concat (map rec_bytes rs)))"
    using rd False by (auto simp: computeValidWALSize_def assms(5,6) length_recs comp_def)
  moreover have "truncate_bytes (length (concat (map rec_bytes rs))) (concat (map rec_bytes rs) @ rec_bytes r @ s) =
      concat (map rec_bytes rs)"
    by (simp add: truncate_bytes_def)
  moreover obtain mem where "replay rnd NewMemTable 0 (map rec_read rs) = Some (mem, length (filter rec_known rs))"
    using replay_rep [OF mem_rep_new, of rnd 0 "map rec_read rs"] by (auto simp: filter_map comp_def)
  ultimately show ?thesis
    using rd False assms(1,7,8) by (simp add: Recover_def assms(5) truncateWAL_def)
qed

end
