(* ===== verification/SSTable.thy ===== *)
theory SSTable
  imports Recovery
begin

text \<open>
  Sorted string tables (\<open>internal/storage/sstable.go\<close>): the file format with its sparse index
  and footer, \<open>WriteSSTable\<close>, \<open>OpenSSTableReader\<close> and \<open>SSTableReader.Get\<close> with its binary
  search and linear scan, all on file bytes. Lengths that a corrupt file makes negative or
  huge panic in \<open>make\<close>, as in the code. The lemmas follow the bytes of a written table
  through opening and reading.
\<close>

section \<open>Writing\<close>

definition sparseIndexInterval :: nat where "sparseIndexInterval = 16"
definition footerSize :: nat where "footerSize = 16"

record indexEntry =
  ix_key :: bytes
  ix_offset :: int

datatype sst_error =
    SstEmpty | SstCreateFailed | SstWriteFailed | SstSyncFailed | SstRenameFailed
  | SstOpenFailed | SstTooSmall nat | SstReadFooterFailed | SstReadIndexFailed | SstSeekFailed

text \<open>What can go wrong: a write may stop after \<open>n\<close> bytes of the file; the flag tells
  whether the deferred \<open>os.Remove\<close>, whose error is ignored, removes the temporary file.\<close>

datatype sst_fault =
    SstNoFault | SstCreateFails | SstWriteFails nat bool | SstSyncFails bool | SstRenameFails bool

definition sst_record :: "MemTableEntry \<Rightarrow> bytes" where
  "sst_record e =
     le 2 (length (e_Key e)) @ le 4 (length (slice_bytes (e_Value e))) @ [e_Op e]
       @ e_Key e @ slice_bytes (e_Value e)"

definition index_record :: "indexEntry \<Rightarrow> bytes" where
  "index_record ie =
     le 2 (length (ix_key ie)) @ ix_key ie @ le 8 (nat (ix_offset ie mod 2 ^ 64))"

text \<open>The loop over the entries: the data bytes written and the sparse index.\<close>

fun write_entries :: "nat \<Rightarrow> nat \<Rightarrow> MemTableEntry list \<Rightarrow> bytes \<times> indexEntry list" where
  "write_entries i currentOffset [] = ([], [])"
| "write_entries i currentOffset (entry # es) =
     (let record = sst_record entry;
          (data, index) = write_entries (i + 1) (currentOffset + length record) es
      in (record @ data,
          if i mod sparseIndexInterval = 0
          then \<lparr>ix_key = e_Key entry, ix_offset = int currentOffset\<rparr> # index
          else index))"

definition sst_file :: "MemTableEntry list \<Rightarrow> bytes" where
  "sst_file entries =
     (let (data, sparseIndex) = write_entries 0 0 entries;
          index = concat (map index_record sparseIndex)
      in data @ index @ le 8 (length data) @ le 8 (length index))"

text \<open>
  The directories a call passes through, byte by byte: the empty temporary file, its growing
  contents and, after the rename or the deferred \<open>os.Remove\<close>, the last one. A process that is
  killed in between leaves one of them behind.
\<close>

definition tmp_states :: "string \<Rightarrow> bytes \<Rightarrow> fs \<Rightarrow> fs list" where
  "tmp_states tmpPath written d = map (\<lambda>k. fs_write tmpPath (take k written) d) [0..<Suc (length written)]"

definition deferred_remove :: "string \<Rightarrow> bool \<Rightarrow> fs list \<Rightarrow> fs list" where
  "deferred_remove tmpPath removed ds = (if removed then ds @ [fs_remove tmpPath (last ds)] else ds)"

definition WriteSSTable_run ::
  "fs \<Rightarrow> MemTableEntry list \<Rightarrow> string \<Rightarrow> sst_fault \<Rightarrow> fs list \<times> (sst_error, unit) outcome" where
  "WriteSSTable_run d entries p fault =
     (if entries = [] then ([d], Err SstEmpty)
      else
        let tmpPath = p @ ''.tmp'';
            file = sst_file entries
        in case fault of
             SstCreateFails \<Rightarrow> ([d], Err SstCreateFailed)
           | SstWriteFails n removed \<Rightarrow>
               (deferred_remove tmpPath removed (d # tmp_states tmpPath (take n file) d), Err SstWriteFailed)
           | SstSyncFails removed \<Rightarrow>
               (deferred_remove tmpPath removed (d # tmp_states tmpPath file d), Err SstSyncFailed)
           | SstRenameFails removed \<Rightarrow>
               (deferred_remove tmpPath removed (d # tmp_states tmpPath file d), Err SstRenameFailed)
           | SstNoFault \<Rightarrow>
               (let ds = d # tmp_states tmpPath file d in ds @ [fs_rename tmpPath p (last ds)], Ok ()))"

definition WriteSSTable ::
  "fs \<Rightarrow> MemTableEntry list \<Rightarrow> string \<Rightarrow> sst_fault \<Rightarrow> fs \<times> (sst_error, unit) outcome" where
  "WriteSSTable d entries p fault =
     (let (ds, result) = WriteSSTable_run d entries p fault in (last ds, result))"

lemma last_tmp_states [simp]: "last (tmp_states t w d) = fs_write t w d" "tmp_states t w d \<noteq> []"
  by (simp_all add: tmp_states_def)

text \<open>What is on disk after a call: the temporary file with the bytes \<open>w\<close>, removed or not.\<close>

definition after_remove :: "string \<Rightarrow> bool \<Rightarrow> bytes \<Rightarrow> fs \<Rightarrow> fs" where
  "after_remove t removed w d = (if removed then fs_remove t d else fs_write t w d)"

lemma last_deferred_remove [simp]:
  "last (deferred_remove t removed (d # tmp_states t w d)) = after_remove t removed w d"
  by (simp add: deferred_remove_def after_remove_def)

lemma read_after_remove [simp]:
  "fs_read (after_remove t removed w d) = (fs_read d)(t := if removed then None else Some w)"
  by (auto simp: after_remove_def update_conv' delete_conv' fun_eq_iff)

lemma WriteSSTable_eq:
  "WriteSSTable d es p fault =
     (if es = [] then (d, Err SstEmpty)
      else case fault of
          SstCreateFails \<Rightarrow> (d, Err SstCreateFailed)
        | SstWriteFails n removed \<Rightarrow> (after_remove (p @ ''.tmp'') removed (take n (sst_file es)) d, Err SstWriteFailed)
        | SstSyncFails removed \<Rightarrow> (after_remove (p @ ''.tmp'') removed (sst_file es) d, Err SstSyncFailed)
        | SstRenameFails removed \<Rightarrow> (after_remove (p @ ''.tmp'') removed (sst_file es) d, Err SstRenameFailed)
        | SstNoFault \<Rightarrow> (fs_write p (sst_file es) (fs_remove (p @ ''.tmp'') d), Ok ()))"
  by (simp add: WriteSSTable_def WriteSSTable_run_def Let_def split: sst_fault.split)

lemma read_tmp_states: "d' \<in> set (tmp_states t w d) \<Longrightarrow> q \<noteq> t \<Longrightarrow> fs_read d' q = fs_read d q"
  by (auto simp: tmp_states_def update_conv')

lemma set_deferred_remove:
  "set (deferred_remove t removed (d # tmp_states t w d)) =
     insert d (set (tmp_states t w d)) \<union> (if removed then {fs_remove t d} else {})"
  by (auto simp: deferred_remove_def)

section \<open>Opening\<close>

record SSTableReader =
  r_path :: string
  sparseIndex :: "indexEntry list"

function parse_index :: "bytes \<Rightarrow> indexEntry list" where
  "parse_index s =
     (if length s < 2 then []
      else
        let keyLen = unle (take 2 s)
        in if length s < 2 + keyLen + 8 then []
           else \<lparr>ix_key = take keyLen (drop 2 s),
                 ix_offset = int64_of (unle (take 8 (drop (2 + keyLen) s)))\<rparr>
                # parse_index (drop (2 + keyLen + 8) s))"
  by pat_completeness auto
termination
  by (relation "measure length") auto

declare parse_index.simps [simp del]

definition OpenSSTableReader :: "fs \<Rightarrow> string \<Rightarrow> (sst_error, SSTableReader) outcome" where
  "OpenSSTableReader d p =
     (case fs_read d p of
        None \<Rightarrow> Err SstOpenFailed
      | Some f \<Rightarrow>
          if length f < footerSize then Err (SstTooSmall (length f))
          else
            (case read_at f footerSize (int (length f) - int footerSize) of
               None \<Rightarrow> Err SstReadFooterFailed
             | Some footer \<Rightarrow>
                 let indexOffset = int64_of (unle (take 8 footer));
                     indexSize = int64_of (unle (drop 8 footer))
                 in if make_panics indexSize then Panic
                    else
                      (case read_at f (nat indexSize) indexOffset of
                         None \<Rightarrow> Err SstReadIndexFailed
                       | Some indexData \<Rightarrow>
                           Ok \<lparr>r_path = p, sparseIndex = parse_index indexData\<rparr>)))"

section \<open>Reading\<close>

text \<open>The binary search of \<open>Get\<close>: \<open>hi\<close> can become -1, so the bounds are integers.\<close>

function search_index :: "indexEntry list \<Rightarrow> bytes \<Rightarrow> int \<Rightarrow> int \<Rightarrow> int \<Rightarrow> int" where
  "search_index idx key lo hi startOffset =
     (if lo \<le> hi then
        let mid = (lo + hi) div 2
        in if bytes_Compare (ix_key (idx ! nat mid)) key \<le> 0
           then search_index idx key (mid + 1) hi (ix_offset (idx ! nat mid))
           else search_index idx key lo (mid - 1) startOffset
      else startOffset)"
  by pat_completeness auto
termination
  by (relation "measure (\<lambda>(idx, key, lo, hi, s). nat (hi - lo + 1))") (auto simp: Let_def)

declare search_index.simps [simp del]

text \<open>The scan loop of \<open>Get\<close> on the unread bytes; it runs to the end of the file.\<close>

function scan :: "bytes \<Rightarrow> bytes \<Rightarrow> slice \<times> bool" where
  "scan key s =
     (case read_full 7 s of
        None \<Rightarrow> (None, False)
      | Some (header, s1) \<Rightarrow>
          let keyLen = unle (take 2 header);
              valueLen = unle (take 4 (drop 2 header));
              op = header ! 6
          in case read_full keyLen s1 of
               None \<Rightarrow> (None, False)
             | Some (recordKey, s2) \<Rightarrow>
                 if bytes_Compare recordKey key > 0 then (None, False)
                 else
                   (case read_full valueLen s2 of
                      None \<Rightarrow> (None, False)
                    | Some (recordValue, s3) \<Rightarrow>
                        if bytes_Compare recordKey key = 0
                        then (if op = OpDelete then (None, True) else (Some recordValue, True))
                        else scan key s3))"
  by pat_completeness auto
termination
  by (relation "measure (length \<circ> snd)") (auto dest!: read_full_SomeD)

declare scan.simps [simp del]

definition sst_Get ::
  "fs \<Rightarrow> SSTableReader \<Rightarrow> bytes \<Rightarrow> (sst_error, slice \<times> bool) outcome" where
  "sst_Get d r key =
     (if sparseIndex r = [] then Ok (None, False)
      else
        let startOffset = search_index (sparseIndex r) key 0 (int (length (sparseIndex r)) - 1)
              (ix_offset (sparseIndex r ! 0))
        in case fs_read d (r_path r) of
             None \<Rightarrow> Err SstOpenFailed
           | Some f \<Rightarrow>
               if startOffset < 0 then Err SstSeekFailed
               else Ok (scan key (drop (nat startOffset) f)))"

section \<open>Lemmas: the written bytes\<close>

definition entry_fits :: "MemTableEntry \<Rightarrow> bool" where
  "entry_fits e \<longleftrightarrow> length (e_Key e) < 65536 \<and> length (slice_bytes (e_Value e)) < 2 ^ 32"

definition data_bytes :: "MemTableEntry list \<Rightarrow> bytes" where
  "data_bytes es = concat (map sst_record es)"

text \<open>The sparse index: every 16th entry with the offset of its record.\<close>

fun sparse :: "nat \<Rightarrow> nat \<Rightarrow> MemTableEntry list \<Rightarrow> indexEntry list" where
  "sparse i off [] = []"
| "sparse i off (e # es) =
     (if i mod sparseIndexInterval = 0
      then \<lparr>ix_key = e_Key e, ix_offset = int off\<rparr> # sparse (i + 1) (off + length (sst_record e)) es
      else sparse (i + 1) (off + length (sst_record e)) es)"

definition index_bytes :: "MemTableEntry list \<Rightarrow> bytes" where
  "index_bytes es = concat (map index_record (sparse 0 0 es))"

definition table_fits :: "MemTableEntry list \<Rightarrow> bool" where
  "table_fits es \<longleftrightarrow> list_all entry_fits es \<and> length (data_bytes es) < 2 ^ 63
     \<and> length (index_bytes es) \<le> 2 ^ 48"

lemma write_entries_eq: "write_entries i off es = (data_bytes es, sparse i off es)"
  by (induction es arbitrary: i off) (auto simp: data_bytes_def Let_def)

lemma sst_file_eq:
  "sst_file es = data_bytes es @ index_bytes es
     @ le 8 (length (data_bytes es)) @ le 8 (length (index_bytes es))"
  by (simp add: sst_file_def write_entries_eq index_bytes_def Let_def)

lemma sst_record_length: "length (sst_record e) = 7 + entry_bytes e"
  by (simp add: sst_record_def entry_bytes_def)

lemma data_bytes_simps [simp]:
  "data_bytes [] = []"
  "data_bytes (e # es) = sst_record e @ data_bytes es"
  "data_bytes (xs @ ys) = data_bytes xs @ data_bytes ys"
  by (simp_all add: data_bytes_def)

text \<open>Each index entry points at the record of its key.\<close>

lemma sparse_offset:
  "ie \<in> set (sparse i off es) \<Longrightarrow>
    \<exists>xs e ys. es = xs @ e # ys \<and> ix_key ie = e_Key e \<and> ix_offset ie = int (off + length (data_bytes xs))"
proof (induction es arbitrary: i off)
  case Nil
  then show ?case by simp
next
  case (Cons e es)
  have rest: ?case if ie: "ie \<in> set (sparse (i + 1) (off + length (sst_record e)) es)"
  proof -
    obtain xs e' ys where "es = xs @ e' # ys" "ix_key ie = e_Key e'"
        "ix_offset ie = int (off + length (sst_record e) + length (data_bytes xs))"
      using Cons.IH [OF ie] by blast
    then show ?thesis
      by (intro exI [of _ "e # xs"] exI [of _ e'] exI [of _ ys]) simp
  qed
  show ?case
  proof (cases "i mod sparseIndexInterval = 0 \<and> ie = \<lparr>ix_key = e_Key e, ix_offset = int off\<rparr>")
    case True
    then show ?thesis
      by (intro exI [of _ "[]"] exI [of _ e] exI [of _ es]) simp
  next
    case False
    with Cons.prems rest show ?thesis by (auto split: if_splits)
  qed
qed

lemma sparse_sorted:
  "keys_sorted es \<Longrightarrow> sorted_wrt (<) (map ix_key (sparse i off es))"
proof (induction es arbitrary: i off)
  case Nil
  then show ?case by simp
next
  case (Cons e es)
  have "e_Key e < ix_key ie" if ie: "ie \<in> set (sparse j o' es)" for ie j o'
  proof -
    have "ix_key ie \<in> e_Key ` set es"
      using sparse_offset [OF ie] by auto
    with Cons.prems show ?thesis by (auto simp: keys_sorted_def)
  qed
  with Cons show ?case by (auto simp: keys_sorted_def)
qed

lemma sparse_head:
  "es \<noteq> [] \<Longrightarrow> \<exists>idx. sparse 0 off es = \<lparr>ix_key = e_Key (hd es), ix_offset = int off\<rparr> # idx"
  by (cases es) auto

section \<open>Lemmas: opening a written table\<close>

lemma parse_index_record:
  assumes "length k < 65536" "0 \<le> off" "off < 2 ^ 63"
  shows "parse_index (index_record \<lparr>ix_key = k, ix_offset = off\<rparr> @ s)
    = \<lparr>ix_key = k, ix_offset = off\<rparr> # parse_index s"
proof -
  have o64: "nat (off mod 2 ^ 64) = nat off"
    using assms(2,3) by simp
  have kl: "unle (le 2 (length k)) = length k"
    using assms(1) by (simp add: unle_le_id)
  have off: "int64_of (unle (le 8 (nat off))) = off"
    using assms(2,3) by (simp add: unle_le_id)
  have parts: "index_record \<lparr>ix_key = k, ix_offset = off\<rparr> = le 2 (length k) @ k @ le 8 (nat off)"
    unfolding index_record_def by (simp only: o64 indexEntry.simps)
  show ?thesis
    by (subst parse_index.simps) (simp add: parts kl off Let_def)
qed

lemma parse_index_list:
  assumes "\<forall>ie \<in> set idx. length (ix_key ie) < 65536 \<and> 0 \<le> ix_offset ie \<and> ix_offset ie < 2 ^ 63"
  shows "parse_index (concat (map index_record idx)) = idx"
  using assms
proof (induction idx)
  case Nil
  show ?case by (subst parse_index.simps) simp
next
  case (Cons ie idx)
  have "ie = \<lparr>ix_key = ix_key ie, ix_offset = ix_offset ie\<rparr>"
    by simp
  with Cons parse_index_record [of "ix_key ie" "ix_offset ie" "concat (map index_record idx)"]
  show ?case by simp
qed

lemma data_bytes_prefix_le: "es = xs @ ys \<Longrightarrow> length (data_bytes xs) \<le> length (data_bytes es)"
  by simp

lemma parse_written_index:
  assumes "table_fits es"
  shows "parse_index (index_bytes es) = sparse 0 0 es"
  unfolding index_bytes_def
proof (rule parse_index_list, rule ballI)
  fix ie
  assume "ie \<in> set (sparse 0 0 es)"
  then obtain xs e ys where "es = xs @ e # ys" "ix_key ie = e_Key e"
      "ix_offset ie = int (0 + length (data_bytes xs))"
    using sparse_offset by blast
  moreover from this have "length (data_bytes xs) < 2 ^ 63"
    using assms data_bytes_prefix_le [of es xs "e # ys"] by (simp add: table_fits_def)
  ultimately show "length (ix_key ie) < 65536 \<and> 0 \<le> ix_offset ie \<and> ix_offset ie < 2 ^ 63"
    using assms by (simp add: table_fits_def entry_fits_def)
qed

lemma Open_written:
  assumes fits: "table_fits es" and f: "fs_read d p = Some (sst_file es)"
  shows "OpenSSTableReader d p = Ok \<lparr>r_path = p, sparseIndex = sparse 0 0 es\<rparr>"
proof -
  let ?d = "data_bytes es" and ?i = "index_bytes es"
  let ?ft = "le 8 (length ?d) @ le 8 (length ?i)"
  have bs: "sst_file es = (?d @ ?i) @ ?ft @ []" "sst_file es = ?d @ ?i @ ?ft"
    by (simp_all add: sst_file_eq)
  have len: "length (sst_file es) = length ?d + length ?i + footerSize"
    by (simp add: sst_file_eq footerSize_def)
  have ft: "read_at (sst_file es) footerSize (int (length (sst_file es)) - int footerSize) = Some ?ft"
    unfolding len by (subst bs(1), rule read_at_append) (simp_all add: footerSize_def)
  have small: "length ?d < 2 ^ 63" "length ?i \<le> 2 ^ 48"
    using fits by (simp_all add: table_fits_def)
  have off: "int64_of (unle (take 8 ?ft)) = int (length ?d)"
      "int64_of (unle (drop 8 ?ft)) = int (length ?i)"
    using small by (simp_all add: unle_le_id)
  have "\<not> make_panics (int (length ?i))"
    using small(2) by (simp add: make_panics_def)
  moreover have "read_at (sst_file es) (nat (int (length ?i))) (int (length ?d)) = Some ?i"
    by (subst bs(2), rule read_at_append) simp_all
  moreover have "\<not> length (sst_file es) < footerSize"
    by (simp add: len)
  ultimately show ?thesis
    by (simp only: OpenSSTableReader_def f option.case if_False ft Let_def off)
      (simp add: parse_written_index [OF fits])
qed

section \<open>Lemmas: the binary search\<close>

text \<open>The number of index entries with a key not above the one searched for.\<close>

definition index_pos :: "indexEntry list \<Rightarrow> bytes \<Rightarrow> nat" where
  "index_pos idx k = length (filter (\<lambda>ie. ix_key ie \<le> k) idx)"

lemma index_pos_eqI:
  assumes "\<forall>i < n. ix_key (idx ! i) \<le> k" "\<forall>i < length idx. n \<le> i \<longrightarrow> k < ix_key (idx ! i)"
    and "n \<le> length idx"
  shows "index_pos idx k = n"
proof -
  have "filter (\<lambda>ie. ix_key ie \<le> k) (take n idx) = take n idx"
    using assms(1,3) by (auto simp: filter_id_conv in_set_conv_nth)
  moreover have "filter (\<lambda>ie. ix_key ie \<le> k) (drop n idx) = []"
    using assms(2,3) by (auto simp: filter_empty_conv in_set_conv_nth not_le)
  moreover have "filter (\<lambda>ie. ix_key ie \<le> k) idx
      = filter (\<lambda>ie. ix_key ie \<le> k) (take n idx) @ filter (\<lambda>ie. ix_key ie \<le> k) (drop n idx)"
    by (simp flip: filter_append)
  ultimately show ?thesis
    using assms(3) by (simp add: index_pos_def)
qed

lemma sorted_filter_prefix:
  assumes "sorted_wrt (\<lambda>x y. ix_key x < ix_key y) idx" and "0 < length (filter (\<lambda>ie. ix_key ie \<le> k) idx)"
  defines "n \<equiv> length (filter (\<lambda>ie. ix_key ie \<le> k) idx)"
  shows "ix_key (idx ! (n - 1)) \<le> k \<and> idx ! (n - 1) \<in> set idx"
proof -
  have "filter (\<lambda>ie. ix_key ie \<le> k) idx = takeWhile (\<lambda>ie. ix_key ie \<le> k) idx"
    using assms(1) by (induction idx) (auto simp: takeWhile_eq_Nil_iff neq_Nil_conv not_le intro: less_trans)
  then have n: "n = length (takeWhile (\<lambda>ie. ix_key ie \<le> k) idx)" and pos: "0 < n"
    using assms(2) by (simp_all add: n_def)
  have "idx ! (n - 1) = takeWhile (\<lambda>ie. ix_key ie \<le> k) idx ! (n - 1)"
    using n pos by (simp add: takeWhile_nth)
  also have "\<dots> \<in> set (takeWhile (\<lambda>ie. ix_key ie \<le> k) idx)"
    using n pos by (intro nth_mem) simp
  finally show ?thesis
    by (auto dest: set_takeWhileD)
qed

lemma keys_below:
  assumes "sorted_wrt (<) (map ix_key idx)" "j < length idx" "ix_key (idx ! j) \<le> k" "i \<le> j"
  shows "ix_key (idx ! i) \<le> k"
proof (cases "i = j")
  case False
  then have "ix_key (idx ! i) < ix_key (idx ! j)"
    using assms(1,2,4) by (simp add: sorted_wrt_iff_nth_less)
  with assms(3) show ?thesis by (simp add: order.strict_implies_order order.strict_trans1)
qed (use assms(3) in simp)

lemma keys_above:
  assumes "sorted_wrt (<) (map ix_key idx)" "i < length idx" "k < ix_key (idx ! j)" "j \<le> i"
  shows "k < ix_key (idx ! i)"
proof (cases "i = j")
  case False
  then have "ix_key (idx ! j) < ix_key (idx ! i)"
    using assms(1,2,4) by (simp add: sorted_wrt_iff_nth_less)
  with assms(3) show ?thesis by (rule less_trans)
qed (use assms(3) in simp)

lemma search_index_correct:
  assumes "sorted_wrt (<) (map ix_key idx)"
    and "0 \<le> lo" "lo \<le> hi + 1" "hi < int (length idx)"
    and "\<forall>i < nat lo. ix_key (idx ! i) \<le> k"
    and "\<forall>i < length idx. hi < int i \<longrightarrow> k < ix_key (idx ! i)"
    and "s = (if lo = 0 then s0 else ix_offset (idx ! nat (lo - 1)))"
  shows "search_index idx k lo hi s =
    (if index_pos idx k = 0 then s0 else ix_offset (idx ! (index_pos idx k - 1)))" (is "_ = ?r idx k")
  using assms
proof (induction idx k lo hi s rule: search_index.induct)
  case (1 idx k lo hi s)
  note prems = "1.prems"
  define mid where "mid = (lo + hi) div 2"
  consider "hi = lo - 1" | "lo \<le> hi" "ix_key (idx ! nat mid) \<le> k" | "lo \<le> hi" "k < ix_key (idx ! nat mid)"
    using prems(3) by fastforce
  then show ?case
  proof cases
    case 1
    then have "index_pos idx k = nat lo"
      using prems by (intro index_pos_eqI) auto
    moreover have "search_index idx k lo hi s = s"
      by (subst search_index.simps) (simp add: 1)
    ultimately show ?thesis
      using prems(2,7) by (auto simp: nat_diff_distrib)
  next
    case 2
    then have c: "bytes_Compare (ix_key (idx ! nat mid)) k \<le> 0"
      by (simp add: order_simps)
    have m: "lo \<le> mid" "mid \<le> hi" "nat mid < length idx"
      using 2(1) prems(2,4) by (auto simp: mid_def)
    have "ix_key (idx ! i) \<le> k" if "i < nat (mid + 1)" for i
      using keys_below [OF prems(1) m(3) 2(2), of i] that by linarith
    with "1.IH"(1) [OF 2(1) mid_def c] m prems have "search_index idx k (mid + 1) hi (ix_offset (idx ! nat mid)) = ?r idx k"
      by auto
    then show ?thesis
      using 2(1) c by (subst search_index.simps) (simp add: mid_def [symmetric])
  next
    case 3
    then have c: "\<not> bytes_Compare (ix_key (idx ! nat mid)) k \<le> 0"
      by (simp add: order_simps)
    have m: "lo \<le> mid" "mid \<le> hi"
      using 3(1) prems(2,4) by (auto simp: mid_def)
    have "k < ix_key (idx ! i)" if "i < length idx" "mid - 1 < int i" for i
      using keys_above [OF prems(1) that(1) 3(2)] that(2) by linarith
    with "1.IH"(2) [OF 3(1) mid_def c] m prems have "search_index idx k lo (mid - 1) s = ?r idx k"
      by auto
    then show ?thesis
      using 3(1) c by (subst search_index.simps) (simp add: mid_def [symmetric])
  qed
qed

section \<open>Lemmas: the scan\<close>

definition entry_read :: "MemTableEntry \<Rightarrow> slice \<times> bool" where
  "entry_read e =
     (if e_Op e = OpDelete then (None, True) else (Some (slice_bytes (e_Value e)), True))"

lemma scan_record:
  assumes "entry_fits e"
  shows "scan k (sst_record e @ s) =
    (if k < e_Key e then (None, False)
     else if e_Key e = k then entry_read e else scan k s)"
proof -
  let ?v = "slice_bytes (e_Value e)"
  let ?h = "le 2 (length (e_Key e)) @ le 4 (length ?v) @ [e_Op e]"
  have h: "read_full 7 (?h @ e_Key e @ ?v @ s) = Some (?h, e_Key e @ ?v @ s)"
    by (rule read_full_append) simp
  have kl: "unle (take 2 ?h) = length (e_Key e)" and vl: "unle (take 4 (drop 2 ?h)) = length ?v"
      and op: "?h ! 6 = e_Op e"
    using assms by (simp_all add: entry_fits_def unle_le_id nth_append)
  have k: "read_full (length (e_Key e)) (e_Key e @ ?v @ s) = Some (e_Key e, ?v @ s)"
    and v: "read_full (length ?v) (?v @ s) = Some (?v, s)"
    by (rule read_full_append, rule refl)+
  have "sst_record e @ s = ?h @ e_Key e @ ?v @ s"
    by (simp add: sst_record_def)
  moreover have "scan k (?h @ e_Key e @ ?v @ s) =
    (if bytes_Compare (e_Key e) k > 0 then (None, False)
     else if bytes_Compare (e_Key e) k = 0
       then (if e_Op e = OpDelete then (None, True) else (Some ?v, True)) else scan k s)"
    by (simp only: scan.simps [of k "?h @ e_Key e @ ?v @ s"] h k v option.case prod.case Let_def kl vl op)
  ultimately show ?thesis
    by (simp add: order_simps entry_read_def)
qed

text \<open>
  The scan answers from the data records it passes, and if all their keys are smaller, it
  goes on in whatever follows them in the file.
\<close>

lemma scan_data:
  assumes "list_all entry_fits es" "keys_sorted es"
  shows "scan k (data_bytes es @ s) =
    (case find_entry k es of
       Some e \<Rightarrow> entry_read e
     | None \<Rightarrow> if \<exists>e \<in> set es. k < e_Key e then (None, False) else scan k s)"
  using assms
proof (induction es)
  case Nil
  then show ?case by (simp add: find_entry_def)
next
  case (Cons e es)
  have "\<forall>y \<in> set es. e_Key e < e_Key y"
    using Cons.prems(2) by (simp add: keys_sorted_def)
  moreover from this have "find_entry k es = None" if "k \<le> e_Key e"
    using that by (intro find_entry_above) auto
  moreover have "keys_sorted es"
    using Cons.prems(2) by (simp add: keys_sorted_def)
  ultimately show ?case
    using Cons by (auto simp: scan_record find_entry_def split: option.split)
qed

lemma find_entry_key: "find_entry k es = Some e \<Longrightarrow> e \<in> set es \<and> e_Key e = k"
  by (auto simp: find_entry_def find_Some_iff)

text \<open>The start of the scan skips only entries with smaller keys.\<close>

lemma search_start:
  assumes "keys_sorted es" "es \<noteq> []"
  defines "idx \<equiv> sparse 0 0 es"
  shows "\<exists>xs ys. es = xs @ ys \<and> (\<forall>x \<in> set xs. e_Key x < k) \<and>
    search_index idx k 0 (int (length idx) - 1) (ix_offset (idx ! 0)) = int (length (data_bytes xs))"
proof -
  have s: "search_index idx k 0 (int (length idx) - 1) (ix_offset (idx ! 0)) =
      (if index_pos idx k = 0 then ix_offset (idx ! 0) else ix_offset (idx ! (index_pos idx k - 1)))"
    unfolding idx_def using sparse_sorted [OF assms(1)] by (intro search_index_correct) auto
  show ?thesis
  proof (cases "index_pos idx k = 0")
    case True
    then show ?thesis
      using s sparse_head [OF assms(2), of 0] by (auto simp: idx_def intro: exI [of _ "[]"])
  next
    case False
    let ?ie = "idx ! (index_pos idx k - 1)"
    let ?l = "filter (\<lambda>ie. ix_key ie \<le> k) idx"
    have srt: "sorted_wrt (\<lambda>x y. ix_key x < ix_key y) idx"
      using sparse_sorted [OF assms(1)] by (simp add: idx_def sorted_wrt_map)
    have le: "ix_key ?ie \<le> k" and mem: "?ie \<in> set idx"
      using sorted_filter_prefix [OF srt, of k] False
      by (auto simp: index_pos_def)
    obtain xs e ys where es: "es = xs @ e # ys" "ix_key ?ie = e_Key e"
        "ix_offset ?ie = int (0 + length (data_bytes xs))"
      using sparse_offset mem unfolding idx_def by blast
    have "\<forall>x \<in> set xs. e_Key x < k"
      using assms(1) le es by (auto simp: keys_sorted_def sorted_wrt_append intro: less_le_trans)
    with es False s show ?thesis
      by (intro exI [of _ xs] exI [of _ "e # ys"]) simp
  qed
qed

text \<open>Opening and reading a table that was written.\<close>

definition sst_answer :: "MemTableEntry list \<Rightarrow> bytes \<Rightarrow> slice \<times> bool" where
  "sst_answer es k = (case find_entry k es of Some e \<Rightarrow> entry_read e | None \<Rightarrow> (None, False))"

lemma sst_Get_written:
  assumes srt: "keys_sorted es" and ne: "es \<noteq> []" and fits: "table_fits es"
    and f: "fs_read d p = Some (sst_file es)"
  shows "sst_Get d \<lparr>r_path = p, sparseIndex = sparse 0 0 es\<rparr> k =
    Ok (if \<exists>e \<in> set es. k \<le> e_Key e then sst_answer es k
        else scan k (index_bytes es @ le 8 (length (data_bytes es)) @ le 8 (length (index_bytes es))))"
proof -
  let ?tl = "index_bytes es @ le 8 (length (data_bytes es)) @ le 8 (length (index_bytes es))"
  obtain xs ys where xy: "es = xs @ ys" "\<forall>x \<in> set xs. e_Key x < k"
    "search_index (sparse 0 0 es) k 0 (int (length (sparse 0 0 es)) - 1) (ix_offset (sparse 0 0 es ! 0))
      = int (length (data_bytes xs))"
    using search_start [OF srt ne] by blast
  have "sparse 0 0 es \<noteq> []"
    using sparse_head [OF ne, of 0] by auto
  moreover have "drop (length (data_bytes xs)) (sst_file es) = data_bytes ys @ ?tl"
    by (simp add: sst_file_eq xy(1))
  ultimately have "sst_Get d \<lparr>r_path = p, sparseIndex = sparse 0 0 es\<rparr> k = Ok (scan k (data_bytes ys @ ?tl))"
    using f xy(3) by (simp add: sst_Get_def Let_def)
  moreover have "scan k (data_bytes ys @ ?tl) = (case find_entry k ys of
       Some e \<Rightarrow> entry_read e
     | None \<Rightarrow> if \<exists>e \<in> set ys. k < e_Key e then (None, False) else scan k ?tl)"
    using fits srt xy(1) by (intro scan_data) (auto simp: table_fits_def keys_sorted_def sorted_wrt_append)
  moreover have "find_entry k es = find_entry k ys"
    using xy by (simp add: find_entry_append)
  moreover have "(\<exists>e \<in> set es. k \<le> e_Key e) \<longleftrightarrow> (\<exists>e \<in> set ys. k \<le> e_Key e)"
    using xy by (auto simp: not_le [symmetric])
  moreover have "find_entry k ys \<noteq> None \<or> (\<exists>e \<in> set ys. k < e_Key e) \<longleftrightarrow> (\<exists>e \<in> set ys. k \<le> e_Key e)"
    by (auto simp: find_entry_def find_None_iff order.order_iff_strict)
  ultimately show ?thesis
    by (auto simp: sst_answer_def split: option.splits)
qed

section \<open>Properties\<close>

text \<open>Property C22. A table written from a non-empty key-sorted entry list can be opened, and
  \<open>Get\<close> (binary search in the sparse index, then a scan) answers every key up to the
  largest one exactly: the value of its entry, a tombstone as found without a value, and not
  found for a key without an entry.\<close>

theorem sstable_get_correct:
  assumes "keys_sorted es" and "es \<noteq> []" and "table_fits es" and "\<exists>e \<in> set es. k \<le> e_Key e"
  shows "\<exists>d' r. WriteSSTable d es p SstNoFault = (d', Ok ()) \<and> OpenSSTableReader d' p = Ok r \<and>
    sst_Get d' r k = Ok (case find_entry k es of Some e \<Rightarrow> entry_read e | None \<Rightarrow> (None, False))"
proof -
  let ?d' = "fs_write p (sst_file es) (fs_remove (p @ ''.tmp'') d)"
  have f: "fs_read ?d' p = Some (sst_file es)"
    by (simp add: update_conv')
  have "WriteSSTable d es p SstNoFault = (?d', Ok ())"
    using assms(2) by (simp add: WriteSSTable_eq)
  with Open_written [OF assms(3) f] sst_Get_written [OF assms(1,2,3) f, of k] assms(4) show ?thesis
    by (simp add: sst_answer_def)
qed

theorem sstable_get_correct_witness:
  "\<exists>d' r. WriteSSTable [] [\<lparr>e_Key = [97], e_Value = Some [1], e_Op = OpPut\<rparr>,
       \<lparr>e_Key = [98], e_Value = None, e_Op = OpDelete\<rparr>] ''t.sst'' SstNoFault = (d', Ok ()) \<and>
     OpenSSTableReader d' ''t.sst'' = Ok r \<and> sst_Get d' r [97] = Ok (Some [1], True)"
  using sstable_get_correct [of "[\<lparr>e_Key = [97], e_Value = Some [1], e_Op = OpPut\<rparr>,
      \<lparr>e_Key = [98], e_Value = None, e_Op = OpDelete\<rparr>]" "[97]" "[]" "''t.sst''"]
  by (simp add: keys_sorted_def table_fits_def entry_fits_def find_entry_def entry_read_def
      OpPut_def OpDelete_def sst_record_def index_bytes_def index_record_def sparseIndexInterval_def)

text \<open>Property C26. \<open>Get\<close> can find a key that was never written: the scan does not stop at the end of
  the data section, so for a key above the largest one it parses the index as records. In a
  table with the single key \<open>[0,0,0,0,op] @ x\<close> the key \<open>x @ [0,0,0,0,0]\<close> is "found" with an
  empty value.\<close>

theorem sstable_phantom_key:
  assumes k_def: "k = [0, 0, 0, 0, op] @ x" and q_def: "q = x @ [0, 0, 0, 0, 0]"
    and "op \<noteq> OpDelete" and "length x < 65000" and "length (slice_bytes v) < 2 ^ 32" and "k < q"
  shows "\<exists>d' r. WriteSSTable d [\<lparr>e_Key = k, e_Value = v, e_Op = OpPut\<rparr>] p SstNoFault = (d', Ok ()) \<and>
    OpenSSTableReader d' p = Ok r \<and> sst_Get d' r q = Ok (Some [], True) \<and> q \<noteq> k"
proof -
  let ?es = "[\<lparr>e_Key = k, e_Value = v, e_Op = OpPut\<rparr>]"
  let ?d' = "fs_write p (sst_file ?es) (fs_remove (p @ ''.tmp'') d)"
  have f: "fs_read ?d' p = Some (sst_file ?es)"
    by (simp add: update_conv')
  have ib: "index_bytes ?es = le 2 (length k) @ k @ le 8 0"
    by (simp add: index_bytes_def index_record_def)
  have lk: "length k = 5 + length x"
    by (simp add: k_def)
  have fits: "table_fits ?es" and srt: "keys_sorted ?es"
    using assms(4,5) lk by (simp_all add: table_fits_def entry_fits_def ib sst_record_length
        entry_bytes_def keys_sorted_def)
  let ?e = "\<lparr>e_Key = q, e_Value = Some [], e_Op = op\<rparr>"
  have "index_bytes ?es @ z = sst_record ?e @ [0, 0, 0] @ z" for z
    unfolding ib by (simp add: sst_record_def k_def q_def codec_simps)
  moreover have "scan q (sst_record ?e @ z) = (Some [], True)" for z
    using assms(3,4) by (subst scan_record) (simp_all add: entry_fits_def q_def entry_read_def)
  moreover have "\<not> (\<exists>e \<in> set ?es. q \<le> e_Key e)"
    using assms(6) by (simp add: not_le)
  ultimately have "sst_Get ?d' \<lparr>r_path = p, sparseIndex = sparse 0 0 ?es\<rparr> q = Ok (Some [], True)"
    using sst_Get_written [OF srt _ fits f, of q] by (simp only: if_False) blast
  then show ?thesis
    using Open_written [OF fits f] assms(6)
    by (intro exI [of _ ?d'] exI [of _ "\<lparr>r_path = p, sparseIndex = sparse 0 0 ?es\<rparr>"] conjI)
      (simp_all add: WriteSSTable_eq)
qed

theorem sstable_phantom_key_witness:
  "\<exists>d' r. WriteSSTable [] [\<lparr>e_Key = [0, 0, 0, 0, 1, 9], e_Value = Some [7], e_Op = OpPut\<rparr>] ''t.sst''
       SstNoFault = (d', Ok ()) \<and>
     OpenSSTableReader d' ''t.sst'' = Ok r \<and> sst_Get d' r [9, 0, 0, 0, 0, 0] = Ok (Some [], True)"
  using sstable_phantom_key [of "[0, 0, 0, 0, 1, 9]" 1 "[9]" "[9, 0, 0, 0, 0, 0]" "Some [7]" "[]" "''t.sst''"]
  by (auto simp: OpDelete_def)

text \<open>Fact. A table whose footer holds an index size of \<open>2 ^ 63\<close> or more makes
  \<open>OpenSSTableReader\<close> panic in \<open>make\<close> instead of returning an error, so a damaged file is
  not skipped when the data directory is opened.\<close>

theorem sstable_corrupt_footer_panics:
  assumes "fs_read d p = Some (x @ le 8 a @ le 8 b)" and "2 ^ 63 \<le> b" and "b < 2 ^ 64"
  shows "OpenSSTableReader d p = Panic"
proof -
  let ?f = "x @ le 8 a @ le 8 b"
  have "read_at (x @ (le 8 a @ le 8 b) @ []) footerSize (int (length ?f) - int footerSize)
      = Some (le 8 a @ le 8 b)"
    by (rule read_at_append) (simp_all add: footerSize_def)
  then have ft: "read_at ?f footerSize (int (length ?f) - int footerSize) = Some (le 8 a @ le 8 b)"
    by (simp only: append_Nil2)
  have "make_panics (int64_of (unle (drop 8 (le 8 a @ le 8 b))))"
    using assms(2,3) by (simp add: unle_le_id int64_of_def make_panics_def Let_def)
  moreover have "\<not> length ?f < footerSize"
    by (simp add: footerSize_def)
  ultimately show ?thesis
    by (simp only: OpenSSTableReader_def assms(1) option.case if_False ft Let_def if_True)
qed

theorem sstable_corrupt_footer_panics_witness:
  "OpenSSTableReader [(''s.sst'', [1, 2] @ le 8 0 @ le 8 (2 ^ 63))] ''s.sst'' = Panic"
  by (rule sstable_corrupt_footer_panics [of _ _ "[1, 2]" 0 "2 ^ 63"]) simp_all

text \<open>Property C28. Writing a table is atomic: at every moment of the call the table's path holds what it held
  before or the complete new file, and no other name but the temporary one has changed. A call that
  succeeds ends with the complete file under the path and without the temporary file. A call that fails
  (creating, at any byte of writing, syncing or renaming) ends with the path as before; the
  temporary file is gone, or, if the deferred removal fails too, holds the part that was written.\<close>

theorem sstable_write_atomic:
  "(\<forall>d' \<in> set (fst (WriteSSTable_run d es p fault)).
      (fs_read d' p = fs_read d p \<or> fs_read d' p = Some (sst_file es)) \<and>
      (\<forall>q. q \<noteq> p \<and> q \<noteq> p @ ''.tmp'' \<longrightarrow> fs_read d' q = fs_read d q)) \<and>
   (case WriteSSTable d es p fault of
      (d', Ok _) \<Rightarrow> es \<noteq> [] \<and> fault = SstNoFault \<and> fs_read d' p = Some (sst_file es) \<and> fs_read d' (p @ ''.tmp'') = None
    | (d', Err _) \<Rightarrow> fs_read d' p = fs_read d p \<and>
        fs_read d' (p @ ''.tmp'') =
          (if es = [] \<or> fault = SstCreateFails then fs_read d (p @ ''.tmp'')
           else case fault of
               SstWriteFails n removed \<Rightarrow> if removed then None else Some (take n (sst_file es))
             | SstSyncFails removed \<Rightarrow> if removed then None else Some (sst_file es)
             | SstRenameFails removed \<Rightarrow> if removed then None else Some (sst_file es))
    | (d', Panic) \<Rightarrow> False)"
proof (intro conjI ballI)
  fix d' assume "d' \<in> set (fst (WriteSSTable_run d es p fault))"
  then show "fs_read d' p = fs_read d p \<or> fs_read d' p = Some (sst_file es)"
    and "\<forall>q. q \<noteq> p \<and> q \<noteq> p @ ''.tmp'' \<longrightarrow> fs_read d' q = fs_read d q"
    by (auto simp: WriteSSTable_run_def Let_def set_deferred_remove read_tmp_states update_conv'
        delete_conv' split: if_splits sst_fault.splits)
next
  show "case WriteSSTable d es p fault of
      (d', Ok _) \<Rightarrow> es \<noteq> [] \<and> fault = SstNoFault \<and> fs_read d' p = Some (sst_file es) \<and> fs_read d' (p @ ''.tmp'') = None
    | (d', Err _) \<Rightarrow> fs_read d' p = fs_read d p \<and>
        fs_read d' (p @ ''.tmp'') =
          (if es = [] \<or> fault = SstCreateFails then fs_read d (p @ ''.tmp'')
           else case fault of
               SstWriteFails n removed \<Rightarrow> if removed then None else Some (take n (sst_file es))
             | SstSyncFails removed \<Rightarrow> if removed then None else Some (sst_file es)
             | SstRenameFails removed \<Rightarrow> if removed then None else Some (sst_file es))
    | (d', Panic) \<Rightarrow> False"
    by (cases fault) (simp_all add: WriteSSTable_eq update_conv' delete_conv')
qed

theorem sstable_write_atomic_witness:
  "fs_read (fst (WriteSSTable [(''t.sst'', [1])] [\<lparr>e_Key = [97], e_Value = None, e_Op = OpPut\<rparr>]
     ''t.sst'' (SstWriteFails 3 False))) ''t.sst'' = Some [1] \<and>
   fs_read (fst (WriteSSTable [(''t.sst'', [1])] [\<lparr>e_Key = [97], e_Value = None, e_Op = OpPut\<rparr>]
     ''t.sst'' (SstWriteFails 3 False))) ''t.sst.tmp'' = Some [1, 0, 0]"
  using sstable_write_atomic [of "[(''t.sst'', [1])]" "[\<lparr>e_Key = [97], e_Value = None, e_Op = OpPut\<rparr>]" "''t.sst''" "SstWriteFails 3 False"]
  by (simp add: WriteSSTable_eq sst_file_def sst_record_def le_2 le_4 Let_def)

end
