(* ===== verification/Compaction.thy ===== *)
theory Compaction
  imports SSTable "HOL-Library.Char_ord" "HOL-Library.Product_Lexorder"
begin

text \<open>
  Compaction (\<open>internal/storage/compaction.go\<close>): reading all records of a table, the stable
  merge by key and file age, the file listing, \<open>compactFiles\<close> and \<open>maybeCompact\<close>. File
  names are relative to the data directory. The clock value that names the new table is an
  argument. The theorems: reading back a written table, the merge as "newest version wins,
  tombstones are dropped", and the decision of \<open>maybeCompact\<close>.
\<close>

section \<open>Integers from bytes\<close>

definition bytesToUint16 :: "bytes \<Rightarrow> 16 word" where
  "bytesToUint16 b = ucast (b ! 0) OR push_bit 8 (ucast (b ! 1))"

definition bytesToUint32 :: "bytes \<Rightarrow> 32 word" where
  "bytesToUint32 b =
     ucast (b ! 0) OR push_bit 8 (ucast (b ! 1)) OR push_bit 16 (ucast (b ! 2))
       OR push_bit 24 (ucast (b ! 3))"

definition bytesToUint64 :: "bytes \<Rightarrow> 64 word" where
  "bytesToUint64 b =
     ucast (b ! 0) OR push_bit 8 (ucast (b ! 1)) OR push_bit 16 (ucast (b ! 2))
       OR push_bit 24 (ucast (b ! 3)) OR push_bit 32 (ucast (b ! 4))
       OR push_bit 40 (ucast (b ! 5)) OR push_bit 48 (ucast (b ! 6))
       OR push_bit 56 (ucast (b ! 7))"

section \<open>Reading all records\<close>

record ssRecord =
  s_key :: bytes
  s_value :: slice
  s_op :: OpType

lemma read_from_decreases:
  "read_at f 7 pos = Some h \<Longrightarrow>
    nat (int (length f) - (pos + 7 + int a + int b)) < nat (int (length f) - pos)"
  "read_at f 7 pos = Some h \<Longrightarrow>
    nat (int (length f) - (pos + 7 + int a)) < nat (int (length f) - pos)"
  by (auto dest!: read_at_bounds [rotated])

function read_from :: "bytes \<Rightarrow> int \<Rightarrow> int \<Rightarrow> ssRecord list" where
  "read_from f indexOffset pos =
     (if pos < indexOffset then
        (case read_at f 7 pos of
           None \<Rightarrow> []
         | Some headerBuf \<Rightarrow>
             let keyLen = unat (bytesToUint16 (take 2 headerBuf));
                 valueLen = unat (bytesToUint32 (take 4 (drop 2 headerBuf)));
                 op = headerBuf ! 6
             in case read_at f keyLen (pos + 7) of
                  None \<Rightarrow> []
                | Some key \<Rightarrow>
                    if valueLen > 0 then
                      (case read_at f valueLen (pos + 7 + int keyLen) of
                         None \<Rightarrow> []
                       | Some value \<Rightarrow>
                           \<lparr>s_key = key, s_value = Some value, s_op = op\<rparr>
                             # read_from f indexOffset (pos + 7 + int keyLen + int valueLen))
                    else
                      \<lparr>s_key = key, s_value = None, s_op = op\<rparr>
                        # read_from f indexOffset (pos + 7 + int keyLen))
      else [])"
  by pat_completeness auto
termination
  by (relation "measure (\<lambda>(f, indexOffset, pos). nat (int (length f) - pos))")
    (simp_all only: in_measure split_conv read_from_decreases wf_measure)

declare read_from.simps [simp del]

definition readAllSSTableRecords :: "fs \<Rightarrow> string \<Rightarrow> (sst_error, ssRecord list) outcome" where
  "readAllSSTableRecords d p =
     (case fs_read d p of
        None \<Rightarrow> Err SstOpenFailed
      | Some f \<Rightarrow>
          if length f < footerSize then Err (SstTooSmall (length f))
          else
            (case read_at f footerSize (int (length f) - int footerSize) of
               None \<Rightarrow> Err SstReadFooterFailed
             | Some footer \<Rightarrow>
                 Ok (read_from f (int64_of (unat (bytesToUint64 (take 8 footer)))) 0)))"

section \<open>The merge\<close>

record versionedEntry =
  v_key :: bytes
  v_value :: slice
  v_op :: OpType
  fileIdx :: nat

definition ve_less :: "versionedEntry \<Rightarrow> versionedEntry \<Rightarrow> bool" where
  "ve_less a b =
     (let cmp = bytes_Compare (v_key a) (v_key b)
      in if cmp \<noteq> 0 then cmp < 0 else fileIdx a > fileIdx b)"

text \<open>\<open>sort.SliceStable\<close>: the stable sort by the given order.\<close>

fun insert_stable :: "('a \<Rightarrow> 'a \<Rightarrow> bool) \<Rightarrow> 'a \<Rightarrow> 'a list \<Rightarrow> 'a list" where
  "insert_stable lt x [] = [x]"
| "insert_stable lt x (y # ys) =
     (if lt y x then y # insert_stable lt x ys else x # y # ys)"

definition SliceStable :: "('a \<Rightarrow> 'a \<Rightarrow> bool) \<Rightarrow> 'a list \<Rightarrow> 'a list" where
  "SliceStable lt xs = foldr (insert_stable lt) xs []"

definition versioned :: "nat \<Rightarrow> ssRecord \<Rightarrow> versionedEntry" where
  "versioned i e = \<lparr>v_key = s_key e, v_value = s_value e, v_op = s_op e, fileIdx = i\<rparr>"

fun all_versions :: "nat \<Rightarrow> ssRecord list list \<Rightarrow> versionedEntry list" where
  "all_versions i [] = []"
| "all_versions i (rs # files) = map (versioned i) rs @ all_versions (i + 1) files"

text \<open>The loop over the sorted entries; \<open>None\<close> is the initial nil \<open>lastKey\<close>.\<close>

fun merge_entries :: "bytes option \<Rightarrow> versionedEntry list \<Rightarrow> MemTableEntry list" where
  "merge_entries lastKey [] = []"
| "merge_entries lastKey (e # es) =
     (if lastKey = Some (v_key e) then merge_entries lastKey es
      else if v_op e = OpDelete then merge_entries (Some (v_key e)) es
      else \<lparr>e_Key = v_key e, e_Value = v_value e, e_Op = v_op e\<rparr>
             # merge_entries (Some (v_key e)) es)"

definition merge_files :: "ssRecord list list \<Rightarrow> MemTableEntry list" where
  "merge_files files = merge_entries None (SliceStable ve_less (all_versions 0 files))"

section \<open>Files\<close>

text \<open>\<open>%d\<close> of a non-negative number, and \<open>filepath.Ext\<close> of a file name.\<close>

fun decimal :: "nat \<Rightarrow> string" where
  "decimal n =
     (if n < 10 then [char_of (48 + n)] else decimal (n div 10) @ [char_of (48 + n mod 10)])"

declare decimal.simps [simp del]

lemma decimal_value: "foldl (\<lambda>a c. a * 10 + (of_char c - 48)) 0 (decimal n) = (n :: nat)"
proof (induction n rule: decimal.induct)
  case (1 n)
  have "of_char (char_of (48 + d) :: char) = 48 + d" if "d < 10" for d :: nat
    using that by simp
  with 1 show ?case
    by (subst decimal.simps) (simp add: mult.commute)
qed

lemma decimal_inj: "decimal n = decimal m \<Longrightarrow> n = m"
  by (metis decimal_value)

lemma length_decimal: "n < 10 ^ k \<Longrightarrow> 0 < k \<Longrightarrow> length (decimal n) \<le> k"
proof (induction k arbitrary: n)
  case (Suc k)
  show ?case
  proof (cases "n < 10")
    case False
    with Suc.prems have "n div 10 < 10 ^ k" "0 < k"
      by (auto simp: less_mult_imp_div_less mult.commute intro!: Nat.gr0I)
    with Suc.IH [of "n div 10"] False show ?thesis
      by (subst decimal.simps) simp
  qed (subst decimal.simps, simp)
qed simp

definition filepath_Ext :: "string \<Rightarrow> string" where
  "filepath_Ext name =
     (let suffix = takeWhile (\<lambda>c. c \<noteq> CHR ''.'') (rev name)
      in if length suffix = length name then [] else CHR ''.'' # rev suffix)"

definition findSSTableFiles :: "fs \<Rightarrow> string list" where
  "findSSTableFiles d = sort (filter (\<lambda>n. filepath_Ext n = ''.sst'') (map fst d))"

record CompactionResult =
  NewSSTablePath :: string
  RemovedPaths :: "string list"

text \<open>Opens and reads run over the paths in order and stop at the first error.\<close>

fun open_all :: "fs \<Rightarrow> string list \<Rightarrow> (sst_error, SSTableReader list) outcome" where
  "open_all d [] = Ok []"
| "open_all d (p # ps) =
     (case OpenSSTableReader d p of
        Ok r \<Rightarrow> (case open_all d ps of Ok rs \<Rightarrow> Ok (r # rs) | Err e \<Rightarrow> Err e | Panic \<Rightarrow> Panic)
      | Err e \<Rightarrow> Err e
      | Panic \<Rightarrow> Panic)"

fun read_all :: "fs \<Rightarrow> SSTableReader list \<Rightarrow> (sst_error, ssRecord list list) outcome" where
  "read_all d [] = Ok []"
| "read_all d (r # rs) =
     (case readAllSSTableRecords d (r_path r) of
        Ok es \<Rightarrow> (case read_all d rs of Ok ess \<Rightarrow> Ok (es # ess) | Err e \<Rightarrow> Err e | Panic \<Rightarrow> Panic)
      | Err e \<Rightarrow> Err e
      | Panic \<Rightarrow> Panic)"

definition compacted_name :: "nat \<Rightarrow> string" where
  "compacted_name now = ''sstable_'' @ decimal now @ ''_compacted.sst''"

definition compactFiles ::
  "fs \<Rightarrow> string list \<Rightarrow> nat \<Rightarrow> sst_fault \<Rightarrow> fs \<times> (sst_error, CompactionResult) outcome" where
  "compactFiles d paths now fault =
     (case open_all d paths of
        Err e \<Rightarrow> (d, Err e)
      | Panic \<Rightarrow> (d, Panic)
      | Ok readers \<Rightarrow>
          (case read_all d readers of
             Err e \<Rightarrow> (d, Err e)
           | Panic \<Rightarrow> (d, Panic)
           | Ok files \<Rightarrow>
               let merged = merge_files files
               in if merged = [] then (d, Ok \<lparr>NewSSTablePath = [], RemovedPaths = paths\<rparr>)
                  else
                    let newPath = compacted_name now
                    in case WriteSSTable d merged newPath fault of
                         (d', Ok _) \<Rightarrow> (d', Ok \<lparr>NewSSTablePath = newPath, RemovedPaths = paths\<rparr>)
                       | (d', Err e) \<Rightarrow> (d', Err e)
                       | (d', Panic) \<Rightarrow> (d', Panic)))"

definition compactionThreshold :: nat where "compactionThreshold = 4"

text \<open>\<open>maybeCompact\<close>: \<open>None\<close> when there are too few tables, otherwise the result it sends.\<close>

definition maybeCompact ::
  "fs \<Rightarrow> nat \<Rightarrow> sst_fault \<Rightarrow> fs \<times> (sst_error, CompactionResult option) outcome" where
  "maybeCompact d now fault =
     (let paths = findSSTableFiles d
      in if length paths < compactionThreshold then (d, Ok None)
         else
           (case compactFiles d (take 2 paths) now fault of
              (d', Ok result) \<Rightarrow> (d', Ok (Some result))
            | (d', Err e) \<Rightarrow> (d', Err e)
            | (d', Panic) \<Rightarrow> (d', Panic)))"

section \<open>Lemmas: integers\<close>

lemma high_bits_zero:
  fixes w :: "'a::len word"
  assumes "unat w < 2 ^ n" "n \<le> m"
  shows "\<not> bit w m"
proof -
  have "unat w < 2 ^ m"
    using assms by (meson less_le_trans one_le_numeral power_increasing)
  then have "\<not> bit (unat w) m"
    by (simp add: bit_iff_odd)
  then show ?thesis
    by (auto simp: bit_unsigned_iff dest: bit_imp_le_length)
qed

lemma unat_push_or:
  fixes w :: "'a::len word" and b :: byte
  assumes "unat w < 2 ^ n" "n + 8 \<le> LENGTH('a)"
  shows "unat (w OR push_bit n (ucast b)) = unat w + 2 ^ n * unat b"
proof -
  have "w AND push_bit n (ucast b) = 0"
    by (rule bit_word_eqI) (use high_bits_zero [OF assms(1)] in \<open>auto simp: bit_and_iff bit_push_bit_iff\<close>)
  then have "w OR push_bit n (ucast b) = w + push_bit n (ucast b)"
    by (simp add: disjunctive_add_eq_or)
  also have "\<dots> = of_nat (unat w + 2 ^ n * unat b)"
    by (simp add: push_bit_eq_mult mult.commute)
  finally have eq: "w OR push_bit n (ucast b) = of_nat (unat w + 2 ^ n * unat b)" .
  have "unat b + 1 \<le> 256"
    using unat_byte_less [of b] by linarith
  then have "2 ^ n * (unat b + 1) \<le> 2 ^ n * 256"
    by (rule mult_le_mono2)
  then have "unat w + 2 ^ n * unat b < 2 ^ n * 256"
    using assms(1) by (simp only: distrib_left mult_1_right)
  also have "\<dots> = 2 ^ (n + 8)"
    by (simp add: power_add)
  also have "\<dots> \<le> 2 ^ LENGTH('a)"
    using assms(2) by (rule power_increasing) simp
  finally show ?thesis
    unfolding eq unat_of_nat by simp
qed

lemma unle_append: "unle (a @ b) = unle a + 256 ^ length a * unle b"
  by (induction a) (simp_all add: algebra_simps)

lemma unat_or_byte:
  fixes w :: "'a::len word"
  assumes "unat w = unle bs" "8 * length bs = n" "n + 8 \<le> LENGTH('a)"
  shows "unat (w OR push_bit n (ucast b)) = unle (bs @ [b])"
proof -
  have "256 ^ length bs = (2 :: nat) ^ n"
    unfolding assms(2) [symmetric] by (simp add: power_mult)
  with unle_less [of bs] unat_push_or [of w n b] assms show ?thesis
    by (simp add: unle_append)
qed

lemma unat_ucast_byte:
  assumes "8 \<le> LENGTH('a)"
  shows "unat (ucast (b :: byte) :: 'a::len word) = unle [b]"
proof -
  have "unat b < 2 ^ 8"
    using unat_byte_less [of b] by simp
  also have "\<dots> \<le> (2 :: nat) ^ LENGTH('a)"
    using assms by (rule power_increasing) simp
  finally show ?thesis
    by (simp add: unsigned_ucast_eq take_bit_nat_eq_self)
qed

lemma bytesToUint16_unle: "unat (bytesToUint16 [a, b]) = unle [a, b]"
proof -
  have "unat (ucast a OR push_bit 8 (ucast b) :: 16 word) = unle ([a] @ [b])"
    by (intro unat_or_byte unat_ucast_byte) simp_all
  then show ?thesis by (simp add: bytesToUint16_def)
qed

lemma bytesToUint32_unle: "unat (bytesToUint32 [a, b, c, d]) = unle [a, b, c, d]"
proof -
  have "unat (((ucast a OR push_bit 8 (ucast b)) OR push_bit 16 (ucast c)) OR push_bit 24 (ucast d)
      :: 32 word) = unle ((([a] @ [b]) @ [c]) @ [d])"
    by (intro unat_or_byte unat_ucast_byte) simp_all
  then show ?thesis by (simp add: bytesToUint32_def or.assoc)
qed

lemma bytesToUint64_unle:
  "unat (bytesToUint64 [a, b, c, d, e, f, g, h]) = unle [a, b, c, d, e, f, g, h]"
proof -
  have "unat (((((((ucast a OR push_bit 8 (ucast b)) OR push_bit 16 (ucast c)) OR push_bit 24 (ucast d))
      OR push_bit 32 (ucast e)) OR push_bit 40 (ucast f)) OR push_bit 48 (ucast g)) OR push_bit 56 (ucast h)
      :: 64 word) = unle ((((((([a] @ [b]) @ [c]) @ [d]) @ [e]) @ [f]) @ [g]) @ [h])"
    by (intro unat_or_byte unat_ucast_byte) simp_all
  then show ?thesis by (simp add: bytesToUint64_def or.assoc)
qed

lemma bytesToUint_unle:
  "length bs = 2 \<Longrightarrow> unat (bytesToUint16 bs) = unle bs"
  "length bs = 4 \<Longrightarrow> unat (bytesToUint32 bs) = unle bs"
  "length bs = 8 \<Longrightarrow> unat (bytesToUint64 bs) = unle bs"
  by (auto simp: length_Suc_conv eval_nat_numeral
      simp del: unle.simps simp: bytesToUint16_unle bytesToUint32_unle bytesToUint64_unle)

section \<open>Lemmas: reading a written table\<close>

definition entry_record :: "MemTableEntry \<Rightarrow> ssRecord" where
  "entry_record e = \<lparr>s_key = e_Key e, s_value = nil_if_empty (e_Value e), s_op = e_Op e\<rparr>"

lemma read_from_record:
  assumes "entry_fits e" and pos: "pos = int (length pre)" and "pos < n"
  shows "read_from (pre @ sst_record e @ s) n pos =
    entry_record e # read_from (pre @ sst_record e @ s) n (pos + int (length (sst_record e)))"
proof -
  let ?v = "slice_bytes (e_Value e)"
  let ?h = "le 2 (length (e_Key e)) @ le 4 (length ?v) @ [e_Op e]"
  let ?f = "pre @ sst_record e @ s"
  have parts: "?f = pre @ ?h @ (e_Key e @ ?v @ s)" "?f = (pre @ ?h) @ e_Key e @ (?v @ s)"
      "?f = (pre @ ?h @ e_Key e) @ ?v @ s"
    by (simp_all add: sst_record_def)
  have h: "read_at ?f 7 pos = Some ?h"
    unfolding parts(1) by (rule read_at_append) (simp_all add: pos)
  have k: "read_at ?f (length (e_Key e)) (pos + 7) = Some (e_Key e)"
    unfolding parts(2) by (rule read_at_append) (simp_all add: pos)
  have v: "read_at ?f (length ?v) (pos + 7 + int (length (e_Key e))) = Some ?v"
    unfolding parts(3) by (rule read_at_append) (simp_all add: pos)
  have len: "unat (bytesToUint16 (take 2 ?h)) = length (e_Key e)"
      "unat (bytesToUint32 (take 4 (drop 2 ?h))) = length ?v" "?h ! 6 = e_Op e"
    using assms(1) by (simp_all add: entry_fits_def bytesToUint_unle unle_le_id nth_append)
  have l: "int (length (sst_record e)) = 7 + int (length (e_Key e)) + int (length ?v)"
    by (simp add: sst_record_length entry_bytes_def)
  have "read_from ?f n pos =
    (if length ?v > 0
     then \<lparr>s_key = e_Key e, s_value = Some ?v, s_op = e_Op e\<rparr>
       # read_from ?f n (pos + 7 + int (length (e_Key e)) + int (length ?v))
     else \<lparr>s_key = e_Key e, s_value = None, s_op = e_Op e\<rparr>
       # read_from ?f n (pos + 7 + int (length (e_Key e))))"
    by (simp only: read_from.simps [of ?f n pos] assms(3) if_True h option.case Let_def len k v)
  then show ?thesis
    by (cases "e_Value e") (auto simp: l entry_record_def nil_if_empty_def add.assoc)
qed

lemma read_from_data:
  assumes "list_all entry_fits es"
  shows "read_from (pre @ data_bytes es @ s) (int (length pre + length (data_bytes es))) (int (length pre))
    = map entry_record es"
  using assms
proof (induction es arbitrary: pre)
  case Nil
  show ?case by (simp add: read_from.simps)
next
  case (Cons e es)
  let ?pre = "pre @ sst_record e"
  have "int (length pre) < int (length pre + length (data_bytes (e # es)))"
    by (simp add: sst_record_length)
  with Cons.prems read_from_record [of e "int (length pre)" pre _ "data_bytes es @ s"] Cons.IH [of ?pre]
  show ?case by (simp add: algebra_simps)
qed

lemma readAll_written:
  assumes fits: "table_fits es" and f: "fs_read d p = Some (sst_file es)"
  shows "readAllSSTableRecords d p = Ok (map entry_record es)"
proof -
  let ?d = "data_bytes es" and ?i = "index_bytes es"
  let ?ft = "le 8 (length ?d) @ le 8 (length ?i)"
  have bs: "sst_file es = (?d @ ?i) @ ?ft @ []" "sst_file es = [] @ ?d @ (?i @ ?ft)"
    by (simp_all add: sst_file_eq)
  have len: "length (sst_file es) = length ?d + length ?i + footerSize"
    by (simp add: sst_file_eq footerSize_def)
  have ft: "read_at (sst_file es) footerSize (int (length (sst_file es)) - int footerSize) = Some ?ft"
    unfolding len by (subst bs(1), rule read_at_append) (simp_all add: footerSize_def)
  have off: "int64_of (unat (bytesToUint64 (take 8 ?ft))) = int (length ?d)"
    using fits by (simp add: bytesToUint_unle unle_le_id table_fits_def)
  have "read_from (sst_file es) (int (length ?d)) 0 = map entry_record es"
    unfolding bs(2) using read_from_data [of es "[]"] fits by (simp add: table_fits_def)
  moreover have "\<not> length (sst_file es) < footerSize"
    by (simp add: len)
  ultimately show ?thesis
    by (simp only: readAllSSTableRecords_def f option.case if_False ft off)
qed

section \<open>Lemmas: the merge\<close>

definition version_rank :: "versionedEntry \<Rightarrow> bytes \<times> int" where
  "version_rank e = (v_key e, - int (fileIdx e))"

lemma ve_less_rank: "ve_less a b \<longleftrightarrow> version_rank a < version_rank b"
  by (auto simp: ve_less_def version_rank_def Let_def order_simps)

lemma insert_stable_insort: "insert_stable ve_less x ys = insort_key version_rank x ys"
  by (induction ys) (auto simp: ve_less_rank not_le)

lemma SliceStable_sort: "SliceStable ve_less xs = sort_key version_rank xs"
  by (induction xs) (simp_all add: SliceStable_def insert_stable_insort)

lemma insort_key_right:
  "\<forall>y \<in> set ys. f y < f x \<Longrightarrow> insort_key f x (ys @ xs) = ys @ insort_key f x xs"
  by (induction ys) (auto simp: not_le)

lemma sort_key_swap:
  "\<forall>x \<in> set xs. \<forall>y \<in> set ys. f y < f x \<Longrightarrow> sort_key f (xs @ ys) = sort_key f ys @ sort_key f xs"
  by (induction xs) (simp_all add: insort_key_right)

lemma sort_key_const:
  assumes "\<forall>x \<in> set xs. f x = c"
  shows "sort_key f xs = xs"
  using assms by (intro sort_key_id_if_sorted) (induction xs, auto)

lemma all_versions_idx: "e \<in> set (all_versions i files) \<Longrightarrow> i \<le> fileIdx e"
  by (induction files arbitrary: i) (fastforce simp: versioned_def)+

text \<open>The versions of one key, in the sorted order: the newest file first.\<close>

lemma versions_of_key:
  "filter (\<lambda>e. v_key e = k) (sort_key version_rank (all_versions i (rs # files))) =
     filter (\<lambda>e. v_key e = k) (sort_key version_rank (all_versions (i + 1) files))
       @ map (versioned i) (filter (\<lambda>r. s_key r = k) rs)"
proof -
  let ?A = "filter (\<lambda>e. v_key e = k) (map (versioned i) rs)"
  let ?B = "filter (\<lambda>e. v_key e = k) (all_versions (i + 1) files)"
  have "\<forall>x \<in> set ?A. \<forall>y \<in> set ?B. version_rank y < version_rank x"
    using all_versions_idx [of _ "i + 1" files]
    by (fastforce simp: version_rank_def versioned_def)
  then have "sort_key version_rank (?A @ ?B) = sort_key version_rank ?B @ sort_key version_rank ?A"
    by (rule sort_key_swap)
  moreover have "sort_key version_rank ?A = ?A"
    by (rule sort_key_const [of _ _ "(k, - int i)"]) (auto simp: version_rank_def versioned_def)
  ultimately show ?thesis
    by (simp add: filter_sort filter_map comp_def versioned_def)
qed

lemma find_eq_hd_filter: "find P xs = (case filter P xs of [] \<Rightarrow> None | x # _ \<Rightarrow> Some x)"
  by (induction xs) auto

text \<open>The entry of a key that is visible in a sequence of tables, oldest first.\<close>

fun newest :: "bytes \<Rightarrow> MemTableEntry list list \<Rightarrow> MemTableEntry option" where
  "newest k [] = None"
| "newest k (es # ess) = (case newest k ess of None \<Rightarrow> find_entry k es | Some e \<Rightarrow> Some e)"

definition version_entry :: "versionedEntry \<Rightarrow> MemTableEntry" where
  "version_entry v = \<lparr>e_Key = v_key v, e_Value = v_value v, e_Op = v_op v\<rparr>"

definition entry_reread :: "MemTableEntry \<Rightarrow> MemTableEntry" where
  "entry_reread e = e\<lparr>e_Value := nil_if_empty (e_Value e)\<rparr>"

lemma entry_ops [simp]: "e_Op (version_entry v) = v_op v" "e_Op (entry_reread e) = e_Op e"
  by (simp_all add: version_entry_def entry_reread_def)

lemma filter_entry_record:
  "filter (\<lambda>r. s_key r = k) (map entry_record es) = map entry_record (filter (\<lambda>e. e_Key e = k) es)"
  by (simp add: filter_map comp_def entry_record_def)

lemma version_entry_record: "version_entry (versioned i (entry_record e)) = entry_reread e"
  by (simp add: version_entry_def versioned_def entry_record_def entry_reread_def)

lemma find_newest_version:
  "map_option version_entry
     (find (\<lambda>e. v_key e = k) (sort_key version_rank (all_versions i (map (map entry_record) tables))))
   = map_option entry_reread (newest k tables)"
proof (induction tables arbitrary: i)
  case Nil
  show ?case by simp
next
  case (Cons es tables)
  let ?B = "filter (\<lambda>e. v_key e = k)
    (sort_key version_rank (all_versions (i + 1) (map (map entry_record) tables)))"
  show ?case
    using Cons.IH [of "i + 1"]
    unfolding find_eq_hd_filter list.map versions_of_key filter_entry_record
    by (cases ?B; cases "filter (\<lambda>e. e_Key e = k) es"; cases "newest k tables")
      (auto simp: version_entry_record find_entry_def find_eq_hd_filter split: option.splits)
qed

lemma merge_entries_keys: "e \<in> set (merge_entries l es) \<Longrightarrow> e_Key e \<in> v_key ` set es"
  by (induction l es rule: merge_entries.induct) (auto split: if_splits)

lemma merge_entries_above:
  assumes "sorted (a # map v_key es)" "x \<in> set (merge_entries (Some a) es)"
  shows "a < e_Key x"
  using assms
proof (induction es)
  case (Cons e es)
  show ?case
  proof (cases "v_key e = a")
    case True
    with Cons show ?thesis by simp
  next
    case False
    with Cons.prems have "a < v_key e" "\<forall>y \<in> set es. v_key e \<le> v_key y"
      by auto
    with Cons.prems False show ?thesis
      by (auto split: if_splits dest!: merge_entries_keys intro: less_le_trans)
  qed
qed simp

lemma merge_entries_correct:
  assumes "sorted (map v_key es)" "\<forall>a. l = Some a \<longrightarrow> (\<forall>e \<in> set es. a \<le> v_key e)"
  shows "keys_sorted (merge_entries l es) \<and>
    find_entry k (merge_entries l es) =
      (if l = Some k then None
       else case find (\<lambda>e. v_key e = k) es of
              None \<Rightarrow> None
            | Some e \<Rightarrow> if v_op e = OpDelete then None else Some (version_entry e))"
  using assms
proof (induction l es rule: merge_entries.induct)
  case (1 l)
  show ?case by (simp add: keys_sorted_def find_entry_def)
next
  case (2 l e es)
  have above: "\<forall>x \<in> set es. v_key e \<le> v_key x" and srt: "sorted (map v_key es)"
    using "2.prems"(1) by auto
  have lt: "\<forall>x \<in> set (merge_entries (Some (v_key e)) es). v_key e < e_Key x"
    using merge_entries_above [of "v_key e" es] above srt by auto
  have none: "find (\<lambda>x. v_key x = k) es = None" if "l = Some k" "v_key e \<noteq> k"
    using "2.prems"(2) that above by (auto simp: find_None_iff)
  show ?case
  proof (cases "l = Some (v_key e)")
    case True
    with 2 srt show ?thesis by auto
  next
    case False
    then show ?thesis
      using "2.IH"(2,3) above srt lt none
      by (auto simp: keys_sorted_def find_entry_def version_entry_def split: if_splits)
  qed
qed

lemma sort_key_version_keys: "sorted (map v_key (sort_key version_rank xs))"
proof -
  have "sorted (map fst (map version_rank (sort_key version_rank xs)))"
    using sorted_sort_key [of version_rank xs]
    by (simp add: sorted_wrt_map) (auto intro: sorted_wrt_mono_rel [rotated] simp: less_eq_prod_def)
  then show ?thesis by (simp add: version_rank_def comp_def)
qed

lemma merge_files_correct:
  "keys_sorted (merge_files (map (map entry_record) tables))"
  "find_entry k (merge_files (map (map entry_record) tables)) =
     (case newest k tables of
        None \<Rightarrow> None
      | Some e \<Rightarrow> if e_Op e = OpDelete then None else Some (entry_reread e))"
proof -
  let ?es = "sort_key version_rank (all_versions 0 (map (map entry_record) tables))"
  note m = merge_entries_correct [OF sort_key_version_keys, of None, simplified]
  show "keys_sorted (merge_files (map (map entry_record) tables))"
    using m by (simp add: merge_files_def SliceStable_sort)
  show "find_entry k (merge_files (map (map entry_record) tables)) =
     (case newest k tables of
        None \<Rightarrow> None
      | Some e \<Rightarrow> if e_Op e = OpDelete then None else Some (entry_reread e))"
    using m [of "all_versions 0 (map (map entry_record) tables)" k] find_newest_version [of k 0 tables]
    by (cases "newest k tables"; cases "find (\<lambda>e. v_key e = k) ?es")
      (auto simp: merge_files_def SliceStable_sort dest: arg_cong [of _ _ e_Op])
qed

section \<open>Lemmas: compacting files\<close>

text \<open>The given files are written tables with the given entries.\<close>

definition tables_at :: "fs \<Rightarrow> string list \<Rightarrow> MemTableEntry list list \<Rightarrow> bool" where
  "tables_at d paths tables \<longleftrightarrow>
     list_all2 (\<lambda>p es. fs_read d p = Some (sst_file es) \<and> table_fits es) paths tables"

lemma open_all_tables:
  "tables_at d paths tables \<Longrightarrow>
    open_all d paths = Ok (map2 (\<lambda>p es. \<lparr>r_path = p, sparseIndex = sparse 0 0 es\<rparr>) paths tables)"
  unfolding tables_at_def by (induction rule: list_all2_induct) (auto dest!: Open_written [rotated])

lemma read_all_tables:
  "tables_at d paths tables \<Longrightarrow>
    read_all d (map2 (\<lambda>p es. \<lparr>r_path = p, sparseIndex = sparse 0 0 es\<rparr>) paths tables)
      = Ok (map (map entry_record) tables)"
  unfolding tables_at_def by (induction rule: list_all2_induct) (auto dest!: readAll_written [rotated])

lemma compactFiles_tables:
  assumes "tables_at d paths tables"
  defines "merged \<equiv> merge_files (map (map entry_record) tables)"
  shows "compactFiles d paths now SstNoFault =
    (if merged = [] then (d, Ok \<lparr>NewSSTablePath = [], RemovedPaths = paths\<rparr>)
     else (fs_write (compacted_name now) (sst_file merged) (fs_remove (compacted_name now @ ''.tmp'') d),
           Ok \<lparr>NewSSTablePath = compacted_name now, RemovedPaths = paths\<rparr>))"
  using open_all_tables [OF assms(1)] read_all_tables [OF assms(1)]
  by (simp add: compactFiles_def merged_def WriteSSTable_eq Let_def)

section \<open>Properties\<close>

text \<open>Property C33. Compacting tables writes one key-sorted table in which every key has its entry
  from the newest of them, given that the paths are ordered oldest first; a key whose newest
  entry is a tombstone has none. No table is written when nothing is left, and the input
  files are only named as removable.\<close>

theorem compaction_keeps_newest:
  assumes "list_all2 (\<lambda>p es. fs_read d p = Some (sst_file es) \<and> table_fits es) paths tables"
  shows "\<exists>d' newPath merged.
    compactFiles d paths now SstNoFault = (d', Ok \<lparr>NewSSTablePath = newPath, RemovedPaths = paths\<rparr>) \<and>
    keys_sorted merged \<and>
    (\<forall>k. find_entry k merged =
       (case newest k tables of
          None \<Rightarrow> None
        | Some e \<Rightarrow> if e_Op e = OpDelete then None else Some (entry_reread e))) \<and>
    (if merged = [] then newPath = [] \<and> d' = d
     else newPath = compacted_name now \<and> fs_read d' newPath = Some (sst_file merged))"
proof -
  let ?m = "merge_files (map (map entry_record) tables)"
  have t: "tables_at d paths tables"
    using assms by (simp add: tables_at_def)
  show ?thesis
    using compactFiles_tables [OF t, of now] merge_files_correct [where tables = tables]
    by (cases "?m = []") (auto simp: update_conv')
qed

theorem compaction_keeps_newest_witness:
  "\<exists>d' newPath merged.
    compactFiles
      [(''a.sst'', sst_file [\<lparr>e_Key = [1], e_Value = Some [5], e_Op = OpPut\<rparr>]),
       (''b.sst'', sst_file [\<lparr>e_Key = [1], e_Value = Some [6], e_Op = OpPut\<rparr>])]
      [''a.sst'', ''b.sst''] 7 SstNoFault
      = (d', Ok \<lparr>NewSSTablePath = newPath, RemovedPaths = [''a.sst'', ''b.sst'']\<rparr>) \<and>
    find_entry [1] merged = Some \<lparr>e_Key = [1], e_Value = Some [6], e_Op = OpPut\<rparr> \<and>
    fs_read d' newPath = Some (sst_file merged)"
proof -
  let ?a = "[\<lparr>e_Key = [1], e_Value = Some [5], e_Op = OpPut\<rparr>]"
  let ?b = "[\<lparr>e_Key = [1], e_Value = Some [6], e_Op = OpPut\<rparr>]"
  have "table_fits ?a" "table_fits ?b"
    by (simp_all add: table_fits_def entry_fits_def sst_record_def index_bytes_def index_record_def
        sparseIndexInterval_def)
  then have h: "list_all2 (\<lambda>p es. fs_read [(''a.sst'', sst_file ?a), (''b.sst'', sst_file ?b)] p
      = Some (sst_file es) \<and> table_fits es) [''a.sst'', ''b.sst''] [?a, ?b]"
    by simp
  have n: "newest [1] [?a, ?b] = Some (hd ?b)" "find_entry k [] = None" for k
    by (simp_all add: find_entry_def)
  obtain d' newPath merged where
    c: "compactFiles [(''a.sst'', sst_file ?a), (''b.sst'', sst_file ?b)] [''a.sst'', ''b.sst''] 7 SstNoFault
      = (d', Ok \<lparr>NewSSTablePath = newPath, RemovedPaths = [''a.sst'', ''b.sst'']\<rparr>)"
    and f: "find_entry [1] merged = (case newest [1] [?a, ?b] of
          None \<Rightarrow> None
        | Some e \<Rightarrow> if e_Op e = OpDelete then None else Some (entry_reread e))"
    and r: "if merged = [] then newPath = [] \<and> d' = [(''a.sst'', sst_file ?a), (''b.sst'', sst_file ?b)]
     else newPath = compacted_name 7 \<and> fs_read d' newPath = Some (sst_file merged)"
    using compaction_keeps_newest [OF h, of 7] by blast
  have e: "find_entry [1] merged = Some (hd ?b)"
    using f unfolding n(1) by (simp add: OpPut_def OpDelete_def entry_reread_def nil_if_empty_def)
  moreover from this have "merged \<noteq> []"
    using n(2) by auto
  ultimately show ?thesis
    using c r by auto
qed

end
