(* ===== verification/Engine.thy ===== *)
theory Engine
  imports Compaction
begin

text \<open>
  The storage engine (\<open>internal/storage/engine.go\<close>): \<open>Open\<close>, \<open>Put\<close>, \<open>Get\<close>, \<open>Delete\<close>,
  the flush of a full mem table, the application of compaction results and \<open>Close\<close>, on the
  log, the mem table and the tables of the other theories.

  The record \<open>Engine\<close> holds the fields of the Go struct (\<open>ctx_done\<close>: the context is cancelled), the data directory as files, and
  the buffer of the compactor's result channel. The flush releases the engine's lock while it
  writes the table, so it is two steps, \<open>flush_begin\<close> and \<open>flush_end\<close>; \<open>maybeFlushLocked\<close>
  is their composition when nothing runs in between. What the environment decides (random
  levels, failing writes, the clock) is the record \<open>Env\<close>.
\<close>

section \<open>The engine\<close>

record Engine =
  disk :: fs
  e_wal :: WAL
  e_mem :: MemTable
  sstables :: "SSTableReader list"
  resultCh :: "CompactionResult list"
  ctx_done :: bool

datatype eng_error =
    KeyEmpty | ErrNotFound | WALAppendFailed wal_error | RecoveryFailed wal_error
  | MkdirFailed | WALOpenFailed wal_error | ListFailed | WALCloseFailed wal_error

record Env =
  rnd :: "nat \<Rightarrow> bool"
  wal_fault :: write_fault
  now :: nat
  flush_fault :: sst_fault
  close_fault :: close_fault

text \<open>The I/O errors of \<open>Open\<close>: of \<open>os.MkdirAll\<close>, of the recovery, of the opening of the log and of
  \<open>os.ReadDir\<close>.\<close>

record OpenFaults =
  mkdir_fails :: bool
  recover_faults :: RecoverFaults
  log_open_fails :: bool
  list_fails :: bool

definition sound_disk :: OpenFaults where
  "sound_disk = \<lparr>mkdir_fails = False, recover_faults = sound_log, log_open_fails = False, list_fails = False\<rparr>"

definition memTableMaxSize :: int where "memTableMaxSize = 64 * 1024 * 1024"

definition wal_name :: string where "wal_name = ''wal.log''"

definition table_name :: "nat \<Rightarrow> string" where
  "table_name t = ''sstable_'' @ decimal t @ ''.sst''"

text \<open>The loop of \<open>Open\<close> over the table files: a file that cannot be opened is skipped.\<close>

fun open_tables :: "fs \<Rightarrow> string list \<Rightarrow> SSTableReader list option" where
  "open_tables d [] = Some []"
| "open_tables d (p # ps) =
     (case OpenSSTableReader d p of
        Ok r \<Rightarrow> map_option (Cons r) (open_tables d ps)
      | Err e \<Rightarrow> open_tables d ps
      | Panic \<Rightarrow> None)"

definition engine_Open :: "(nat \<Rightarrow> nat \<Rightarrow> bool) \<Rightarrow> fs \<Rightarrow> OpenFaults \<Rightarrow> (eng_error, Engine) outcome" where
  "engine_Open rnds d io =
     (if mkdir_fails io then Err MkdirFailed
      else
        (case Recover rnds d wal_name (recover_faults io) of
           Err x \<Rightarrow> Err (RecoveryFailed x)
         | Panic \<Rightarrow> Panic
         | Ok (mem, recordsReplayed, d1) \<Rightarrow>
             (case OpenWAL d1 wal_name (log_open_fails io) of
                Err x \<Rightarrow> Err (WALOpenFailed x)
              | Panic \<Rightarrow> Panic
              | Ok (d2, wal) \<Rightarrow>
                  if list_fails io then Err ListFailed
                  else
                    (case open_tables d2 (rev (findSSTableFiles d2)) of
                       None \<Rightarrow> Panic
                     | Some ssts \<Rightarrow>
                         Ok \<lparr>disk = d2, e_wal = wal, e_mem = mem, sstables = ssts, resultCh = [],
                              ctx_done = False\<rparr>))))"

section \<open>Flush\<close>

text \<open>Up to the unlock: the entries are taken and the engine gets an empty mem table.\<close>

definition flush_begin ::
  "Engine \<Rightarrow> nat \<Rightarrow> (Engine \<times> (MemTableEntry list \<times> string) option) option" where
  "flush_begin e t =
     (if mem_Size (e_mem e) < memTableMaxSize then Some (e, None)
      else
        (case mem_Entries (e_mem e) of
           None \<Rightarrow> None
         | Some entries \<Rightarrow> Some (e\<lparr>e_mem := NewMemTable\<rparr>, Some (entries, table_name t))))"

text \<open>The write of the table and, under the lock again, its reader.\<close>

definition flush_end ::
  "Engine \<Rightarrow> MemTableEntry list \<Rightarrow> string \<Rightarrow> sst_fault \<Rightarrow> Engine option" where
  "flush_end e entries sstPath fault =
     (case WriteSSTable (disk e) entries sstPath fault of
        (d, Err x) \<Rightarrow> Some (e\<lparr>disk := d\<rparr>)
      | (d, Panic) \<Rightarrow> None
      | (d, Ok _) \<Rightarrow>
          (case OpenSSTableReader d sstPath of
             Err x \<Rightarrow> Some (e\<lparr>disk := d\<rparr>)
           | Panic \<Rightarrow> None
           | Ok reader \<Rightarrow> Some (e\<lparr>disk := d, sstables := reader # sstables e\<rparr>)))"

definition maybeFlushLocked :: "Engine \<Rightarrow> Env \<Rightarrow> Engine option" where
  "maybeFlushLocked e env =
     (case flush_begin e (now env) of
        None \<Rightarrow> None
      | Some (e', None) \<Rightarrow> Some e'
      | Some (e', Some (entries, sstPath)) \<Rightarrow> flush_end e' entries sstPath (flush_fault env))"

section \<open>Operations\<close>

definition engine_Put ::
  "Engine \<Rightarrow> bytes \<Rightarrow> slice \<Rightarrow> Env \<Rightarrow> Engine \<times> (eng_error, unit) outcome" where
  "engine_Put e key value env =
     (if length key = 0 then (e, Err KeyEmpty)
      else
        (case wal_Append (disk e) (e_wal e) OpPut key value (wal_fault env) of
           (d, Err x) \<Rightarrow> (e\<lparr>disk := d\<rparr>, Err (WALAppendFailed x))
         | (d, Panic) \<Rightarrow> (e\<lparr>disk := d\<rparr>, Panic)
         | (d, Ok _) \<Rightarrow>
             (case mem_Put (e_mem e) key value (rnd env) of
                None \<Rightarrow> (e\<lparr>disk := d\<rparr>, Panic)
              | Some m \<Rightarrow>
                  (case maybeFlushLocked (e\<lparr>disk := d, e_mem := m\<rparr>) env of
                     None \<Rightarrow> (e\<lparr>disk := d, e_mem := m\<rparr>, Panic)
                   | Some e' \<Rightarrow> (e', Ok ())))))"

definition engine_Delete ::
  "Engine \<Rightarrow> bytes \<Rightarrow> Env \<Rightarrow> Engine \<times> (eng_error, unit) outcome" where
  "engine_Delete e key env =
     (if length key = 0 then (e, Err KeyEmpty)
      else
        (case wal_Append (disk e) (e_wal e) OpDelete key None (wal_fault env) of
           (d, Err x) \<Rightarrow> (e\<lparr>disk := d\<rparr>, Err (WALAppendFailed x))
         | (d, Panic) \<Rightarrow> (e\<lparr>disk := d\<rparr>, Panic)
         | (d, Ok _) \<Rightarrow>
             (case mem_Delete (e_mem e) key (rnd env) of
                None \<Rightarrow> (e\<lparr>disk := d\<rparr>, Panic)
              | Some m \<Rightarrow>
                  (case maybeFlushLocked (e\<lparr>disk := d, e_mem := m\<rparr>) env of
                     None \<Rightarrow> (e\<lparr>disk := d, e_mem := m\<rparr>, Panic)
                   | Some e' \<Rightarrow> (e', Ok ())))))"

definition value_result :: "slice \<Rightarrow> (eng_error, bytes) outcome" where
  "value_result val = (case val of None \<Rightarrow> Err ErrNotFound | Some v \<Rightarrow> Ok v)"

text \<open>The loop of \<open>Get\<close> over the tables: a read error goes on to the next table.\<close>

fun get_tables :: "fs \<Rightarrow> SSTableReader list \<Rightarrow> bytes \<Rightarrow> (eng_error, bytes) outcome" where
  "get_tables d [] key = Err ErrNotFound"
| "get_tables d (sst # ssts) key =
     (case sst_Get d sst key of
        Err x \<Rightarrow> get_tables d ssts key
      | Panic \<Rightarrow> Panic
      | Ok (val, found) \<Rightarrow> if found then value_result val else get_tables d ssts key)"

definition engine_Get :: "Engine \<Rightarrow> bytes \<Rightarrow> (eng_error, bytes) outcome" where
  "engine_Get e key =
     (if length key = 0 then Err KeyEmpty
      else
        (case mem_Get (e_mem e) key of
           None \<Rightarrow> Panic
         | Some (val, found) \<Rightarrow>
             if found then value_result val else get_tables (disk e) (sstables e) key))"

section \<open>Compaction results and shutdown\<close>

text \<open>\<open>kept\<close> are the paths whose \<open>os.Remove\<close> fails, which is logged only.\<close>

definition applyCompactionResult :: "Engine \<Rightarrow> CompactionResult \<Rightarrow> string list \<Rightarrow> Engine option" where
  "applyCompactionResult e result kept =
     (let removed = RemovedPaths result;
          newList = filter (\<lambda>sst. r_path sst \<notin> set removed) (sstables e);
          removeAll = fold fs_remove (filter (\<lambda>p. p \<notin> set kept) removed)
      in if NewSSTablePath result = [] then Some (e\<lparr>sstables := newList, disk := removeAll (disk e)\<rparr>)
         else
           (case OpenSSTableReader (disk e) (NewSSTablePath result) of
              Err x \<Rightarrow> Some (e\<lparr>sstables := newList, disk := removeAll (disk e)\<rparr>)
            | Panic \<Rightarrow> None
            | Ok reader \<Rightarrow>
                Some (e\<lparr>sstables := SliceStable (\<lambda>a b. r_path b < r_path a) (newList @ [reader]),
                         disk := removeAll (disk e)\<rparr>)))"

text \<open>One tick of the compactor, and one receive of \<open>processCompactionResults\<close>.\<close>

text \<open>
  A round of the compactor's loop that takes a tick. \<open>resultCh\<close> holds what is buffered and, behind it,
  what the compactor waits to send on a full buffer; the ticks of that time are dropped. A select
  that finds a tick (or a result) and a cancelled context both ready takes either, so the rounds do
  not depend on \<open>ctx_done\<close>.
\<close>

definition resultCh_capacity :: nat where "resultCh_capacity = 4"

definition compactor_tick :: "Engine \<Rightarrow> nat \<Rightarrow> sst_fault \<Rightarrow> Engine option" where
  "compactor_tick e t fault =
     (if length (resultCh e) > resultCh_capacity then Some e
      else case maybeCompact (disk e) t fault of
        (d, Ok (Some result)) \<Rightarrow> Some (e\<lparr>disk := d, resultCh := resultCh e @ [result]\<rparr>)
      | (d, Ok None) \<Rightarrow> Some (e\<lparr>disk := d\<rparr>)
      | (d, Err x) \<Rightarrow> Some (e\<lparr>disk := d\<rparr>)
      | (d, Panic) \<Rightarrow> None)"

definition processCompactionResults :: "Engine \<Rightarrow> string list \<Rightarrow> Engine option" where
  "processCompactionResults e kept =
     (case resultCh e of
        [] \<Rightarrow> Some e
      | result # rest \<Rightarrow> applyCompactionResult (e\<lparr>resultCh := rest\<rparr>) result kept)"

definition close_flush :: "Engine \<Rightarrow> Env \<Rightarrow> Engine option" where
  "close_flush e env =
     (if mem_Len (e_mem e) > 0 then
        (case mem_Entries (e_mem e) of
           None \<Rightarrow> None
         | Some entries \<Rightarrow>
             (case WriteSSTable (disk e) entries (table_name (now env)) (flush_fault env) of
                (d, Panic) \<Rightarrow> None
              | (d, _) \<Rightarrow> Some (e\<lparr>disk := d\<rparr>)))
      else Some e)"

definition engine_Close :: "Engine \<Rightarrow> Env \<Rightarrow> Engine \<times> (eng_error, unit) outcome" where
  "engine_Close e env =
     (case close_flush (e\<lparr>ctx_done := True\<rparr>) env of
        None \<Rightarrow> (e\<lparr>ctx_done := True\<rparr>, Panic)
      | Some e' \<Rightarrow>
          (case wal_Close (e_wal e') (close_fault env) of
             (w, Err x) \<Rightarrow> (e'\<lparr>e_wal := w\<rparr>, Err (WALCloseFailed x))
           | (w, Panic) \<Rightarrow> (e'\<lparr>e_wal := w\<rparr>, Panic)
           | (w, Ok _) \<Rightarrow> (e'\<lparr>e_wal := w\<rparr>, Ok ())))"

section \<open>Lemmas: file names\<close>

lemma takeWhile_rev_ext:
  "CHR ''.'' \<notin> set x \<Longrightarrow> filepath_Ext (p @ CHR ''.'' # x) = CHR ''.'' # x"
  by (simp add: filepath_Ext_def takeWhile_append takeWhile_eq_all_conv [THEN iffD2] Let_def)

lemma ext_names [simp]:
  "filepath_Ext (table_name t) = ''.sst''"
  "filepath_Ext (compacted_name t) = ''.sst''"
  "filepath_Ext (p @ ''.tmp'') = ''.tmp''"
  "filepath_Ext wal_name = ''.log''"
  using takeWhile_rev_ext [of "''sst''" "''sstable_'' @ decimal t"]
    takeWhile_rev_ext [of "''sst''" "''sstable_'' @ decimal t @ ''_compacted''"]
    takeWhile_rev_ext [of "''tmp''" p] takeWhile_rev_ext [of "''log''" "''wal''"]
  by (simp_all add: table_name_def compacted_name_def wal_name_def)

lemma other_ext [simp]:
  "filepath_Ext p = ''.sst'' \<Longrightarrow> p \<noteq> q @ ''.tmp''"
  "filepath_Ext p = ''.sst'' \<Longrightarrow> p \<noteq> wal_name"
  "wal_name \<noteq> q @ ''.tmp''"
  using ext_names(3) [of q] ext_names(4) by (auto simp del: ext_names)

section \<open>Lemmas: the end of a table\<close>

text \<open>The scan past the data section ends in the index, when the first key read as a length
  exceeds what is left of the file.\<close>

lemma scan_overrun:
  assumes "length s < 7 + unle (take 4 (drop 2 s))"
  shows "scan k s = (None, False)"
proof (cases "length s < 7")
  case True
  then show ?thesis by (subst scan.simps) (simp add: read_full_def)
next
  case False
  let ?n = "unle (take 2 s)" and ?s1 = "drop 7 s"
  have r: "read_full 7 s = Some (take 7 s, ?s1)"
    using False by (simp add: read_full_def)
  have "read_full (unle (take 4 (drop 2 s))) (drop m ?s1) = None" for m
    using assms False by (simp add: read_full_None)
  then show ?thesis
    by (subst scan.simps) (simp add: r read_full_def take_drop min_def Let_def)
qed

definition no_overrun :: "MemTableEntry list \<Rightarrow> bool" where
  "no_overrun t \<longleftrightarrow> 4 \<le> length (e_Key (hd t)) \<and>
     length (index_bytes t) + 16 \<le> unle (take 4 (e_Key (hd t)))"

lemma scan_tail:
  assumes "t \<noteq> []" "no_overrun t"
  shows "scan k (index_bytes t @ le 8 a @ le 8 b) = (None, False)"
proof -
  obtain e es where t: "t = e # es"
    using assms(1) by (cases t) auto
  have "take 4 (drop 2 (index_bytes t @ x)) = take 4 (e_Key e)" for x
    using assms(2) by (simp add: index_bytes_def index_record_def t no_overrun_def)
  with assms(2) show ?thesis
    by (intro scan_overrun) (simp add: no_overrun_def t)
qed

lemma sst_Get_exact:
  assumes "keys_sorted t" "t \<noteq> []" "table_fits t" "no_overrun t" "fs_read d p = Some (sst_file t)"
  shows "sst_Get d \<lparr>r_path = p, sparseIndex = sparse 0 0 t\<rparr> k = Ok (sst_answer t k)"
proof -
  have "sst_answer t k = (None, False)" if "\<not> (\<exists>e \<in> set t. k \<le> e_Key e)"
    using that by (auto simp: sst_answer_def find_entry_def find_Some_iff split: option.splits)
  with assms show ?thesis
    by (simp add: sst_Get_written scan_tail)
qed

section \<open>Lemmas: sizes\<close>

text \<open>
  Keys whose fourth byte is at least 8 (any text key of four characters or more): as a
  length they exceed every index that a flush writes.
\<close>

definition plain_key :: "bytes \<Rightarrow> bool" where
  "plain_key k \<longleftrightarrow> 4 \<le> length k \<and> length k \<le> 65535 \<and> 8 \<le> k ! 3"

definition entry_ok :: "MemTableEntry \<Rightarrow> bool" where
  "entry_ok e \<longleftrightarrow> plain_key (e_Key e) \<and> length (slice_bytes (e_Value e)) < 2 ^ 32 \<and>
     (e_Op e = OpDelete \<or> e_Op e = OpPut \<and> e_Value e \<noteq> None)"

lemma plain_key_length:
  assumes "plain_key k"
  shows "134217728 \<le> unle (take 4 k)"
proof -
  have "take (Suc 3) k = take 3 k @ [k ! 3]"
    using assms by (intro take_Suc_conv_app_nth) (simp add: plain_key_def)
  then have "unle (take 4 k) = unle (take 3 k) + 16777216 * unat (k ! 3)"
    using assms by (simp add: unle_append plain_key_def)
  moreover have "8 \<le> unat (k ! 3)"
    using assms by (simp add: plain_key_def word_le_nat_alt)
  ultimately show ?thesis by simp
qed

lemma length_index_record: "length (index_record ie) = 10 + length (ix_key ie)"
  by (simp add: index_record_def)

lemma length_index_sparse:
  "length (concat (map index_record (sparse i off es))) \<le> sum_list (map (\<lambda>e. 10 + length (e_Key e)) es)"
  by (induction es arbitrary: i off) (auto simp: length_index_record intro: le_SucI trans_le_add2)

lemma length_data_bytes: "length (data_bytes es) = sum_list (map (\<lambda>e. 7 + entry_bytes e) es)"
  by (induction es) (simp_all add: sst_record_length)

lemma sum_list_le_const: "\<forall>x \<in> set xs. f x \<le> (c :: nat) \<Longrightarrow> sum_list (map f xs) \<le> c * length xs"
  by (induction xs) auto

text \<open>A mem table of fewer than \<open>2 ^ 27\<close> entries becomes a table whose lengths all fit.\<close>

lemma table_fits_small:
  assumes "list_all entry_ok es" "length es \<le> 134217728"
  shows "table_fits es"
proof -
  have fits: "list_all entry_fits es"
    using assms(1) by (auto simp: list_all_iff entry_ok_def entry_fits_def plain_key_def)
  have "\<forall>e \<in> set es. 7 + entry_bytes e \<le> 8589934592"
    using fits by (auto simp: list_all_iff entry_fits_def entry_bytes_def)
  then have "length (data_bytes es) \<le> 8589934592 * length es"
    unfolding length_data_bytes by (rule sum_list_le_const)
  also have "\<dots> \<le> 8589934592 * 134217728"
    using assms(2) by (rule mult_le_mono2)
  finally have data: "length (data_bytes es) < 2 ^ 63"
    by simp
  have "\<forall>e \<in> set es. 10 + length (e_Key e) \<le> 131072"
    using fits by (auto simp: list_all_iff entry_fits_def)
  then have "sum_list (map (\<lambda>e. 10 + length (e_Key e)) es) \<le> 131072 * length es"
    by (rule sum_list_le_const)
  also have "\<dots> \<le> 131072 * 134217728"
    using assms(2) by (rule mult_le_mono2)
  finally have "length (index_bytes es) \<le> 2 ^ 48"
    using length_index_sparse [of 0 0 es] by (simp add: index_bytes_def)
  with fits data show ?thesis by (simp add: table_fits_def)
qed

text \<open>The keys of a mem table that one write has filled, and the index made from them.\<close>

lemma sum_keys_put_entry:
  "sum_list (map (\<lambda>e. length (e_Key e)) (put_entry x es)) \<le>
     length (e_Key x) + sum_list (map (\<lambda>e. length (e_Key e)) es)"
  by (induction es) auto

lemma sum_list_add_const: "sum_list (map (\<lambda>e. (c :: nat) + f e) es) = c * length es + sum_list (map f es)"
  by (induction es) auto

lemma sum_keys_le: "sum_list (map (\<lambda>e. length (e_Key e)) es) \<le> sum_list (map entry_bytes es)"
  by (rule sum_list_mono) (simp add: entry_bytes_def)

lemma index_small:
  assumes size: "sum_list (map entry_bytes es) + 64 * w < 67108864" and len: "length es \<le> w"
    and k: "length (e_Key x) \<le> 65535"
  shows "length (index_bytes (put_entry x es)) + 16 \<le> 134217728"
proof -
  let ?es = "put_entry x es"
  have "length (index_bytes ?es) \<le> 10 * length ?es + sum_list (map (\<lambda>e. length (e_Key e)) ?es)"
    using length_index_sparse [of 0 0 ?es] by (simp add: index_bytes_def sum_list_add_const)
  moreover have "length ?es \<le> Suc w"
    using length_put_entry [of x es] len by simp
  ultimately show ?thesis
    using sum_keys_put_entry [of x es] sum_keys_le [of es] size k by simp
qed

section \<open>The layers of an engine\<close>

text \<open>
  \<open>engine_rep e es w ts\<close>: the mem table holds the entries \<open>es\<close> and the readers, newest
  first, are on files written from the entry lists \<open>ts\<close>. \<open>lookup\<close> is the first entry of a
  key in such a sequence of layers, \<open>live\<close> the answer of \<open>Get\<close> for it.
\<close>

definition table_ok :: "fs \<Rightarrow> SSTableReader \<Rightarrow> MemTableEntry list \<Rightarrow> bool" where
  "table_ok d r t \<longleftrightarrow>
     r = \<lparr>r_path = r_path r, sparseIndex = sparse 0 0 t\<rparr> \<and> filepath_Ext (r_path r) = ''.sst'' \<and>
     fs_read d (r_path r) = Some (sst_file t) \<and> keys_sorted t \<and> t \<noteq> [] \<and> table_fits t \<and>
     no_overrun t \<and> list_all entry_ok t"

definition engine_rep ::
  "Engine \<Rightarrow> MemTableEntry list \<Rightarrow> nat \<Rightarrow> MemTableEntry list list \<Rightarrow> bool" where
  "engine_rep e es w ts \<longleftrightarrow>
     e_wal e = \<lparr>wal_path = wal_name, file_open = True\<rparr> \<and> mem_rep (e_mem e) es w \<and> list_all entry_ok es \<and>
     list_all2 (table_ok (disk e)) (sstables e) ts"

fun lookup :: "bytes \<Rightarrow> MemTableEntry list list \<Rightarrow> MemTableEntry option" where
  "lookup k [] = None"
| "lookup k (es # ess) = (case find_entry k es of None \<Rightarrow> lookup k ess | Some e \<Rightarrow> Some e)"

definition live :: "MemTableEntry option \<Rightarrow> (eng_error, bytes) outcome" where
  "live r =
     (case r of
        None \<Rightarrow> Err ErrNotFound
      | Some e \<Rightarrow> if e_Op e = OpDelete then Err ErrNotFound else Ok (slice_bytes (e_Value e)))"

definition engine_inv :: "Engine \<Rightarrow> bool" where
  "engine_inv e \<longleftrightarrow> mem_Size (e_mem e) < memTableMaxSize \<and> (\<exists>es w ts. engine_rep e es w ts)"

lemma table_ok_frame:
  "table_ok d r t \<Longrightarrow> fs_read d' (r_path r) = fs_read d (r_path r) \<Longrightarrow> table_ok d' r t"
  by (simp add: table_ok_def)

lemma tables_frame:
  assumes "list_all2 (table_ok d) rs ts"
    "\<And>r. r \<in> set rs \<Longrightarrow> filepath_Ext (r_path r) = ''.sst'' \<Longrightarrow> fs_read d' (r_path r) = fs_read d (r_path r)"
  shows "list_all2 (table_ok d') rs ts"
  using assms(1)
  by (rule list.rel_mono_strong) (use assms(2) in \<open>auto simp: table_ok_def\<close>)

lemma get_tables_rep:
  "list_all2 (table_ok d) rs ts \<Longrightarrow> get_tables d rs k = live (lookup k ts)"
proof (induction rule: list_all2_induct)
  case Nil
  show ?case by (simp add: live_def)
next
  case (Cons r rs t ts)
  have "sst_Get d r k = Ok (sst_answer t k)"
    using Cons(1) sst_Get_exact [of t d "r_path r" k] by (simp add: table_ok_def)
  with Cons(3) show ?case
    by (auto simp: sst_answer_def entry_read_def live_def value_result_def split: option.splits)
qed

lemma find_entry_ok: "list_all entry_ok es \<Longrightarrow> find_entry k es = Some e \<Longrightarrow> entry_ok e"
  by (auto simp: list_all_iff find_entry_def find_Some_iff)

lemma engine_repD:
  assumes "engine_rep e es w ts"
  shows "mem_rep (e_mem e) es w" "list_all entry_ok es"
    "list_all2 (table_ok (disk e)) (sstables e) ts"
  using assms by (simp_all add: engine_rep_def)

lemma engine_Get_rep:
  assumes rep: "engine_rep e es w ts" and "k \<noteq> []"
  shows "engine_Get e k = live (lookup k (es # ts))"
proof -
  have m: "mem_Get (e_mem e) k = Some (entry_result (find_entry k es))"
    using engine_repD(1) [OF rep] by (rule mem_Get_rep)
  have t: "get_tables (disk e) (sstables e) k = live (lookup k ts)"
    using rep by (simp add: engine_rep_def get_tables_rep)
  show ?thesis
    using rep find_entry_ok [of es k] assms(2) m t
    by (cases "find_entry k es")
      (auto simp: engine_Get_def engine_rep_def entry_result_def value_result_def
        live_def entry_ok_def OpPut_def OpDelete_def)
qed

section \<open>Lemmas: flush and writes\<close>

lemma WriteSSTable_other:
  assumes "WriteSSTable d es p fault = (d', r)" "q \<noteq> p" "q \<noteq> p @ ''.tmp''"
  shows "fs_read d' q = fs_read d q"
  using assms
  by (cases fault) (auto simp: WriteSSTable_eq Let_def delete_conv' update_conv' split: if_splits)

lemma WriteSSTable_ok:
  assumes "es \<noteq> []"
  obtains d' where "WriteSSTable d es p SstNoFault = (d', Ok ())" "fs_read d' p = Some (sst_file es)"
  using assms by (simp add: WriteSSTable_eq update_conv')

lemma WriteSSTable_fault:
  assumes "fault \<noteq> SstNoFault"
  shows "\<exists>d' r. WriteSSTable d es p fault = (d', Err r) \<and> (\<forall>q. q \<noteq> p @ ''.tmp'' \<longrightarrow> fs_read d' q = fs_read d q)"
  using assms by (cases fault; cases "es = []") (simp_all add: WriteSSTable_eq delete_conv')

lemma flush_end_rep:
  assumes rep: "engine_rep e es w ts" and t: "keys_sorted t" "t \<noteq> []" "table_fits t" "no_overrun t"
      "list_all entry_ok t"
    and p: "filepath_Ext p = ''.sst''" "p \<notin> r_path ` set (sstables e)"
  shows "\<exists>e'. flush_end e t p SstNoFault = Some e' \<and> engine_rep e' es w (t # ts) \<and> e_mem e' = e_mem e"
proof -
  obtain d' where d': "WriteSSTable (disk e) t p SstNoFault = (d', Ok ())" "fs_read d' p = Some (sst_file t)"
    using WriteSSTable_ok [OF t(2)] by metis
  let ?r = "\<lparr>r_path = p, sparseIndex = sparse 0 0 t\<rparr>"
  have o: "OpenSSTableReader d' p = Ok ?r"
    using Open_written t(3) d'(2) .
  have "fs_read d' (r_path r) = fs_read (disk e) (r_path r)"
    if "r \<in> set (sstables e)" "filepath_Ext (r_path r) = ''.sst''" for r
    using that p(2) by (intro WriteSSTable_other [OF d'(1)]) auto
  with engine_repD(3) [OF rep] have "list_all2 (table_ok d') (sstables e) ts"
    by (rule tables_frame)
  moreover have "table_ok d' ?r t"
    using t p d' by (simp add: table_ok_def)
  ultimately show ?thesis
    using rep d'(1) o by (simp add: flush_end_def engine_rep_def)
qed

text \<open>A flush that succeeds changes the layers but not what is visible in them.\<close>

lemma maybeFlushLocked_rep:
  assumes rep: "engine_rep e es w ts" and ne: "es \<noteq> []" and small: "length es \<le> 134217728" "no_overrun es"
    and env: "flush_fault env = SstNoFault" "table_name (now env) \<notin> r_path ` set (sstables e)"
  shows "\<exists>e' es' w' ts'. maybeFlushLocked e env = Some e' \<and> engine_rep e' es' w' ts' \<and>
    mem_Size (e_mem e') < memTableMaxSize \<and> (\<forall>k. lookup k (es' # ts') = lookup k (es # ts))"
proof (cases "mem_Size (e_mem e) < memTableMaxSize")
  case True
  then have "maybeFlushLocked e env = Some e"
    by (simp add: maybeFlushLocked_def flush_begin_def)
  with True rep show ?thesis by blast
next
  case False
  let ?e = "e\<lparr>e_mem := NewMemTable\<rparr>"
  have m: "mem_rep (e_mem e) es w" "list_all entry_ok es"
    using rep by (simp_all add: engine_rep_def)
  have b: "flush_begin e (now env) = Some (?e, Some (es, table_name (now env)))"
    using False mem_Entries_rep [OF m(1)] by (simp add: flush_begin_def)
  have rep0: "engine_rep ?e [] 0 ts"
    using rep mem_rep_new by (simp add: engine_rep_def)
  have srt: "keys_sorted es"
    using m(1) by (simp add: mem_rep_def)
  have "\<exists>e'. flush_end ?e es (table_name (now env)) SstNoFault = Some e' \<and>
      engine_rep e' [] 0 (es # ts) \<and> e_mem e' = e_mem ?e"
    using env(2) by (intro flush_end_rep [OF rep0 srt ne table_fits_small [OF m(2) small(1)] small(2) m(2)])
      simp_all
  then obtain e' where e': "flush_end ?e es (table_name (now env)) SstNoFault = Some e'"
      "engine_rep e' [] 0 (es # ts)" "e_mem e' = NewMemTable"
    by auto
  moreover have "maybeFlushLocked e env = Some e'"
    using b e'(1) env(1) by (simp add: maybeFlushLocked_def)
  moreover have "lookup k ([] # es # ts) = lookup k (es # ts)" for k
    by (simp add: find_entry_def)
  moreover have "mem_Size (e_mem e') < memTableMaxSize"
    using e'(3) by (simp add: mem_Size_def NewMemTable_def memTableMaxSize_def)
  ultimately show ?thesis by blast
qed

lemma put_entry_ok: "entry_ok x \<Longrightarrow> list_all entry_ok es \<Longrightarrow> list_all entry_ok (put_entry x es)"
  by (induction es) auto

lemma put_entry_Cons: "put_entry x es \<noteq> []"
  by (cases es) auto

lemma put_entry_no_overrun:
  assumes "mem_rep m es w" "mem_Size m < memTableMaxSize" "entry_ok x" "list_all entry_ok es"
  shows "no_overrun (put_entry x es)" "length (put_entry x es) \<le> 134217728"
proof -
  have w: "sum_list (map entry_bytes es) + 64 * w < 67108864" "length es \<le> w"
    using assms(1,2) by (auto simp: mem_rep_def mem_Size_def memTableMaxSize_def)
  then show "length (put_entry x es) \<le> 134217728"
    using length_put_entry [of x es] by simp
  have "entry_ok (hd (put_entry x es))"
    using put_entry_ok [OF assms(3,4)] put_entry_Cons [of x es] by (simp add: list_all_iff)
  then have h: "134217728 \<le> unle (take 4 (e_Key (hd (put_entry x es))))"
      "4 \<le> length (e_Key (hd (put_entry x es)))"
    by (auto simp: entry_ok_def plain_key_length plain_key_def)
  have "length (e_Key x) \<le> 65535"
    using assms(3) by (simp add: entry_ok_def plain_key_def)
  from index_small [OF w this] h show "no_overrun (put_entry x es)"
    by (simp add: no_overrun_def)
qed

text \<open>The common part of \<open>Put\<close> and \<open>Delete\<close>, from the appended record on.\<close>

lemma write_rep:
  assumes rep: "engine_rep e es w ts" and size: "mem_Size (e_mem e) < memTableMaxSize"
    and x: "entry_ok x" and m: "mem_rep m (put_entry x es) (Suc w)"
    and env: "flush_fault env = SstNoFault" "table_name (now env) \<notin> r_path ` set (sstables e)"
  shows "\<exists>e' es' w' ts'. maybeFlushLocked (e\<lparr>disk := fs_write wal_name c (disk e), e_mem := m\<rparr>) env = Some e' \<and>
    engine_rep e' es' w' ts' \<and> mem_Size (e_mem e') < memTableMaxSize \<and>
    (\<forall>k. lookup k (es' # ts') = (if k = e_Key x then Some x else lookup k (es # ts)))"
proof -
  let ?e = "e\<lparr>disk := fs_write wal_name c (disk e), e_mem := m\<rparr>"
  note es = engine_repD [OF rep]
  have "list_all2 (table_ok (fs_write wal_name c (disk e))) (sstables e) ts"
    using es(3) by (rule tables_frame) (simp add: update_conv')
  then have rep': "engine_rep ?e (put_entry x es) (Suc w) ts"
    using rep m put_entry_ok [OF x es(2)] by (simp add: engine_rep_def)
  have "table_name (now env) \<notin> r_path ` set (sstables ?e)"
    using env(2) by simp
  from maybeFlushLocked_rep [OF rep' put_entry_Cons _ _ env(1) this]
    put_entry_no_overrun [OF es(1) size x es(2)]
  obtain e' es' w' ts' where "maybeFlushLocked ?e env = Some e'" "engine_rep e' es' w' ts'"
      "mem_Size (e_mem e') < memTableMaxSize" "\<forall>k. lookup k (es' # ts') = lookup k (put_entry x es # ts)"
    by blast
  moreover have "keys_sorted es"
    using es(1) by (simp add: mem_rep_def)
  then have "lookup k (put_entry x es # ts) = (if k = e_Key x then Some x else lookup k (es # ts))" for k
    by (simp add: find_put_entry)
  ultimately show ?thesis by metis
qed

definition quiet :: "Engine \<Rightarrow> Env \<Rightarrow> bool" where
  "quiet e env \<longleftrightarrow> wal_fault env = NoFault \<and> flush_fault env = SstNoFault \<and>
     table_name (now env) \<notin> r_path ` set (sstables e)"

lemma table_name_inj: "table_name t = table_name t' \<Longrightarrow> t = t'"
  using decimal_inj by (auto simp: table_name_def)

lemma flush_paths:
  assumes "maybeFlushLocked e env = Some e'"
  shows "r_path ` set (sstables e') \<subseteq> insert (table_name (now env)) (r_path ` set (sstables e))"
  using assms
  by (auto simp: maybeFlushLocked_def flush_begin_def flush_end_def OpenSSTableReader_def Let_def
      split: if_splits option.splits prod.splits outcome.splits)

lemma append_ok:
  assumes "engine_rep e es w ts" "length k \<le> 65535"
  obtains c where "wal_Append (disk e) (e_wal e) op k v NoFault = (fs_write wal_name c (disk e), Ok ())"
  using assms by (simp add: wal_Append_def engine_rep_def)

lemma engine_Put_rep:
  assumes rep: "engine_rep e es w ts" and size: "mem_Size (e_mem e) < memTableMaxSize"
    and q: "quiet e env" and x: "entry_ok \<lparr>e_Key = k, e_Value = Some v, e_Op = OpPut\<rparr>"
  shows "\<exists>e' es' w' ts'. engine_Put e k (Some v) env = (e', Ok ()) \<and> engine_rep e' es' w' ts' \<and>
    mem_Size (e_mem e') < memTableMaxSize \<and>
    (\<forall>k'. lookup k' (es' # ts') = (if k' = k then Some \<lparr>e_Key = k, e_Value = Some v, e_Op = OpPut\<rparr>
      else lookup k' (es # ts)))"
proof -
  have k: "length k \<le> 65535" "k \<noteq> []"
    using x by (auto simp: entry_ok_def plain_key_def)
  obtain c where c: "wal_Append (disk e) (e_wal e) OpPut k (Some v) NoFault
      = (fs_write wal_name c (disk e), Ok ())"
    using append_ok [OF rep k(1)] by blast
  obtain m where m: "mem_Put (e_mem e) k (Some v) (rnd env) = Some m"
      "mem_rep m (put_entry \<lparr>e_Key = k, e_Value = Some v, e_Op = OpPut\<rparr> es) (Suc w)"
    using mem_Put_rep [OF engine_repD(1) [OF rep]] by blast
  have env: "flush_fault env = SstNoFault" "table_name (now env) \<notin> r_path ` set (sstables e)"
    using q by (simp_all add: quiet_def)
  have "engine_Put e k (Some v) env = (e', Ok ())"
    if "maybeFlushLocked (e\<lparr>disk := fs_write wal_name c (disk e), e_mem := m\<rparr>) env = Some e'" for e'
    using q c m(1) k(2) that by (simp add: engine_Put_def quiet_def)
  with write_rep [OF rep size x m(2) env, of c] show ?thesis
    unfolding MemTableEntry.select_convs by blast
qed

lemma engine_Delete_rep:
  assumes rep: "engine_rep e es w ts" and size: "mem_Size (e_mem e) < memTableMaxSize"
    and q: "quiet e env" and x: "entry_ok \<lparr>e_Key = k, e_Value = None, e_Op = OpDelete\<rparr>"
  shows "\<exists>e' es' w' ts'. engine_Delete e k env = (e', Ok ()) \<and> engine_rep e' es' w' ts' \<and>
    mem_Size (e_mem e') < memTableMaxSize \<and>
    (\<forall>k'. lookup k' (es' # ts') = (if k' = k then Some \<lparr>e_Key = k, e_Value = None, e_Op = OpDelete\<rparr>
      else lookup k' (es # ts)))"
proof -
  have k: "length k \<le> 65535" "k \<noteq> []"
    using x by (auto simp: entry_ok_def plain_key_def)
  obtain c where c: "wal_Append (disk e) (e_wal e) OpDelete k None NoFault
      = (fs_write wal_name c (disk e), Ok ())"
    using append_ok [OF rep k(1)] by blast
  obtain m where m: "mem_Delete (e_mem e) k (rnd env) = Some m"
      "mem_rep m (put_entry \<lparr>e_Key = k, e_Value = None, e_Op = OpDelete\<rparr> es) (Suc w)"
    using mem_Delete_rep [OF engine_repD(1) [OF rep]] by blast
  have env: "flush_fault env = SstNoFault" "table_name (now env) \<notin> r_path ` set (sstables e)"
    using q by (simp_all add: quiet_def)
  have "engine_Delete e k env = (e', Ok ())"
    if "maybeFlushLocked (e\<lparr>disk := fs_write wal_name c (disk e), e_mem := m\<rparr>) env = Some e'" for e'
    using q c m(1) k(2) that by (simp add: engine_Delete_def quiet_def)
  with write_rep [OF rep size x m(2) env, of c] show ?thesis
    unfolding MemTableEntry.select_convs by blast
qed

section \<open>The interface to the state machine\<close>

text \<open>
  What the replicated state machine relies on: in a benign environment a write succeeds,
  keeps the invariant, and changes the answer for its own key only.
\<close>

locale kv_store =
  fixes inv :: "'s \<Rightarrow> bool"
    and benign :: "'s \<Rightarrow> 'env \<Rightarrow> bool"
    and good_key :: "bytes \<Rightarrow> bool"
    and good_value :: "bytes \<Rightarrow> bool"
    and put :: "'s \<Rightarrow> bytes \<Rightarrow> slice \<Rightarrow> 'env \<Rightarrow> 's \<times> ('e, unit) outcome"
    and delete :: "'s \<Rightarrow> bytes \<Rightarrow> 'env \<Rightarrow> 's \<times> ('e, unit) outcome"
    and get :: "'s \<Rightarrow> bytes \<Rightarrow> ('e, bytes) outcome"
    and missing :: 'e
  assumes put_ok: "\<lbrakk>inv s; benign s env; good_key k; good_value v\<rbrakk> \<Longrightarrow>
      \<exists>s'. put s k (Some v) env = (s', Ok ()) \<and> inv s' \<and>
        (\<forall>k'. get s' k' = (if k' = k then Ok v else get s k'))"
    and delete_ok: "\<lbrakk>inv s; benign s env; good_key k\<rbrakk> \<Longrightarrow>
      \<exists>s'. delete s k env = (s', Ok ()) \<and> inv s' \<and>
        (\<forall>k'. get s' k' = (if k' = k then Err missing else get s k'))"
begin

text \<open>The last of two writes to a key wins, whatever the first one was.\<close>

lemma overwrite:
  assumes "inv s" "benign s env" "good_key k" "good_value v" "good_value v'"
    and "\<And>s'. put s k (Some v) env = (s', Ok ()) \<Longrightarrow> benign s' env'"
  shows "\<exists>s1 s2. put s k (Some v) env = (s1, Ok ()) \<and> put s1 k (Some v') env' = (s2, Ok ()) \<and> inv s2 \<and>
    (\<forall>k'. get s2 k' = (if k' = k then Ok v' else get s k'))"
proof -
  obtain s1 where s1: "put s k (Some v) env = (s1, Ok ())" "inv s1"
      "\<forall>k'. get s1 k' = (if k' = k then Ok v else get s k')"
    using put_ok [OF assms(1-4)] by blast
  obtain s2 where "put s1 k (Some v') env' = (s2, Ok ())" "inv s2"
      "\<forall>k'. get s2 k' = (if k' = k then Ok v' else get s1 k')"
    using put_ok [OF s1(2) assms(6) [OF s1(1)] assms(3,5)] by blast
  with s1 show ?thesis by auto
qed

end

lemma engine_Get_empty: "engine_Get e [] = Err KeyEmpty"
  by (simp add: engine_Get_def)

lemma engine_Get_layers:
  assumes "engine_rep e es w ts" "engine_rep e' es' w' ts'" "k \<noteq> []"
    and "\<forall>k'. lookup k' (es' # ts') = (if k' = k then Some x else lookup k' (es # ts))"
  shows "engine_Get e' k' = (if k' = k then live (Some x) else engine_Get e k')"
  using assms(3,4) engine_Get_rep [OF assms(1), of k'] engine_Get_rep [OF assms(2), of k']
  by (cases "k' = []") (simp_all add: engine_Get_empty)

definition small_value :: "bytes \<Rightarrow> bool" where
  "small_value v \<longleftrightarrow> length v < 2 ^ 32"

interpretation eng: kv_store engine_inv quiet plain_key small_value
  engine_Put engine_Delete engine_Get ErrNotFound
proof
  fix e env k v
  assume inv: "engine_inv e" and q: "quiet e env" and k: "plain_key k" and v: "small_value v"
  obtain es w ts where rep: "engine_rep e es w ts" "mem_Size (e_mem e) < memTableMaxSize"
    using inv by (auto simp: engine_inv_def)
  let ?x = "\<lparr>e_Key = k, e_Value = Some v, e_Op = OpPut\<rparr>"
  have "entry_ok ?x"
    using k v by (simp add: entry_ok_def small_value_def)
  then obtain e' es' w' ts' where e': "engine_Put e k (Some v) env = (e', Ok ())" "engine_rep e' es' w' ts'"
      "mem_Size (e_mem e') < memTableMaxSize"
      "\<forall>k'. lookup k' (es' # ts') = (if k' = k then Some ?x else lookup k' (es # ts))"
    using engine_Put_rep [OF rep q] by blast
  have "k \<noteq> []"
    using k by (auto simp: plain_key_def)
  from engine_Get_layers [OF rep(1) e'(2) this e'(4)] e' show
    "\<exists>s'. engine_Put e k (Some v) env = (s', Ok ()) \<and> engine_inv s' \<and>
      (\<forall>k'. engine_Get s' k' = (if k' = k then Ok v else engine_Get e k'))"
    by (auto simp: engine_inv_def live_def OpPut_def OpDelete_def)
next
  fix e env k
  assume inv: "engine_inv e" and q: "quiet e env" and k: "plain_key k"
  obtain es w ts where rep: "engine_rep e es w ts" "mem_Size (e_mem e) < memTableMaxSize"
    using inv by (auto simp: engine_inv_def)
  let ?x = "\<lparr>e_Key = k, e_Value = None, e_Op = OpDelete\<rparr>"
  have "entry_ok ?x"
    using k by (simp add: entry_ok_def)
  then obtain e' es' w' ts' where e': "engine_Delete e k env = (e', Ok ())" "engine_rep e' es' w' ts'"
      "mem_Size (e_mem e') < memTableMaxSize"
      "\<forall>k'. lookup k' (es' # ts') = (if k' = k then Some ?x else lookup k' (es # ts))"
    using engine_Delete_rep [OF rep q] by blast
  have "k \<noteq> []"
    using k by (auto simp: plain_key_def)
  from engine_Get_layers [OF rep(1) e'(2) this e'(4)] e' show
    "\<exists>s'. engine_Delete e k env = (s', Ok ()) \<and> engine_inv s' \<and>
      (\<forall>k'. engine_Get s' k' = (if k' = k then Err ErrNotFound else engine_Get e k'))"
    by (auto simp: engine_inv_def live_def)
qed

section \<open>Histories\<close>

text \<open>
  \<open>served e rs\<close>: the engine can be in state \<open>e\<close> after acknowledging the writes \<open>rs\<close>, in
  this order. A history starts on an empty directory and consists of acknowledged \<open>Put\<close>s and
  \<open>Delete\<close>s (each with any flush, failing or not), ticks of the compactor, applied
  results, clean shutdowns, and crashes that leave a torn record at the end of the log,
  each followed by a new \<open>Open\<close>.
\<close>

definition torn_log :: "fs \<Rightarrow> WALRecord \<Rightarrow> nat \<Rightarrow> fs" where
  "torn_log d r n =
     (case fs_read d wal_name of
        None \<Rightarrow> d
      | Some f \<Rightarrow> fs_write wal_name (f @ take n (rec_bytes r)) d)"

inductive served :: "Engine \<Rightarrow> WALRecord list \<Rightarrow> bool" where
  served_open: "engine_Open rnds [] sound_disk = Ok e \<Longrightarrow> served e []"
| served_put:
    "\<lbrakk>served e rs; engine_Put e k v env = (e', Ok ()); rec_fits \<lparr>rec_Op = OpPut, rec_Key = k, rec_Value = v\<rparr>\<rbrakk>
      \<Longrightarrow> served e' (rs @ [\<lparr>rec_Op = OpPut, rec_Key = k, rec_Value = v\<rparr>])"
| served_delete:
    "\<lbrakk>served e rs; engine_Delete e k env = (e', Ok ());
      rec_fits \<lparr>rec_Op = OpDelete, rec_Key = k, rec_Value = None\<rparr>\<rbrakk>
      \<Longrightarrow> served e' (rs @ [\<lparr>rec_Op = OpDelete, rec_Key = k, rec_Value = None\<rparr>])"
| served_tick: "\<lbrakk>served e rs; compactor_tick e t fault = Some e'\<rbrakk> \<Longrightarrow> served e' rs"
| served_result: "\<lbrakk>served e rs; processCompactionResults e kept = Some e'\<rbrakk> \<Longrightarrow> served e' rs"
| served_close: "\<lbrakk>served e rs; engine_Close e env = (e', r); r \<noteq> Panic\<rbrakk> \<Longrightarrow> served e' rs"
| served_crash:
    "\<lbrakk>served e rs; rec_fits r; n < length (rec_bytes r); engine_Open rnds (torn_log (disk e) r n) sound_disk = Ok e'\<rbrakk>
      \<Longrightarrow> served e' rs"

text \<open>The directory holds exactly the log \<open>c\<close>, and every table file is a written one.\<close>

definition disk_ok :: "fs \<Rightarrow> bytes \<Rightarrow> bool" where
  "disk_ok d c \<longleftrightarrow> fs_read d wal_name = Some c \<and>
     (\<forall>p f. fs_read d p = Some f \<longrightarrow> filepath_Ext p = ''.sst'' \<longrightarrow> (\<exists>es. f = sst_file es))"

definition results_ok :: "CompactionResult list \<Rightarrow> bool" where
  "results_ok q \<longleftrightarrow> (\<forall>r \<in> set q. \<forall>p \<in> set (RemovedPaths r). filepath_Ext p = ''.sst'')"

definition served_inv :: "Engine \<Rightarrow> WALRecord list \<Rightarrow> bool" where
  "served_inv e rs \<longleftrightarrow>
     wal_path (e_wal e) = wal_name \<and> disk_ok (disk e) (concat (map rec_bytes rs)) \<and>
     results_ok (resultCh e) \<and> list_all rec_fits rs \<and> list_all rec_known rs \<and>
     (\<forall>r \<in> set rs. rec_Key r \<noteq> [])"

lemma disk_ok_log: "disk_ok d c \<Longrightarrow> disk_ok (fs_write wal_name c' d) c'"
  by (auto simp: disk_ok_def update_conv')

lemma disk_ok_table:
  assumes "disk_ok d c" "WriteSSTable d es p fault = (d', r)" "filepath_Ext p = ''.sst''"
  shows "disk_ok d' c"
proof -
  have "fs_read d' wal_name = fs_read d wal_name"
    using assms(2) by (rule WriteSSTable_other) (use assms(3) in auto)
  moreover have "\<exists>es. f = sst_file es" if "fs_read d' q = Some f" "filepath_Ext q = ''.sst''" for q f
  proof (cases "q = p")
    case True
    with that assms show ?thesis
      by (cases fault) (auto simp: WriteSSTable_eq disk_ok_def Let_def delete_conv' update_conv' split: if_splits)
  next
    case False
    then have "fs_read d' q = fs_read d q"
      using that(2) by (intro WriteSSTable_other [OF assms(2)]) auto
    with that assms(1) show ?thesis by (simp add: disk_ok_def)
  qed
  ultimately show ?thesis
    using assms(1) by (simp add: disk_ok_def)
qed

lemma disk_ok_remove: "disk_ok d c \<Longrightarrow> filepath_Ext p = ''.sst'' \<Longrightarrow> disk_ok (fs_remove p d) c"
  by (auto simp: disk_ok_def delete_conv' split: if_splits)

lemma disk_ok_removes:
  "disk_ok d c \<Longrightarrow> \<forall>p \<in> set ps. filepath_Ext p = ''.sst'' \<Longrightarrow> disk_ok (fold fs_remove ps d) c"
  by (induction ps arbitrary: d) (auto simp: disk_ok_remove)

text \<open>One lemma per operation: the part of the state that the history depends on.\<close>

lemma flush_end_disk:
  assumes "flush_end e t p fault = Some e'" "disk_ok (disk e) c" "filepath_Ext p = ''.sst''"
  shows "disk_ok (disk e') c \<and> e_wal e' = e_wal e \<and> resultCh e' = resultCh e"
proof -
  obtain d r where w: "WriteSSTable (disk e) t p fault = (d, r)" by force
  with disk_ok_table [OF assms(2) w assms(3)] assms(1) show ?thesis
    by (auto simp: flush_end_def split: outcome.splits)
qed

lemma maybeFlushLocked_disk:
  assumes "maybeFlushLocked e env = Some e'" "disk_ok (disk e) c"
  shows "disk_ok (disk e') c \<and> e_wal e' = e_wal e \<and> resultCh e' = resultCh e"
  using assms flush_end_disk [of "e\<lparr>e_mem := NewMemTable\<rparr>" _ "table_name (now env)" "flush_fault env" e' c]
  by (auto simp: maybeFlushLocked_def flush_begin_def split: if_splits option.splits)

lemma wal_Append_Ok:
  assumes "wal_Append d w op k v fault = (d', Ok ())" "fs_read d (wal_path w) = Some f"
  shows "d' = fs_write (wal_path w) (f @ wal_record op k v) d"
  using assms by (auto simp: wal_Append_def Let_def split: if_splits write_fault.splits)

lemma engine_Put_disk:
  assumes "engine_Put e k v env = (e', Ok ())" "disk_ok (disk e) c" "wal_path (e_wal e) = wal_name"
  shows "k \<noteq> [] \<and> disk_ok (disk e') (c @ wal_record OpPut k v) \<and> e_wal e' = e_wal e \<and> resultCh e' = resultCh e"
proof -
  obtain d m where d: "k \<noteq> []" "wal_Append (disk e) (e_wal e) OpPut k v (wal_fault env) = (d, Ok ())"
      "maybeFlushLocked (e\<lparr>disk := d, e_mem := m\<rparr>) env = Some e'"
    using assms(1) by (auto simp: engine_Put_def split: if_splits prod.splits outcome.splits option.splits)
  have "d = fs_write wal_name (c @ wal_record OpPut k v) (disk e)"
    using wal_Append_Ok [OF d(2)] assms(2,3) by (simp add: disk_ok_def)
  then have "disk_ok d (c @ wal_record OpPut k v)"
    using disk_ok_log [OF assms(2)] by simp
  with maybeFlushLocked_disk [OF d(3)] d(1) show ?thesis by simp
qed

lemma engine_Delete_disk:
  assumes "engine_Delete e k env = (e', Ok ())" "disk_ok (disk e) c" "wal_path (e_wal e) = wal_name"
  shows "k \<noteq> [] \<and> disk_ok (disk e') (c @ wal_record OpDelete k None) \<and> e_wal e' = e_wal e \<and>
    resultCh e' = resultCh e"
proof -
  obtain d m where d: "k \<noteq> []" "wal_Append (disk e) (e_wal e) OpDelete k None (wal_fault env) = (d, Ok ())"
      "maybeFlushLocked (e\<lparr>disk := d, e_mem := m\<rparr>) env = Some e'"
    using assms(1) by (auto simp: engine_Delete_def split: if_splits prod.splits outcome.splits option.splits)
  have "d = fs_write wal_name (c @ wal_record OpDelete k None) (disk e)"
    using wal_Append_Ok [OF d(2)] assms(2,3) by (simp add: disk_ok_def)
  then have "disk_ok d (c @ wal_record OpDelete k None)"
    using disk_ok_log [OF assms(2)] by simp
  with maybeFlushLocked_disk [OF d(3)] d(1) show ?thesis by simp
qed

lemma findSSTableFiles_ext: "p \<in> set (findSSTableFiles d) \<Longrightarrow> filepath_Ext p = ''.sst''"
  by (simp add: findSSTableFiles_def)

lemma compactFiles_disk:
  assumes "compactFiles d paths t fault = (d', r)" "disk_ok d c"
  shows "disk_ok d' c \<and> (\<forall>res. r = Ok res \<longrightarrow> RemovedPaths res = paths)"
  using assms
  by (auto simp: compactFiles_def Let_def split: outcome.splits if_splits prod.splits
      intro: disk_ok_table [OF assms(2)])

lemma compactor_tick_disk:
  assumes "compactor_tick e t fault = Some e'" "disk_ok (disk e) c" "results_ok (resultCh e)"
  shows "disk_ok (disk e') c \<and> e_wal e' = e_wal e \<and> results_ok (resultCh e')"
proof -
  let ?ps = "take 2 (findSSTableFiles (disk e))"
  obtain d r where c: "compactFiles (disk e) ?ps t fault = (d, r)" by force
  have ext: "\<forall>p \<in> set ?ps. filepath_Ext p = ''.sst''"
    by (auto dest!: in_set_takeD findSSTableFiles_ext)
  show ?thesis
    using assms c compactFiles_disk [OF c assms(2)] ext
    by (auto simp: compactor_tick_def maybeCompact_def Let_def results_ok_def
        split: if_splits outcome.splits option.splits)
qed

lemma processCompactionResults_disk:
  assumes "processCompactionResults e kept = Some e'" "disk_ok (disk e) c" "results_ok (resultCh e)"
  shows "disk_ok (disk e') c \<and> e_wal e' = e_wal e \<and> results_ok (resultCh e')"
proof (cases "resultCh e")
  case Nil
  with assms show ?thesis by (simp add: processCompactionResults_def)
next
  case (Cons res rest)
  have "disk_ok (fold fs_remove (filter (\<lambda>p. p \<notin> set kept) (RemovedPaths res)) (disk e)) c"
    using assms(2,3) Cons by (intro disk_ok_removes) (auto simp: results_ok_def)
  with assms Cons show ?thesis
    by (auto simp: processCompactionResults_def applyCompactionResult_def Let_def results_ok_def
        split: if_splits outcome.splits)
qed

lemma close_flush_disk:
  assumes "close_flush e env = Some e'" "disk_ok (disk e) c"
  shows "disk_ok (disk e') c \<and> e_wal e' = e_wal e \<and> resultCh e' = resultCh e"
  using assms
  by (auto simp: close_flush_def split: if_splits option.splits prod.splits outcome.splits
      intro: disk_ok_table [OF assms(2)])

lemma wal_Close_path: "wal_path (fst (wal_Close w fault)) = wal_path w"
  by (simp add: wal_Close_def)

lemma engine_Close_flush:
  assumes "engine_Close e env = (e', r)" "r \<noteq> Panic"
  obtains e1 where "close_flush (e\<lparr>ctx_done := True\<rparr>) env = Some e1"
    "e' = e1\<lparr>e_wal := fst (wal_Close (e_wal e1) (close_fault env))\<rparr>"
  using assms by (auto simp: engine_Close_def split: option.splits prod.splits outcome.splits)

lemma engine_Close_disk:
  assumes "engine_Close e env = (e', r)" "r \<noteq> Panic" "disk_ok (disk e) c"
  shows "disk_ok (disk e') c \<and> wal_path (e_wal e') = wal_path (e_wal e) \<and> resultCh e' = resultCh e"
proof -
  obtain e1 where "close_flush (e\<lparr>ctx_done := True\<rparr>) env = Some e1"
    "e' = e1\<lparr>e_wal := fst (wal_Close (e_wal e1) (close_fault env))\<rparr>"
    using engine_Close_flush [OF assms(1,2)] .
  with close_flush_disk [of "e\<lparr>ctx_done := True\<rparr>" env e1 c] assms(3) show ?thesis
    by (simp add: wal_Close_path)
qed

lemma engine_Open_log:
  assumes "fs_read d wal_name = Some f" "read_records False f = Ok rs"
  shows "\<exists>mem. mem_rep mem (log_entries rs) (length (filter rec_known rs)) \<and>
    engine_Open rnds d sound_disk =
      (let d' = fs_write wal_name (concat (map rec_bytes rs)) d
       in case open_tables d' (rev (findSSTableFiles d')) of
            None \<Rightarrow> Panic
          | Some ssts \<Rightarrow> Ok \<lparr>disk = d', e_wal = \<lparr>wal_path = wal_name, file_open = True\<rparr>, e_mem = mem, sstables = ssts, resultCh = [], ctx_done = False\<rparr>)"
proof -
  obtain mem where mem: "Recover rnds d wal_name sound_log = Ok (mem, length (filter rec_known rs),
      fs_write wal_name (concat (map rec_bytes rs)) d)"
      "mem_rep mem (log_entries rs) (length (filter rec_known rs))"
    using Recover_file [OF assms] by blast
  have "OpenWAL (fs_write wal_name c d) wal_name False = Ok (fs_write wal_name c d, \<lparr>wal_path = wal_name, file_open = True\<rparr>)" for c
    by (simp add: OpenWAL_def update_conv')
  with mem show ?thesis
    by (intro exI [of _ mem]) (simp add: engine_Open_def sound_disk_def Let_def)
qed

lemma Recover_missing: "fs_read d p = None \<Longrightarrow> Recover rnds d p sound_log = Ok (NewMemTable, 0, d)"
  by (simp add: Recover_def ReadWALRecords_def)

lemma engine_Open_empty:
  "engine_Open rnds [] sound_disk = Ok \<lparr>disk = [(wal_name, [])], e_wal = \<lparr>wal_path = wal_name, file_open = True\<rparr>,
     e_mem = NewMemTable, sstables = [], resultCh = [], ctx_done = False\<rparr>"
  by (simp add: engine_Open_def sound_disk_def Recover_missing OpenWAL_def findSSTableFiles_def)

lemma rec_bytes_read [simp]: "rec_bytes (rec_read r) = rec_bytes r"
  by (simp add: rec_bytes_def rec_read_def nil_if_empty_def wal_record_def wal_body_def)

lemma concat_rec_read [simp]: "concat (map rec_bytes (map rec_read rs)) = concat (map rec_bytes rs)"
  by (simp add: comp_def)

lemma torn_log_read:
  assumes "served_inv e rs" "rec_fits r" "n < length (rec_bytes r)"
  obtains f where "fs_read (torn_log (disk e) r n) wal_name = Some f" "read_records False f = Ok (map rec_read rs)"
    "disk_ok (torn_log (disk e) r n) f"
proof -
  let ?f = "concat (map rec_bytes rs) @ take n (rec_bytes r)"
  have d: "torn_log (disk e) r n = fs_write wal_name ?f (disk e)"
    using assms(1) by (simp add: torn_log_def served_inv_def disk_ok_def)
  have "read_records False (take n (rec_bytes r)) = Ok []"
    unfolding rec_bytes_def using assms(2,3)
    by (intro read_records_torn) (auto simp: rec_fits_def rec_bytes_def)
  then have "read_records False ?f = Ok (map rec_read rs)"
    using assms(1) by (simp add: read_records_list served_inv_def)
  moreover have "disk_ok (torn_log (disk e) r n) ?f"
    unfolding d using assms(1) disk_ok_log by (auto simp: served_inv_def)
  ultimately show ?thesis
    using that [of ?f] by (simp add: d update_conv')
qed

lemma served_invariant: "served e rs \<Longrightarrow> served_inv e rs"
proof (induction rule: served.induct)
  case (served_open rnds e)
  then show ?case
    by (auto simp: engine_Open_empty served_inv_def disk_ok_def results_ok_def split: if_splits)
next
  case (served_put e rs k v env e')
  then show ?case
    using engine_Put_disk [OF served_put.hyps(2)]
    by (auto simp: served_inv_def rec_known_def rec_bytes_def)
next
  case (served_delete e rs k env e')
  then show ?case
    using engine_Delete_disk [OF served_delete.hyps(2)]
    by (auto simp: served_inv_def rec_known_def rec_bytes_def)
next
  case (served_tick e rs t fault e')
  then show ?case
    using compactor_tick_disk [OF served_tick.hyps(2)] by (auto simp: served_inv_def)
next
  case (served_result e rs kept e')
  then show ?case
    using processCompactionResults_disk [OF served_result.hyps(2)] by (auto simp: served_inv_def)
next
  case (served_close e rs env e' r)
  then show ?case
    using engine_Close_disk [OF served_close.hyps(2,3)] by (auto simp: served_inv_def)
next
  case (served_crash e rs r n rnds e')
  obtain f where f: "fs_read (torn_log (disk e) r n) wal_name = Some f"
      "read_records False f = Ok (map rec_read rs)" "disk_ok (torn_log (disk e) r n) f"
    using torn_log_read [OF served_crash.IH served_crash.hyps(2,3)] .
  show ?case
    using engine_Open_log [OF f(1,2), of rnds] served_crash.hyps(4) served_crash.IH
      disk_ok_log [OF f(3), of "concat (map rec_bytes rs)"]
    by (auto simp: served_inv_def results_ok_def Let_def simp del: map_map split: option.splits)
qed

text \<open>Opening never panics on written tables, of any length that a file can have.\<close>

lemma Open_no_panic:
  assumes "fs_read d p = Some (sst_file es)" "length (sst_file es) \<le> 2 ^ 48"
  shows "OpenSSTableReader d p \<noteq> Panic"
proof -
  let ?d = "data_bytes es" and ?i = "index_bytes es"
  let ?ft = "le 8 (length ?d) @ le 8 (length ?i)"
  have "read_at ((?d @ ?i) @ ?ft @ []) footerSize (int (length (sst_file es)) - int footerSize) = Some ?ft"
    by (rule read_at_append) (simp_all add: footerSize_def sst_file_eq)
  then have ft: "read_at (sst_file es) footerSize (int (length (sst_file es)) - int footerSize) = Some ?ft"
    by (simp add: sst_file_eq)
  have "length ?i \<le> 2 ^ 48"
    using assms(2) by (simp add: sst_file_eq)
  then have "\<not> make_panics (int64_of (unle (drop 8 ?ft)))"
    by (simp add: unle_le_id make_panics_def)
  then show ?thesis
    by (simp only: OpenSSTableReader_def assms(1) ft option.case Let_def if_False) (simp split: option.splits)
qed

lemma open_tables_no_panic:
  assumes "\<forall>p \<in> set ps. OpenSSTableReader d p \<noteq> Panic"
  shows "\<exists>ssts. open_tables d ps = Some ssts"
  using assms by (induction ps) (auto split: outcome.splits)

lemma open_tables_total:
  assumes "disk_ok d c" "\<forall>p f. filepath_Ext p = ''.sst'' \<longrightarrow> fs_read d p = Some f \<longrightarrow> length f \<le> 2 ^ 48"
  shows "\<exists>ssts. open_tables d (rev (findSSTableFiles d)) = Some ssts"
proof (rule open_tables_no_panic, rule ballI)
  fix p
  assume "p \<in> set (rev (findSSTableFiles d))"
  then obtain f where f: "fs_read d p = Some f" "filepath_Ext p = ''.sst''"
    by (cases "fs_read d p") (auto simp: findSSTableFiles_def map_of_eq_None_iff)
  with assms obtain es where "f = sst_file es" "length f \<le> 2 ^ 48"
    unfolding disk_ok_def by blast
  with f Open_no_panic show "OpenSSTableReader d p \<noteq> Panic" by blast
qed

text \<open>The first write to a new engine, for closed examples.\<close>

definition new_engine :: Engine where
  "new_engine = \<lparr>disk = [(wal_name, [])], e_wal = \<lparr>wal_path = wal_name, file_open = True\<rparr>, e_mem = NewMemTable,
     sstables = [], resultCh = [], ctx_done = False\<rparr>"

lemma new_engine_inv: "engine_inv new_engine"
proof -
  have "engine_rep new_engine [] 0 []"
    by (simp add: engine_rep_def mem_rep_new new_engine_def)
  then show ?thesis
    by (auto simp: engine_inv_def new_engine_def mem_Size_def NewMemTable_def memTableMaxSize_def)
qed

lemma first_put:
  assumes "k \<noteq> []" "length k \<le> 65535" "length v \<le> 65535" "wal_fault env = NoFault"
  shows "\<exists>e m. engine_Put new_engine k (Some v) env = (e, Ok ()) \<and>
    e = new_engine\<lparr>disk := [(wal_name, wal_record OpPut k (Some v))], e_mem := m\<rparr> \<and>
    mem_rep m [\<lparr>e_Key = k, e_Value = Some v, e_Op = OpPut\<rparr>] 1"
proof -
  obtain m where m: "mem_Put NewMemTable k (Some v) (rnd env) = Some m"
      "mem_rep m [\<lparr>e_Key = k, e_Value = Some v, e_Op = OpPut\<rparr>] 1"
    using mem_Put_rep [OF mem_rep_new, of k "Some v" "rnd env"] by auto
  have "mem_Size m < memTableMaxSize"
    using mem_Size_rep [OF m(2)] assms(2,3) by (simp add: entry_bytes_def memTableMaxSize_def)
  with m assms show ?thesis
    by (auto simp: engine_Put_def new_engine_def wal_Append_def maybeFlushLocked_def flush_begin_def)
qed

text \<open>The answer to a key whose last acknowledged write is the record \<open>r\<close>.\<close>

definition record_answer :: "WALRecord \<Rightarrow> (eng_error, bytes) outcome" where
  "record_answer r =
     (if rec_Op r = OpDelete \<or> slice_bytes (rec_Value r) = [] then Err ErrNotFound
      else Ok (slice_bytes (rec_Value r)))"

lemma find_rec_read:
  "find (\<lambda>r. rec_Key r = k) (map rec_read rs) = map_option rec_read (find (\<lambda>r. rec_Key r = k) rs)"
  by (induction rs) (auto simp: rec_read_def)

lemma last_write_read:
  assumes "list_all rec_known rs" "find (\<lambda>r. rec_Key r = k) (rev rs) = Some r"
  shows "last_write (map rec_read rs) k = Some (rec_entry (rec_read r))"
proof -
  have "filter rec_known (map rec_read rs) = map rec_read rs"
    using assms(1) by (auto simp: list_all_iff rec_known_def rec_read_def)
  then show ?thesis
    using assms(2) by (simp add: last_write_def rev_map find_rec_read)
qed

lemma entry_result_read:
  "rec_known r \<Longrightarrow> value_result (fst (entry_result (Some (rec_entry (rec_read r))))) = record_answer r"
  "snd (entry_result (Some x))"
  by (cases "rec_Value r";
      auto simp: rec_known_def entry_result_def rec_entry_def rec_read_def nil_if_empty_def
        value_result_def record_answer_def OpPut_def OpDelete_def)+

lemma engine_Get_mem:
  assumes "mem_rep (e_mem e) es w" "k \<noteq> []" "find_entry k es = Some x"
  shows "engine_Get e k = value_result (fst (entry_result (Some x)))"
  using mem_Get_rep [OF assms(1), of k] assms(2,3) by (auto simp: engine_Get_def entry_result_def)

section \<open>Lemmas: compaction of the two oldest tables\<close>

lemma SliceStable_first:
  assumes "\<forall>x \<in> set xs. lt r x"
  shows "\<exists>ys. SliceStable lt (xs @ [r]) = r # ys"
  unfolding SliceStable_def using assms by (induction xs) auto

lemma compactor_tick_two:
  assumes files: "findSSTableFiles (disk e) = p1 # p2 # rest" "2 \<le> length rest"
    and t: "fs_read (disk e) p1 = Some (sst_file t1)" "table_fits t1"
      "fs_read (disk e) p2 = Some (sst_file t2)" "table_fits t2"
    and ne: "merge_files (map (map entry_record) [t1, t2]) \<noteq> []" and room: "length (resultCh e) \<le> resultCh_capacity"
  shows "compactor_tick e t SstNoFault = Some (e\<lparr>
      disk := fs_write (compacted_name t) (sst_file (merge_files (map (map entry_record) [t1, t2])))
        (fs_remove (compacted_name t @ ''.tmp'') (disk e)),
      resultCh := resultCh e @ [\<lparr>NewSSTablePath = compacted_name t, RemovedPaths = [p1, p2]\<rparr>]\<rparr>)"
proof -
  have "tables_at (disk e) [p1, p2] [t1, t2]"
    using t by (simp add: tables_at_def)
  from compactFiles_tables [OF this] ne files room show ?thesis
    by (simp add: compactor_tick_def maybeCompact_def compactionThreshold_def numeral_2_eq_2 Let_def)
qed

text \<open>Applied, the result is in front of every table with a smaller name.\<close>

lemma applyCompactionResult_first:
  assumes f: "fs_read (disk e) p = Some (sst_file m)" "table_fits m" and p: "p \<noteq> []" "p \<notin> set removed"
    and names: "\<forall>r \<in> set (sstables e). r_path r < p"
  shows "\<exists>e' ys. applyCompactionResult e \<lparr>NewSSTablePath = p, RemovedPaths = removed\<rparr> kept = Some e' \<and>
    sstables e' = \<lparr>r_path = p, sparseIndex = sparse 0 0 m\<rparr> # ys \<and> e_mem e' = e_mem e \<and>
    fs_read (disk e') p = Some (sst_file m)"
proof -
  let ?r = "\<lparr>r_path = p, sparseIndex = sparse 0 0 m\<rparr>"
  have "fs_read (fold fs_remove ps d) p = fs_read d p" if "p \<notin> set ps" for ps d
    using that by (induction ps arbitrary: d) (auto simp: delete_conv')
  then have keep: "fs_read (fold fs_remove (filter (\<lambda>p. p \<notin> set kept) removed) d) p = fs_read d p" for d
    using p(2) by simp
  obtain ys where "SliceStable (\<lambda>a b. r_path b < r_path a)
      (filter (\<lambda>sst. r_path sst \<notin> set removed) (sstables e) @ [?r]) = ?r # ys"
    using SliceStable_first [of "filter (\<lambda>sst. r_path sst \<notin> set removed) (sstables e)"
        "\<lambda>a b. r_path b < r_path a" ?r] names by auto
  with Open_written [OF f(2,1)] keep [of "disk e"] f(1) p(1) show ?thesis
    by (simp add: applyCompactionResult_def Let_def)
qed

text \<open>A directory after a crash opens, and every key answers its last acknowledged record.\<close>

lemma served_reopen:
  assumes "served e rs" "rec_fits r'" "n < length (rec_bytes r')"
    and "\<forall>p f. filepath_Ext p = ''.sst'' \<longrightarrow> fs_read (disk e) p = Some f \<longrightarrow> length f \<le> 2 ^ 48"
  shows "\<exists>e'. engine_Open rnds (torn_log (disk e) r' n) sound_disk = Ok e' \<and> served e' rs \<and> (\<exists>es w. mem_rep (e_mem e') es w) \<and>
    (\<forall>k r. find (\<lambda>r. rec_Key r = k) (rev rs) = Some r \<longrightarrow> engine_Get e' k = record_answer r)"
proof -
  let ?d = "torn_log (disk e) r' n"
  have inv: "served_inv e rs"
    using assms(1) by (rule served_invariant)
  obtain f where f: "fs_read ?d wal_name = Some f" "read_records False f = Ok (map rec_read rs)" "disk_ok ?d f"
    using torn_log_read [OF inv assms(2,3)] .
  let ?d' = "fs_write wal_name (concat (map rec_bytes rs)) ?d"
  have "fs_read ?d' p = fs_read (disk e) p" if "filepath_Ext p = ''.sst''" for p
    using that by (auto simp: torn_log_def update_conv' split: option.splits)
  with assms(4) have small: "\<forall>p f. filepath_Ext p = ''.sst'' \<longrightarrow> fs_read ?d' p = Some f \<longrightarrow> length f \<le> 2 ^ 48"
    by simp
  obtain ssts where ssts: "open_tables ?d' (rev (findSSTableFiles ?d')) = Some ssts"
    using open_tables_total [OF disk_ok_log [OF f(3)] small] by blast
  obtain mem where mem: "mem_rep mem (log_entries (map rec_read rs)) (length (filter rec_known (map rec_read rs)))"
    and e': "engine_Open rnds ?d sound_disk = Ok \<lparr>disk = ?d', e_wal = \<lparr>wal_path = wal_name, file_open = True\<rparr>, e_mem = mem, sstables = ssts, resultCh = [], ctx_done = False\<rparr>"
      (is "_ = Ok ?e'")
    using engine_Open_log [OF f(1,2), of rnds] ssts by (auto simp: Let_def simp del: map_map)
  have "engine_Get ?e' k = record_answer r" if r: "find (\<lambda>r. rec_Key r = k) (rev rs) = Some r" for k r
  proof -
    have k: "list_all rec_known rs" "rec_known r" "k \<noteq> []"
      using inv r by (auto simp: served_inv_def find_Some_iff list_all_iff) (metis nth_mem length_rev set_rev)+
    have "engine_Get ?e' k = value_result (fst (entry_result (Some (rec_entry (rec_read r)))))"
      using mem k(3) last_write_read [OF k(1) r] find_log_entries [of k "map rec_read rs"]
      by (intro engine_Get_mem) auto
    with entry_result_read(1) [OF k(2)] show ?thesis by simp
  qed
  with e' mem served_crash [OF assms(1-3) e'] show ?thesis
    by (intro exI [of _ ?e']) auto
qed

section \<open>Properties\<close>

text \<open>Property C8. The engine implements a map on plain keys: from a state that satisfies \<open>engine_inv\<close>, with working
  disk writes, a table name that is new and no compaction in between, \<open>Put\<close> of a plain key (4 to 65535 bytes, the fourth at least 8, which keeps
  the scan of a table from taking its index for records) succeeds, keeps the invariant, and
  from then on \<open>Get\<close> of that key returns exactly the value while every other key answers as
  before; \<open>Delete\<close> makes the key not found. This includes the writes that flush the mem
  table to a new table.\<close>

theorem engine_refines_map:
  assumes "engine_inv e" and "wal_fault env = NoFault" and "flush_fault env = SstNoFault"
    and "table_name (now env) \<notin> r_path ` set (sstables e)"
    and "plain_key k" and "length v < 2 ^ 32"
  shows "\<exists>e1 e2.
    engine_Put e k (Some v) env = (e1, Ok ()) \<and> engine_inv e1 \<and>
    engine_Delete e k env = (e2, Ok ()) \<and> engine_inv e2 \<and>
    engine_Get e1 k = Ok v \<and> engine_Get e2 k = Err ErrNotFound \<and>
    (\<forall>k'. k' \<noteq> k \<longrightarrow> engine_Get e1 k' = engine_Get e k' \<and> engine_Get e2 k' = engine_Get e k')"
proof -
  have q: "quiet e env"
    using assms(2-4) by (simp add: quiet_def)
  show ?thesis
    using eng.put_ok [OF assms(1) q assms(5), of v] eng.delete_ok [OF assms(1) q assms(5)] assms(6)
    by (auto simp: small_value_def)
qed

theorem engine_refines_map_witness:
  "\<exists>e e1. engine_Open (\<lambda>_ _. False) [] sound_disk = Ok e \<and>
     engine_Put e [110, 97, 109, 101] (Some [1, 2]) \<lparr>rnd = \<lambda>_. False, wal_fault = NoFault, now = 5, flush_fault = SstNoFault, close_fault = CloseOk\<rparr>
       = (e1, Ok ()) \<and> engine_Get e1 [110, 97, 109, 101] = Ok [1, 2] \<and>
     engine_Get e1 [110, 97, 109, 102] = engine_Get e [110, 97, 109, 102]"
proof -
  let ?e = "\<lparr>disk = [(wal_name, [])], e_wal = \<lparr>wal_path = wal_name, file_open = True\<rparr>, e_mem = NewMemTable, sstables = [], resultCh = [], ctx_done = False\<rparr>"
  let ?env = "\<lparr>rnd = \<lambda>_. False, wal_fault = NoFault, now = 5, flush_fault = SstNoFault, close_fault = CloseOk\<rparr>"
  have "engine_rep ?e [] 0 []"
    by (simp add: engine_rep_def mem_rep_new)
  then have "engine_inv ?e"
    by (auto simp: engine_inv_def mem_Size_def NewMemTable_def memTableMaxSize_def)
  then have "\<exists>e1 e2. engine_Put ?e [110, 97, 109, 101] (Some [1, 2]) ?env = (e1, Ok ()) \<and> engine_inv e1 \<and>
    engine_Delete ?e [110, 97, 109, 101] ?env = (e2, Ok ()) \<and> engine_inv e2 \<and>
    engine_Get e1 [110, 97, 109, 101] = Ok [1, 2] \<and> engine_Get e2 [110, 97, 109, 101] = Err ErrNotFound \<and>
    (\<forall>k'. k' \<noteq> [110, 97, 109, 101] \<longrightarrow> engine_Get e1 k' = engine_Get ?e k' \<and> engine_Get e2 k' = engine_Get ?e k')"
    by (rule engine_refines_map) (simp_all add: plain_key_def)
  then show ?thesis
    unfolding engine_Open_empty by auto
qed

text \<open>Property C4. Durability: after any history of acknowledged writes, flushes (successful or
  failing), compactions, shutdowns and crashes, one more crash that leaves a torn record at
  the end of the log does not lose an acknowledged write. The directory opens again, and the
  last acknowledged write of a key answers \<open>Get\<close>: its value, or not found after a
  \<open>Delete\<close>. An empty value is the exception: it is not found any more.\<close>

theorem engine_durable:
  assumes "served e rs" and "find (\<lambda>r. rec_Key r = k) (rev rs) = Some r"
    and "rec_fits r'" and "n < length (rec_bytes r')"
    and "\<forall>p f. filepath_Ext p = ''.sst'' \<longrightarrow> fs_read (disk e) p = Some f \<longrightarrow> length f \<le> 2 ^ 48"
  shows "\<exists>e'. engine_Open rnds (torn_log (disk e) r' n) sound_disk = Ok e' \<and> served e' rs \<and>
    engine_Get e' k =
      (if rec_Op r = OpDelete \<or> slice_bytes (rec_Value r) = [] then Err ErrNotFound
       else Ok (slice_bytes (rec_Value r)))"
  using served_reopen [OF assms(1,3-5), of rnds] assms(2) by (auto simp: record_answer_def)

theorem engine_durable_witness:
  "\<exists>e e'. served e [\<lparr>rec_Op = OpPut, rec_Key = [107], rec_Value = Some [1, 2]\<rparr>] \<and>
     engine_Open (\<lambda>_ _. False)
       (torn_log (disk e) \<lparr>rec_Op = OpPut, rec_Key = [107], rec_Value = Some [3]\<rparr> 12) sound_disk = Ok e' \<and>
     engine_Get e' [107] = Ok [1, 2]"
proof -
  let ?r = "\<lparr>rec_Op = OpPut, rec_Key = [107], rec_Value = Some [1, 2]\<rparr>"
  let ?r' = "\<lparr>rec_Op = OpPut, rec_Key = [107], rec_Value = Some [3]\<rparr>"
  let ?env = "\<lparr>rnd = \<lambda>_. False, wal_fault = NoFault, now = 5, flush_fault = SstNoFault, close_fault = CloseOk\<rparr>"
  obtain e where e: "engine_Put new_engine [107] (Some [1, 2]) ?env = (e, Ok ())"
      "disk e = [(wal_name, wal_record OpPut [107] (Some [1, 2]))]"
    using first_put [of "[107]" "[1, 2]" ?env] by auto
  have "served new_engine []"
    by (rule served_open [of undefined]) (simp add: engine_Open_empty new_engine_def)
  from served_put [OF this e(1)] have s: "served e [?r]"
    by (simp add: rec_fits_def)
  have "\<exists>e'. engine_Open (\<lambda>_ _. False) (torn_log (disk e) ?r' 12) sound_disk = Ok e' \<and> served e' [?r] \<and>
    engine_Get e' [107] = (if rec_Op ?r = OpDelete \<or> slice_bytes (rec_Value ?r) = [] then Err ErrNotFound
       else Ok (slice_bytes (rec_Value ?r)))"
    by (rule engine_durable [OF s])
      (auto simp: rec_fits_def rec_bytes_def length_wal_record walHeaderSize_def e(2) split: if_splits)
  with s show ?thesis
    by (auto simp: OpPut_def OpDelete_def)
qed

text \<open>Fact. The value of a \<open>Put\<close> with an empty value changes when the engine is reopened:
  \<open>Get\<close> returns the empty value before and \<open>ErrNotFound\<close> after a restart, because
  \<open>ReadWALRecords\<close> leaves the value nil and \<open>Get\<close> takes nil for a tombstone.\<close>

theorem engine_empty_value_lost:
  assumes "k \<noteq> []" and "length k < 65529" and "wal_fault env = NoFault"
    and "engine_Open rnds [] sound_disk = Ok e"
  shows "\<exists>e1 e2. engine_Put e k (Some []) env = (e1, Ok ()) \<and> engine_Get e1 k = Ok [] \<and>
    engine_Open rnds (disk e1) sound_disk = Ok e2 \<and> engine_Get e2 k = Err ErrNotFound"
proof -
  let ?r = "\<lparr>rec_Op = OpPut, rec_Key = k, rec_Value = Some []\<rparr>"
  have e: "e = new_engine"
    using assms(4) by (simp add: engine_Open_empty new_engine_def)
  obtain e1 m where p: "engine_Put e k (Some []) env = (e1, Ok ())"
    and e1: "e1 = new_engine\<lparr>disk := [(wal_name, wal_record OpPut k (Some []))], e_mem := m\<rparr>"
    and m: "mem_rep m [\<lparr>e_Key = k, e_Value = Some [], e_Op = OpPut\<rparr>] 1"
    using first_put [of k "[]" env] assms e by auto
  have "engine_Get e1 k = value_result (fst (entry_result (Some \<lparr>e_Key = k, e_Value = Some [], e_Op = OpPut\<rparr>)))"
    using m assms(1) by (intro engine_Get_mem [of e1 "[\<lparr>e_Key = k, e_Value = Some [], e_Op = OpPut\<rparr>]" 1])
      (simp_all add: e1 find_entry_def)
  then have g1: "engine_Get e1 k = Ok []"
    by (simp add: entry_result_def value_result_def OpPut_def OpDelete_def)
  have rr: "read_records False (rec_bytes ?r) = Ok [rec_read ?r]"
    using read_records_list [of "[?r]" False "[]"] assms(2) by (simp add: rec_fits_def)
  have dk: "disk e1 = [(wal_name, rec_bytes ?r)]"
    by (simp add: e1 rec_bytes_def)
  obtain mem where mem: "mem_rep mem (log_entries [rec_read ?r]) (length (filter rec_known [rec_read ?r]))"
    and o2: "engine_Open rnds (disk e1) sound_disk = Ok (new_engine\<lparr>disk := disk e1, e_mem := mem\<rparr>)"
    using engine_Open_log [OF _ rr, of "disk e1" rnds]
    by (auto simp: dk Let_def findSSTableFiles_def new_engine_def)
  have le: "find_entry k (log_entries [rec_read ?r]) = Some (rec_entry (rec_read ?r))"
    unfolding find_log_entries by (simp add: last_write_def rec_read_def rec_known_def)
  have "engine_Get (new_engine\<lparr>disk := disk e1, e_mem := mem\<rparr>) k
      = value_result (fst (entry_result (Some (rec_entry (rec_read ?r)))))"
    using mem le assms(1) by (intro engine_Get_mem) simp_all
  then have "engine_Get (new_engine\<lparr>disk := disk e1, e_mem := mem\<rparr>) k = Err ErrNotFound"
    by (simp add: rec_read_def rec_entry_def nil_if_empty_def entry_result_def value_result_def)
  with p g1 o2 show ?thesis by blast
qed

theorem engine_empty_value_lost_witness:
  "\<exists>e1 e2. engine_Put new_engine [107] (Some [])
       \<lparr>rnd = \<lambda>_. False, wal_fault = NoFault, now = 5, flush_fault = SstNoFault, close_fault = CloseOk\<rparr> = (e1, Ok ()) \<and>
     engine_Get e1 [107] = Ok [] \<and>
     engine_Open (\<lambda>_ _. True) (disk e1) sound_disk = Ok e2 \<and> engine_Get e2 [107] = Err ErrNotFound"
  by (rule engine_empty_value_lost) (simp_all add: engine_Open_empty new_engine_def)

text \<open>Property C37. While a full mem table is being flushed, its keys cannot be read: the engine has
  replaced the mem table and released the lock before the table is in the list. A key that
  \<open>Get\<close> answered before is not found in that window, and if the write of the table fails
  it stays not found until the engine is reopened.\<close>

theorem flush_window:
  assumes "engine_rep e es w ts" and "memTableMaxSize \<le> mem_Size (e_mem e)"
    and "find_entry k es = Some x" and "e_Op x = OpPut" and "lookup k ts = None" and "k \<noteq> []"
    and "fault \<noteq> SstNoFault"
  shows "engine_Get e k = Ok (slice_bytes (e_Value x)) \<and>
    (\<exists>e1 e2. flush_begin e t = Some (e1, Some (es, table_name t)) \<and> engine_Get e1 k = Err ErrNotFound \<and>
       flush_end e1 es (table_name t) fault = Some e2 \<and> engine_Get e2 k = Err ErrNotFound)"
proof -
  note rep = engine_repD [OF assms(1)]
  let ?e1 = "e\<lparr>e_mem := NewMemTable\<rparr>"
  have g: "engine_Get e k = Ok (slice_bytes (e_Value x))"
    using engine_Get_rep [OF assms(1,6)] assms(3,4) by (simp add: live_def OpPut_def OpDelete_def)
  have b: "flush_begin e t = Some (?e1, Some (es, table_name t))"
    using assms(2) mem_Entries_rep [OF rep(1)] by (simp add: flush_begin_def)
  have none: "live (lookup k ([] # ts)) = Err ErrNotFound"
    using assms(5) by (simp add: live_def find_entry_def)
  have rep1: "engine_rep ?e1 [] 0 ts"
    using assms(1) mem_rep_new by (simp add: engine_rep_def)
  obtain d r where w: "WriteSSTable (disk e) es (table_name t) fault = (d, Err r)"
      "\<forall>q. q \<noteq> table_name t @ ''.tmp'' \<longrightarrow> fs_read d q = fs_read (disk e) q"
    using WriteSSTable_fault [OF assms(7)] by blast
  have "list_all2 (table_ok d) (sstables e) ts"
    by (rule tables_frame [OF rep(3)]) (simp add: w(2))
  then have "engine_rep (?e1\<lparr>disk := d\<rparr>) [] 0 ts"
    using rep1 by (simp add: engine_rep_def)
  moreover have "flush_end ?e1 es (table_name t) fault = Some (?e1\<lparr>disk := d\<rparr>)"
    using w(1) by (simp add: flush_end_def)
  ultimately show ?thesis
    using g b none engine_Get_rep [OF rep1 assms(6)] engine_Get_rep [OF _ assms(6)] by metis
qed

theorem flush_window_witness:
  "\<exists>m e1. mem_Put NewMemTable [110, 97, 109, 101] (Some (replicate 67108864 0)) (\<lambda>_. False) = Some m \<and>
     engine_Get (new_engine\<lparr>e_mem := m\<rparr>) [110, 97, 109, 101] = Ok (replicate 67108864 0) \<and>
     flush_begin (new_engine\<lparr>e_mem := m\<rparr>) 5 =
       Some (e1, Some ([\<lparr>e_Key = [110, 97, 109, 101], e_Value = Some (replicate 67108864 0), e_Op = OpPut\<rparr>], table_name 5)) \<and>
     engine_Get e1 [110, 97, 109, 101] = Err ErrNotFound"
proof -
  let ?k = "[110, 97, 109, 101] :: bytes" and ?v = "replicate 67108864 0 :: bytes"
  let ?x = "\<lparr>e_Key = ?k, e_Value = Some ?v, e_Op = OpPut\<rparr>"
  obtain m where m: "mem_Put NewMemTable ?k (Some ?v) (\<lambda>_. False) = Some m" "mem_rep m [?x] 1"
    using mem_Put_rep [OF mem_rep_new, of ?k "Some ?v" "\<lambda>_. False"] by auto
  have rep: "engine_rep (new_engine\<lparr>e_mem := m\<rparr>) [?x] 1 []"
    using m(2) by (simp add: engine_rep_def new_engine_def entry_ok_def plain_key_def)
  have size: "memTableMaxSize \<le> mem_Size (e_mem (new_engine\<lparr>e_mem := m\<rparr>))"
    using mem_Size_rep [OF m(2)] by (simp add: entry_bytes_def memTableMaxSize_def)
  have f: "find_entry ?k [?x] = Some ?x"
    by (simp add: find_entry_def)
  have "e_Op ?x = OpPut" "lookup ?k [] = None" "?k \<noteq> []" "SstWriteFails 9 True \<noteq> SstNoFault"
    by simp_all
  from flush_window [OF rep size f this, of 5] m(1) show ?thesis
    unfolding MemTableEntry.select_convs slice_bytes_simps by blast
qed

text \<open>Property C36. An append that fails after a part of the record has reached the file (a full disk, for
  instance) is reported, but the part stays in the log. Writes acknowledged after it are
  readable until the engine is reopened and are then lost, because recovery stops at the
  torn record: here a large \<open>Put\<close> fails and the smaller \<open>Put\<close> after it is acknowledged.\<close>

theorem failed_append_loses_next_write:
  assumes "engine_Open rnds [] sound_disk = Ok e"
    and "wal_fault env1 = WriteFails n" and "wal_fault env2 = NoFault"
    and "k1 \<noteq> []" and "length k1 \<le> 65535" and "length v1 < 2 ^ 32"
    and "k2 \<noteq> []" and "length k2 \<le> 65535" and "length v2 \<le> 65535"
    and "walHeaderSize \<le> n"
    and "n + walHeaderSize + length k2 + length v2 < walHeaderSize + length k1 + length v1"
  shows "\<exists>e1 e2 e3. engine_Put e k1 (Some v1) env1 = (e1, Err (WALAppendFailed WalWriteFailed)) \<and>
    engine_Put e1 k2 (Some v2) env2 = (e2, Ok ()) \<and> engine_Get e2 k2 = Ok v2 \<and>
    engine_Open rnds (disk e2) sound_disk = Ok e3 \<and> engine_Get e3 k2 = Err ErrNotFound"
proof -
  let ?r1 = "wal_record OpPut k1 (Some v1)" and ?r2 = "wal_record OpPut k2 (Some v2)"
  let ?x = "\<lparr>e_Key = k2, e_Value = Some v2, e_Op = OpPut\<rparr>"
  let ?e1 = "new_engine\<lparr>disk := [(wal_name, take n ?r1)]\<rparr>"
  have e: "e = new_engine"
    using assms(1) by (simp add: engine_Open_empty new_engine_def)
  have p1: "engine_Put e k1 (Some v1) env1 = (?e1, Err (WALAppendFailed WalWriteFailed))"
    using assms(2,4,5) by (simp add: e engine_Put_def new_engine_def wal_Append_def)
  obtain m where m: "mem_Put NewMemTable k2 (Some v2) (rnd env2) = Some m" "mem_rep m [?x] 1"
    using mem_Put_rep [OF mem_rep_new, of k2 "Some v2" "rnd env2"] by auto
  let ?e2 = "new_engine\<lparr>disk := [(wal_name, take n ?r1 @ ?r2)], e_mem := m\<rparr>"
  have "mem_Size m < memTableMaxSize"
    using mem_Size_rep [OF m(2)] assms(8,9) by (simp add: entry_bytes_def memTableMaxSize_def)
  then have p2: "engine_Put ?e1 k2 (Some v2) env2 = (?e2, Ok ())"
    using m(1) assms(3,7,8)
    by (simp add: engine_Put_def new_engine_def wal_Append_def maybeFlushLocked_def flush_begin_def)
  have g: "engine_Get ?e2 k2 = Ok v2"
    using engine_Get_mem [of ?e2 "[?x]" 1 k2 ?x] m(2) assms(7)
    by (simp add: find_entry_def entry_result_def value_result_def OpPut_def OpDelete_def)
  have "read_records False (take n ?r1 @ ?r2) = Ok []"
    using assms(5,6,10,11) by (intro read_records_torn_more) (simp_all add: length_wal_record)
  then have "\<exists>mem. mem_rep mem [] 0 \<and>
      engine_Open rnds (disk ?e2) sound_disk = Ok (new_engine\<lparr>e_mem := mem\<rparr>)"
    using engine_Open_log [of "disk ?e2" "take n ?r1 @ ?r2" "[]" rnds]
    by (simp add: findSSTableFiles_def new_engine_def log_entries_def Let_def)
  then obtain mem where o3: "mem_rep mem [] 0" "engine_Open rnds (disk ?e2) sound_disk = Ok (new_engine\<lparr>e_mem := mem\<rparr>)"
    by blast
  have "engine_Get (new_engine\<lparr>e_mem := mem\<rparr>) k2 = Err ErrNotFound"
    using mem_Get_rep [OF o3(1), of k2] assms(7)
    by (simp add: engine_Get_def new_engine_def find_entry_def entry_result_def)
  with p1 p2 g o3(2) show ?thesis by blast
qed

theorem failed_append_loses_next_write_witness:
  "\<exists>e1 e2 e3. engine_Put new_engine [97] (Some (replicate 100 0))
       \<lparr>rnd = \<lambda>_. False, wal_fault = WriteFails 20, now = 5, flush_fault = SstNoFault, close_fault = CloseOk\<rparr>
       = (e1, Err (WALAppendFailed WalWriteFailed)) \<and>
     engine_Put e1 [98] (Some [1])
       \<lparr>rnd = \<lambda>_. False, wal_fault = NoFault, now = 6, flush_fault = SstNoFault, close_fault = CloseOk\<rparr> = (e2, Ok ()) \<and>
     engine_Get e2 [98] = Ok [1] \<and>
     engine_Open (\<lambda>_ _. False) (disk e2) sound_disk = Ok e3 \<and> engine_Get e3 [98] = Err ErrNotFound"
  by (rule failed_append_loses_next_write [where n = 20])
    (simp_all add: engine_Open_empty new_engine_def walHeaderSize_def)

text \<open>Property C35. Compaction can bring an overwritten value back: the merge of the two oldest tables gets
  the current time in its name, so the engine lists it as the newest table. After a
  compaction of \<open>p1\<close> and \<open>p2\<close> and the application of its result (whether or not the old files can be
  removed), \<open>Get\<close> answers from
  them a key that newer tables have overwritten or deleted.\<close>

theorem compaction_resurrects_old_value:
  assumes "mem_rep (e_mem e) es w" and "find_entry k es = None" and "k \<noteq> []" and "resultCh e = []"
    and "findSSTableFiles (disk e) = p1 # p2 # rest" and "2 \<le> length rest"
    and "fs_read (disk e) p1 = Some (sst_file t1)" and "table_fits t1"
    and "fs_read (disk e) p2 = Some (sst_file t2)" and "table_fits t2"
    and "newest k [t1, t2] = Some x" and "e_Op x = OpPut" and "slice_bytes (e_Value x) \<noteq> []"
    and "table_fits (merge_files (map (map entry_record) [t1, t2]))"
    and "\<forall>p \<in> set (p1 # p2 # rest) \<union> r_path ` set (sstables e). p < compacted_name t"
  shows "\<exists>e1 e2. compactor_tick e t SstNoFault = Some e1 \<and> processCompactionResults e1 kept = Some e2 \<and>
    engine_Get e2 k = Ok (slice_bytes (e_Value x))"
proof -
  let ?m = "merge_files (map (map entry_record) [t1, t2])" and ?p = "compacted_name t"
  have fe: "find_entry k ?m = Some (entry_reread x)"
    using merge_files_correct(2) [of k "[t1, t2]"] assms(11,12) by (simp add: OpPut_def OpDelete_def)
  then have mem: "entry_reread x \<in> set ?m" "e_Key (entry_reread x) = k"
    using find_entry_key by blast+
  then have ne: "?m \<noteq> []" by auto
  let ?d = "fs_write ?p (sst_file ?m) (fs_remove (?p @ ''.tmp'') (disk e))"
  let ?e1 = "e\<lparr>disk := ?d, resultCh := [\<lparr>NewSSTablePath = ?p, RemovedPaths = [p1, p2]\<rparr>]\<rparr>"
  have t: "compactor_tick e t SstNoFault = Some ?e1"
    using compactor_tick_two [OF assms(5-10) ne] assms(4) by simp
  have q: "?p \<noteq> []" "?p \<notin> set [p1, p2]"
    using assms(15) by (auto simp: compacted_name_def)
  have "fs_read (disk (?e1\<lparr>resultCh := []\<rparr>)) ?p = Some (sst_file ?m)"
    by (simp add: update_conv')
  from applyCompactionResult_first [OF this assms(14) q, of kept] assms(15)
  obtain e2 ys where e2: "applyCompactionResult (?e1\<lparr>resultCh := []\<rparr>) \<lparr>NewSSTablePath = ?p, RemovedPaths = [p1, p2]\<rparr> kept = Some e2"
      "sstables e2 = \<lparr>r_path = ?p, sparseIndex = sparse 0 0 ?m\<rparr> # ys" "e_mem e2 = e_mem e"
      "fs_read (disk e2) ?p = Some (sst_file ?m)"
    by auto
  have "sst_Get (disk e2) \<lparr>r_path = ?p, sparseIndex = sparse 0 0 ?m\<rparr> k = Ok (sst_answer ?m k)"
    using sst_Get_written [OF merge_files_correct(1) ne assms(14) e2(4), of k] mem by auto
  also have "sst_answer ?m k = (Some (slice_bytes (e_Value x)), True)"
    using fe assms(12,13)
    by (simp add: sst_answer_def entry_read_def entry_reread_def nil_if_empty_def OpPut_def OpDelete_def)
  finally have "engine_Get e2 k = Ok (slice_bytes (e_Value x))"
    using mem_Get_rep [OF assms(1), of k] assms(2,3) e2(2,3)
    by (simp add: engine_Get_def entry_result_def value_result_def)
  with t e2(1) show ?thesis
    by (intro exI [of _ ?e1] exI [of _ e2]) (simp add: processCompactionResults_def)
qed

text \<open>Four tables with one entry each: the key is \<open>[1]\<close> in the oldest and \<open>[2]\<close> in the newest.\<close>

definition one_table :: "byte \<Rightarrow> byte \<Rightarrow> MemTableEntry list" where
  "one_table c v = [\<lparr>e_Key = [110, 97, 109, c], e_Value = Some [v], e_Op = OpPut\<rparr>]"

definition four_tables :: Engine where
  "four_tables = new_engine\<lparr>
     disk := [(''wal.log'', []), (''sstable_1.sst'', sst_file (one_table 101 1)),
       (''sstable_2.sst'', sst_file (one_table 102 1)), (''sstable_3.sst'', sst_file (one_table 103 1)),
       (''sstable_4.sst'', sst_file (one_table 101 2))],
     sstables := [\<lparr>r_path = ''sstable_4.sst'', sparseIndex = sparse 0 0 (one_table 101 2)\<rparr>,
       \<lparr>r_path = ''sstable_3.sst'', sparseIndex = sparse 0 0 (one_table 103 1)\<rparr>,
       \<lparr>r_path = ''sstable_2.sst'', sparseIndex = sparse 0 0 (one_table 102 1)\<rparr>,
       \<lparr>r_path = ''sstable_1.sst'', sparseIndex = sparse 0 0 (one_table 101 1)\<rparr>]\<rparr>"

lemma one_table_fits: "table_fits (one_table c v)"
  by (simp add: one_table_def table_fits_def entry_fits_def sst_record_def index_bytes_def index_record_def
      sparseIndexInterval_def)

lemma four_tables_files:
  "findSSTableFiles (disk four_tables) = [''sstable_1.sst'', ''sstable_2.sst'', ''sstable_3.sst'', ''sstable_4.sst'']"
  by (simp add: four_tables_def new_engine_def findSSTableFiles_def filepath_Ext_def)

lemma four_tables_Get: "engine_Get four_tables [110, 97, 109, 101] = Ok [2]"
proof -
  have "table_ok (disk four_tables) \<lparr>r_path = ''sstable_4.sst'', sparseIndex = sparse 0 0 (one_table 101 2)\<rparr>
      (one_table 101 2)"
    using one_table_fits [of 101 2]
    by (simp add: table_ok_def four_tables_def new_engine_def filepath_Ext_def no_overrun_def one_table_def
        keys_sorted_def entry_ok_def plain_key_def index_bytes_def index_record_def sparseIndexInterval_def)
  then show ?thesis
    using sst_Get_exact [of "one_table 101 2" "disk four_tables" "''sstable_4.sst''" "[110, 97, 109, 101]"]
      mem_Get_rep [OF mem_rep_new, of "[110, 97, 109, 101]"]
    by (simp add: table_ok_def engine_Get_def four_tables_def new_engine_def find_entry_def entry_result_def
        sst_answer_def one_table_def entry_read_def value_result_def OpPut_def OpDelete_def)
qed

lemma four_tables_merged:
  "merge_files (map (map entry_record) [one_table 101 1, one_table 102 1]) = one_table 101 1 @ one_table 102 1"
  by (simp add: merge_files_def SliceStable_def versioned_def entry_record_def one_table_def ve_less_def
      nil_if_empty_def OpPut_def OpDelete_def)

theorem compaction_resurrects_old_value_witness:
  "engine_Get four_tables [110, 97, 109, 101] = Ok [2] \<and>
   (\<exists>e1 e2. compactor_tick four_tables 5 SstNoFault = Some e1 \<and> processCompactionResults e1 [] = Some e2 \<and>
      engine_Get e2 [110, 97, 109, 101] = Ok [1])"
proof -
  let ?k = "[110, 97, 109, 101] :: bytes" and ?x = "\<lparr>e_Key = [110, 97, 109, 101], e_Value = Some [1], e_Op = OpPut\<rparr>"
  have fits: "table_fits (one_table 101 1 @ one_table 102 1)"
    by (simp add: one_table_def table_fits_def entry_fits_def sst_record_def index_bytes_def index_record_def
        sparseIndexInterval_def)
  have name: "compacted_name 5 = ''sstable_5_compacted.sst''"
    by code_simp
  have "\<exists>e1 e2. compactor_tick four_tables 5 SstNoFault = Some e1 \<and> processCompactionResults e1 [] = Some e2 \<and>
      engine_Get e2 ?k = Ok (slice_bytes (e_Value ?x))"
  proof (rule compaction_resurrects_old_value)
    show "mem_rep (e_mem four_tables) [] 0"
      by (simp add: four_tables_def new_engine_def mem_rep_new)
    show "newest ?k [one_table 101 1, one_table 102 1] = Some ?x"
      by (simp add: one_table_def find_entry_def)
    show "table_fits (merge_files (map (map entry_record) [one_table 101 1, one_table 102 1]))"
      unfolding four_tables_merged by (rule fits)
  qed (simp_all only: four_tables_files one_table_fits, simp_all add: find_entry_def four_tables_def new_engine_def
      name)
  with four_tables_Get show ?thesis by simp
qed
text \<open>Fact. A closed engine takes no more writes and leaves everything as it is when one is tried; closing it again
  writes its mem table as one more table and then fails.\<close>

theorem closed_engine_refuses:
  assumes "engine_Close e env = (e1, Ok ())" and "0 < length k" "length k \<le> 65535"
    and "engine_Close e1 env'' = (e2, r)" "r \<noteq> Panic"
  shows "engine_Put e1 k v env' = (e1, Err (WALAppendFailed WalWriteFailed)) \<and>
    engine_Delete e1 k env' = (e1, Err (WALAppendFailed WalWriteFailed)) \<and> r = Err (WALCloseFailed WalFinalSyncFailed)"
proof -
  have closed: "\<not> file_open (e_wal e1)"
    using assms(1) by (auto simp: engine_Close_def wal_Close_def split: option.splits prod.splits outcome.splits if_splits)
  have "r = Err (WALCloseFailed WalFinalSyncFailed)"
  proof (cases "close_flush (e1\<lparr>ctx_done := True\<rparr>) env''")
    case None
    with assms(4,5) show ?thesis by (simp add: engine_Close_def)
  next
    case (Some e3)
    then have "e_wal e3 = e_wal e1"
      by (auto simp: close_flush_def split: if_splits option.splits prod.splits outcome.splits)
    with Some assms(4) closed show ?thesis by (simp add: engine_Close_def wal_Close_def)
  qed
  with closed assms(2,3) show ?thesis
    by (simp add: engine_Put_def engine_Delete_def wal_Append_def)
qed

theorem closed_engine_refuses_witness:
  "\<exists>e1 e2. engine_Close new_engine
       \<lparr>rnd = \<lambda>_. False, wal_fault = NoFault, now = 5, flush_fault = SstNoFault, close_fault = CloseOk\<rparr> = (e1, Ok ()) \<and>
     engine_Put e1 [107] (Some [1])
       \<lparr>rnd = \<lambda>_. False, wal_fault = NoFault, now = 6, flush_fault = SstNoFault, close_fault = CloseOk\<rparr> =
       (e1, Err (WALAppendFailed WalWriteFailed)) \<and>
     engine_Close e1 \<lparr>rnd = \<lambda>_. False, wal_fault = NoFault, now = 7, flush_fault = SstNoFault, close_fault = CloseOk\<rparr> =
       (e2, Err (WALCloseFailed WalFinalSyncFailed))"
proof -
  let ?env = "\<lambda>t. \<lparr>rnd = \<lambda>_. False, wal_fault = NoFault, now = t, flush_fault = SstNoFault, close_fault = CloseOk\<rparr>"
  have len: "mem_Len NewMemTable = 0"
    using mem_Len_rep [OF mem_rep_new] by simp
  then obtain e1 where e1: "engine_Close new_engine (?env 5) = (e1, Ok ())" "e_mem e1 = NewMemTable"
    by (simp add: engine_Close_def close_flush_def wal_Close_def new_engine_def)
  with len have r: "snd (engine_Close e1 (?env 7)) \<noteq> Panic"
    by (simp add: engine_Close_def close_flush_def wal_Close_def)
  from closed_engine_refuses [OF e1(1), of "[107]" "?env 7" _ _ "Some [1]" "?env 6", OF _ _ surjective_pairing r] e1(1)
  show ?thesis by (intro exI [of _ e1] exI [of _ "fst (engine_Close e1 (?env 7))"]) (simp add: prod_eq_iff)
qed


end
