(* ===== verification/StateMachine.thy ===== *)
theory StateMachine
  imports Engine Replication
begin

text \<open>
  The replicated state machine (\<open>internal/raft/state_machine.go\<close>): the command codec, the
  application of one command and of one message of the apply channel to the storage engine,
  and the applier loop on a sequence of messages. The lemmas inside the context
  \<open>kv_store\<close> describe a run of commands on any store with the engine's contract.
\<close>

section \<open>Commands\<close>

record StateMachine =
  storageEngine :: Engine
  sm_lastApplied :: nat

datatype sm_error =
    CommandTooShort nat | CommandTruncated | UnknownOpType OpType | StorageFailed eng_error

definition EncodeCommand :: "OpType \<Rightarrow> bytes \<Rightarrow> bytes \<Rightarrow> bytes" where
  "EncodeCommand op key value = [op] @ le 2 (length key) @ le 4 (length value) @ key @ value"

text \<open>The result of an engine call as the result of \<open>applyCommand\<close>.\<close>

definition sm_result ::
  "StateMachine \<Rightarrow> Engine \<times> (eng_error, unit) outcome \<Rightarrow> StateMachine \<times> (sm_error, unit) outcome" where
  "sm_result sm r =
     (sm\<lparr>storageEngine := fst r\<rparr>,
      case snd r of Ok _ \<Rightarrow> Ok () | Err e \<Rightarrow> Err (StorageFailed e) | Panic \<Rightarrow> Panic)"

definition applyCommand ::
  "StateMachine \<Rightarrow> bytes \<Rightarrow> Env \<Rightarrow> StateMachine \<times> (sm_error, unit) outcome" where
  "applyCommand sm data env =
     (if length data < 7 then (sm, Err (CommandTooShort (length data)))
      else
        let op = data ! 0;
            keyLen = unle (take 2 (drop 1 data));
            valueLen = unle (take 4 (drop 3 data))
        in if length data < 7 + keyLen + valueLen then (sm, Err CommandTruncated)
           else
             let key = take keyLen (drop 7 data);
                 value = take valueLen (drop (7 + keyLen) data)
             in if op = OpPut then sm_result sm (engine_Put (storageEngine sm) key (Some value) env)
                else if op = OpDelete then sm_result sm (engine_Delete (storageEngine sm) key env)
                else (sm, Err (UnknownOpType op)))"

section \<open>The applier\<close>

definition NewStateMachine :: "Engine \<Rightarrow> StateMachine" where
  "NewStateMachine e = \<lparr>storageEngine = e, sm_lastApplied = 0\<rparr>"

text \<open>A failing command is logged and skipped; only a panic ends the process (\<open>None\<close>).\<close>

definition handleApplyMsg :: "StateMachine \<Rightarrow> ApplyMsg \<Rightarrow> Env \<Rightarrow> StateMachine option" where
  "handleApplyMsg sm msg env =
     (if CommandValid msg then
        (if CommandIndex msg \<le> sm_lastApplied sm then Some sm
         else
           (case applyCommand sm (Command msg) env of
              (sm', Ok _) \<Rightarrow> Some (sm'\<lparr>sm_lastApplied := CommandIndex msg\<rparr>)
            | (sm', Err e) \<Rightarrow> Some sm'
            | (sm', Panic) \<Rightarrow> None))
      else if SnapshotValid msg then
        (if SnapshotIndex msg \<le> sm_lastApplied sm then Some sm
         else Some (sm\<lparr>sm_lastApplied := SnapshotIndex msg\<rparr>))
      else Some sm)"

fun runApplier :: "StateMachine \<Rightarrow> (ApplyMsg \<times> Env) list \<Rightarrow> StateMachine option" where
  "runApplier sm [] = Some sm"
| "runApplier sm ((msg, env) # rest) =
     (case handleApplyMsg sm msg env of None \<Rightarrow> None | Some sm' \<Rightarrow> runApplier sm' rest)"

text \<open>\<open>Start\<close> runs the applier until \<open>Stop\<close> cancels its context or the channel is closed: the state
  afterwards, and whether it still runs.\<close>

datatype applier_event = Received ApplyMsg Env | ContextDone | ChannelClosed

fun applier_loop :: "StateMachine \<Rightarrow> applier_event list \<Rightarrow> (StateMachine \<times> bool) option" where
  "applier_loop sm [] = Some (sm, True)"
| "applier_loop sm (Received msg env # rest) =
     (case handleApplyMsg sm msg env of None \<Rightarrow> None | Some sm' \<Rightarrow> applier_loop sm' rest)"
| "applier_loop sm (ContextDone # rest) = Some (sm, False)"
| "applier_loop sm (ChannelClosed # rest) = Some (sm, False)"

definition LastApplied :: "StateMachine \<Rightarrow> nat" where
  "LastApplied sm = sm_lastApplied sm"

text \<open>Until then the loop is the fold over the messages; what comes later is not applied.\<close>

lemma applier_loop_run:
  "applier_loop sm (map (\<lambda>(msg, env). Received msg env) ms @ ContextDone # rest) = map_option (\<lambda>sm'. (sm', False)) (runApplier sm ms)"
  "applier_loop sm (map (\<lambda>(msg, env). Received msg env) ms) = map_option (\<lambda>sm'. (sm', True)) (runApplier sm ms)"
  by (induction sm ms rule: runApplier.induct) (auto split: option.splits)

section \<open>Lemmas: the codec\<close>

lemma applyCommand_header:
  assumes "keyLen < 65536" "valueLen < 2 ^ 32"
  shows "applyCommand sm ([op] @ le 2 keyLen @ le 4 valueLen @ rest) env =
    (if length rest < keyLen + valueLen then (sm, Err CommandTruncated)
     else if op = OpPut then sm_result sm (engine_Put (storageEngine sm) (take keyLen rest)
       (Some (take valueLen (drop keyLen rest))) env)
     else if op = OpDelete then sm_result sm (engine_Delete (storageEngine sm) (take keyLen rest) env)
     else (sm, Err (UnknownOpType op)))"
proof -
  let ?d = "[op] @ le 2 keyLen @ le 4 valueLen @ rest"
  have d: "length ?d = 7 + length rest" "?d ! 0 = op" "take 2 (drop 1 ?d) = le 2 keyLen"
      "take 4 (drop 3 ?d) = le 4 valueLen" "drop 7 ?d = rest"
    by simp_all
  then have d': "drop (7 + keyLen) ?d = drop keyLen rest"
    by (simp only: drop_drop [symmetric] add.commute [of 7])
  have u: "unle (le 2 keyLen) = keyLen" "unle (le 4 valueLen) = valueLen"
    using assms by (simp_all add: unle_le_id)
  show ?thesis
    unfolding applyCommand_def Let_def d d' u by simp
qed

lemma le_wrap: "n mod 256 ^ w = m \<Longrightarrow> le w n = le w m"
  using le_mod [of w n] by simp

lemma applyCommand_encoded:
  assumes "length k < 65536" "length v < 2 ^ 32"
  shows "applyCommand sm (EncodeCommand op k v) env =
    (if op = OpPut then sm_result sm (engine_Put (storageEngine sm) k (Some v) env)
     else if op = OpDelete then sm_result sm (engine_Delete (storageEngine sm) k env)
     else (sm, Err (UnknownOpType op)))"
  unfolding EncodeCommand_def using applyCommand_header [OF assms, of sm op "k @ v" env] by simp

section \<open>Runs of commands\<close>

datatype command = CmdPut bytes bytes | CmdDelete bytes

definition cmd_key :: "command \<Rightarrow> bytes" where
  "cmd_key c = (case c of CmdPut k v \<Rightarrow> k | CmdDelete k \<Rightarrow> k)"

definition cmd_bytes :: "command \<Rightarrow> bytes" where
  "cmd_bytes c = (case c of CmdPut k v \<Rightarrow> EncodeCommand OpPut k v | CmdDelete k \<Rightarrow> EncodeCommand OpDelete k [])"

definition cmd_msg :: "nat \<Rightarrow> command \<Rightarrow> ApplyMsg" where
  "cmd_msg i c = apply_msg \<lparr>l_Index = i, l_Term = 0, l_Data = cmd_bytes c\<rparr>"

text \<open>The last command on a key, if any.\<close>

definition last_command :: "bytes \<Rightarrow> command list \<Rightarrow> command option" where
  "last_command k cs = find (\<lambda>c. cmd_key c = k) (rev cs)"

lemma last_command_simps:
  "last_command k [] = None"
  "last_command k (c # cs) =
     (case last_command k cs of None \<Rightarrow> if cmd_key c = k then Some c else None | Some c' \<Rightarrow> Some c')"
proof -
  have "find P (xs @ [c]) = (case find P xs of None \<Rightarrow> if P c then Some c else None | Some y \<Rightarrow> Some y)" for P xs
    by (induction xs) auto
  then show "last_command k [] = None" "last_command k (c # cs) =
     (case last_command k cs of None \<Rightarrow> if cmd_key c = k then Some c else None | Some c' \<Rightarrow> Some c')"
    by (simp_all add: last_command_def)
qed

text \<open>On a store with the contract, in environments that are benign when they are met, every
  run of commands succeeds and each key ends with its last command.\<close>

context kv_store
begin

fun exec :: "'s \<Rightarrow> (command \<times> 'env) list \<Rightarrow> 's option" where
  "exec s [] = Some s"
| "exec s ((c, env) # cs) =
     (case (case c of CmdPut k v \<Rightarrow> put s k (Some v) env | CmdDelete k \<Rightarrow> delete s k env) of
        (s', Ok _) \<Rightarrow> exec s' cs
      | _ \<Rightarrow> None)"

fun good_run :: "'s \<Rightarrow> (command \<times> 'env) list \<Rightarrow> bool" where
  "good_run s [] \<longleftrightarrow> True"
| "good_run s ((c, env) # cs) \<longleftrightarrow>
     benign s env \<and> good_key (cmd_key c) \<and>
     (case c of CmdPut k v \<Rightarrow> good_value v \<and> good_run (fst (put s k (Some v) env)) cs
              | CmdDelete k \<Rightarrow> good_run (fst (delete s k env)) cs)"

definition cmd_answer :: "command option \<Rightarrow> ('e, bytes) outcome \<Rightarrow> ('e, bytes) outcome" where
  "cmd_answer c old =
     (case c of None \<Rightarrow> old | Some (CmdPut k v) \<Rightarrow> Ok v | Some (CmdDelete k) \<Rightarrow> Err missing)"

lemma cmd_answer_Cons:
  "cmd_answer (last_command k (c # cs)) old =
     cmd_answer (last_command k cs) (cmd_answer (if cmd_key c = k then Some c else None) old)"
  by (cases "last_command k cs") (auto simp: last_command_simps cmd_answer_def split: command.split)

lemma exec_append:
  "exec s (cs @ ds) = (case exec s cs of None \<Rightarrow> None | Some s' \<Rightarrow> exec s' ds)"
  by (induction s cs rule: exec.induct) (auto split: prod.split outcome.split)

lemma good_run_append1: "good_run s (cs @ ds) \<Longrightarrow> good_run s cs"
  by (induction s cs rule: good_run.induct) (auto split: command.splits)

lemma exec_ok:
  assumes "inv s" "good_run s cs"
  shows "\<exists>s'. exec s cs = Some s' \<and> inv s' \<and>
    (\<forall>k. get s' k = cmd_answer (last_command k (map fst cs)) (get s k))"
  using assms
proof (induction s cs rule: exec.induct)
  case (1 s)
  then show ?case by (simp add: last_command_simps cmd_answer_def)
next
  case (2 s c env cs)
  have "\<exists>s1. (case c of CmdPut k v \<Rightarrow> put s k (Some v) env | CmdDelete k \<Rightarrow> delete s k env) = (s1, Ok ()) \<and>
      inv s1 \<and> good_run s1 cs \<and>
      (\<forall>k. get s1 k = cmd_answer (if cmd_key c = k then Some c else None) (get s k))"
  proof (cases c)
    case (CmdPut k v)
    with "2.prems" put_ok [of s env k v] show ?thesis
      by (auto simp: cmd_key_def cmd_answer_def)
  next
    case (CmdDelete k)
    with "2.prems" delete_ok [of s env k] show ?thesis
      by (auto simp: cmd_key_def cmd_answer_def)
  qed
  then obtain s1 where s1: "(case c of CmdPut k v \<Rightarrow> put s k (Some v) env | CmdDelete k \<Rightarrow> delete s k env) = (s1, Ok ())"
      "inv s1" "good_run s1 cs" "\<forall>k. get s1 k = cmd_answer (if cmd_key c = k then Some c else None) (get s k)"
    by blast
  from "2.IH" [OF s1(1) [symmetric] refl s1(2,3)] s1(1,4) show ?case
    by (auto simp: cmd_answer_Cons)
qed

end

text \<open>The applier on messages with increasing indexes is such a run.\<close>

lemma applyCommand_command:
  assumes "length (cmd_key c) < 65536" "\<And>k v. c = CmdPut k v \<Longrightarrow> length v < 2 ^ 32"
  shows "applyCommand sm (cmd_bytes c) env =
    sm_result sm (case c of CmdPut k v \<Rightarrow> engine_Put (storageEngine sm) k (Some v) env
                          | CmdDelete k \<Rightarrow> engine_Delete (storageEngine sm) k env)"
  using assms
  by (cases c) (simp_all add: cmd_bytes_def cmd_key_def applyCommand_encoded OpPut_def OpDelete_def)

lemma runApplier_exec:
  assumes "engine_inv (storageEngine sm)" "eng.good_run (storageEngine sm) (map snd cs)"
    "sorted_wrt (<) (sm_lastApplied sm # map fst cs)"
  shows "\<exists>sm'. runApplier sm (map (\<lambda>(i, c, env). (cmd_msg i c, env)) cs) = Some sm' \<and>
    eng.exec (storageEngine sm) (map snd cs) = Some (storageEngine sm') \<and>
    sm_lastApplied sm' = last (sm_lastApplied sm # map fst cs)"
  using assms
proof (induction cs arbitrary: sm)
  case Nil
  then show ?case by simp
next
  case (Cons x cs)
  obtain i c env where x: "x = (i, c, env)" by (cases x) auto
  let ?r = "case c of CmdPut k v \<Rightarrow> engine_Put (storageEngine sm) k (Some v) env
      | CmdDelete k \<Rightarrow> engine_Delete (storageEngine sm) k env"
  have g: "quiet (storageEngine sm) env" "plain_key (cmd_key c)" "\<And>k v. c = CmdPut k v \<Longrightarrow> small_value v"
      "eng.good_run (fst ?r) (map snd cs)"
    using Cons.prems(2) by (auto simp: x split: command.splits)
  have "\<exists>e. ?r = (e, Ok ()) \<and> engine_inv e"
  proof (cases c)
    case (CmdPut k v)
    with g eng.put_ok [OF Cons.prems(1) g(1), of k v] show ?thesis by (auto simp: cmd_key_def)
  next
    case (CmdDelete k)
    with g eng.delete_ok [OF Cons.prems(1) g(1), of k] show ?thesis by (auto simp: cmd_key_def)
  qed
  then obtain e where e: "?r = (e, Ok ())" "engine_inv e" by blast
  let ?sm = "sm\<lparr>storageEngine := e, sm_lastApplied := i\<rparr>"
  have "applyCommand sm (cmd_bytes c) env = (sm\<lparr>storageEngine := e\<rparr>, Ok ())"
    using applyCommand_command [of c sm env] g(2,3) e(1) by (auto simp: sm_result_def plain_key_def small_value_def)
  then have h: "handleApplyMsg sm (cmd_msg i c) env = Some ?sm"
    using Cons.prems(3) by (auto simp: handleApplyMsg_def cmd_msg_def apply_msg_def x)
  have "eng.exec (storageEngine sm) (map snd (x # cs)) = eng.exec e (map snd cs)"
    using e(1) by (simp add: x)
  moreover have "\<exists>sm'. runApplier ?sm (map (\<lambda>(i, c, env). (cmd_msg i c, env)) cs) = Some sm' \<and>
      eng.exec (storageEngine ?sm) (map snd cs) = Some (storageEngine sm') \<and>
      sm_lastApplied sm' = last (sm_lastApplied ?sm # map fst cs)"
    using g(4) e Cons.prems(3) by (intro Cons.IH) (auto simp: x)
  ultimately show ?case
    using h by (simp add: x)
qed

section \<open>Properties\<close>

text \<open>Fact. The state machine applies a committed log: messages that carry encoded commands with increasing
  indexes, as the apply channel delivers them in log order, are all applied; afterwards \<open>Get\<close>
  answers every key with its last command (the value of a \<open>Put\<close>, not found after a
  \<open>Delete\<close>) and keys without a command as before, and \<open>lastApplied\<close> is the index of the
  last message.\<close>

theorem state_machine_applies_log:
  assumes "engine_inv (storageEngine sm)"
    and "eng.good_run (storageEngine sm) (map snd cs)"
    and "sorted_wrt (<) (sm_lastApplied sm # map fst cs)"
  shows "\<exists>sm'. runApplier sm (map (\<lambda>(i, c, env). (cmd_msg i c, env)) cs) = Some sm' \<and>
    engine_inv (storageEngine sm') \<and>
    sm_lastApplied sm' = last (sm_lastApplied sm # map fst cs) \<and>
    (\<forall>k. engine_Get (storageEngine sm') k =
      (case last_command k (map (fst \<circ> snd) cs) of
         None \<Rightarrow> engine_Get (storageEngine sm) k
       | Some (CmdPut _ v) \<Rightarrow> Ok v
       | Some (CmdDelete _) \<Rightarrow> Err ErrNotFound))"
  using runApplier_exec [OF assms] eng.exec_ok [OF assms(1,2)]
  by (auto simp: eng.cmd_answer_def comp_def)

theorem state_machine_applies_log_witness:
  "\<exists>sm'. runApplier (NewStateMachine new_engine)
     [(cmd_msg 1 (CmdPut [110, 97, 109, 101] [1]), \<lparr>rnd = \<lambda>_. False, wal_fault = NoFault, now = 5, flush_fault = SstNoFault, close_fault = CloseOk\<rparr>)]
       = Some sm' \<and>
   sm_lastApplied sm' = 1 \<and> engine_Get (storageEngine sm') [110, 97, 109, 101] = Ok [1]"
proof -
  let ?k = "[110, 97, 109, 101] :: bytes"
  let ?env = "\<lparr>rnd = \<lambda>_. False, wal_fault = NoFault, now = 5, flush_fault = SstNoFault, close_fault = CloseOk\<rparr>"
  have inv: "engine_inv (storageEngine (NewStateMachine new_engine))"
    by (simp add: NewStateMachine_def new_engine_inv)
  have "eng.good_run (storageEngine (NewStateMachine new_engine)) (map snd [(1, CmdPut ?k [1], ?env)])"
    by (simp add: quiet_def plain_key_def small_value_def cmd_key_def NewStateMachine_def new_engine_def)
  from state_machine_applies_log [OF inv this] show ?thesis
    by (auto simp: NewStateMachine_def last_command_def cmd_key_def)
qed

text \<open>Fact. Messages that reach the state machine out of order lose writes: when the apply channel is full,
  each further message waits in a goroutine of its own, and the scheduler may let a later
  one through first. The later command is applied and the earlier one is then skipped as
  already applied.\<close>

theorem swapped_messages_lose_write:
  assumes "engine_inv (storageEngine sm)" and "quiet (storageEngine sm) env2"
    and "plain_key k2" and "length v2 < 2 ^ 32" and "k1 \<noteq> k2"
    and "sm_lastApplied sm < i" and "i < j"
  shows "\<exists>sm'. runApplier sm [(cmd_msg j (CmdPut k2 v2), env2), (cmd_msg i (CmdPut k1 v1), env1)] = Some sm' \<and>
    sm_lastApplied sm' = j \<and>
    engine_Get (storageEngine sm') k2 = Ok v2 \<and>
    engine_Get (storageEngine sm') k1 = engine_Get (storageEngine sm) k1"
proof -
  obtain e where e: "engine_Put (storageEngine sm) k2 (Some v2) env2 = (e, Ok ())"
      "\<forall>k'. engine_Get e k' = (if k' = k2 then Ok v2 else engine_Get (storageEngine sm) k')"
    using eng.put_ok [OF assms(1-3), of v2] assms(4) by (auto simp: small_value_def)
  have "applyCommand sm (cmd_bytes (CmdPut k2 v2)) env2 = (sm\<lparr>storageEngine := e\<rparr>, Ok ())"
    using applyCommand_command [of "CmdPut k2 v2" sm env2] assms(3,4) e(1)
    by (auto simp: sm_result_def plain_key_def cmd_key_def)
  then have "handleApplyMsg sm (cmd_msg j (CmdPut k2 v2)) env2 = Some (sm\<lparr>storageEngine := e, sm_lastApplied := j\<rparr>)"
    using assms(6,7) by (simp add: handleApplyMsg_def cmd_msg_def apply_msg_def)
  moreover have "handleApplyMsg (sm\<lparr>storageEngine := e, sm_lastApplied := j\<rparr>) (cmd_msg i (CmdPut k1 v1)) env1
      = Some (sm\<lparr>storageEngine := e, sm_lastApplied := j\<rparr>)"
    using assms(7) by (simp add: handleApplyMsg_def cmd_msg_def apply_msg_def)
  ultimately show ?thesis
    using e(2) assms(5) by simp
qed

theorem swapped_messages_lose_write_witness:
  "\<exists>sm'. runApplier (NewStateMachine new_engine)
     [(cmd_msg 2 (CmdPut [110, 97, 109, 101] [1]), \<lparr>rnd = \<lambda>_. False, wal_fault = NoFault, now = 5, flush_fault = SstNoFault, close_fault = CloseOk\<rparr>),
      (cmd_msg 1 (CmdPut [110, 97, 109, 102] [2]), \<lparr>rnd = \<lambda>_. False, wal_fault = NoFault, now = 6, flush_fault = SstNoFault, close_fault = CloseOk\<rparr>)]
       = Some sm' \<and> sm_lastApplied sm' = 2 \<and>
     engine_Get (storageEngine sm') [110, 97, 109, 102] = engine_Get new_engine [110, 97, 109, 102]"
proof -
  let ?sm = "NewStateMachine new_engine"
  let ?env = "\<lparr>rnd = \<lambda>_. False, wal_fault = NoFault, now = 5, flush_fault = SstNoFault, close_fault = CloseOk\<rparr>"
  have "engine_inv (storageEngine ?sm)"
    by (simp add: NewStateMachine_def new_engine_inv)
  moreover have "quiet (storageEngine ?sm) ?env"
    by (simp add: quiet_def NewStateMachine_def new_engine_def)
  ultimately show ?thesis
    using swapped_messages_lose_write [of ?sm ?env "[110, 97, 109, 101]" "[1]" "[110, 97, 109, 102]" 1 2 "[2]"
        "\<lparr>rnd = \<lambda>_. False, wal_fault = NoFault, now = 6, flush_fault = SstNoFault, close_fault = CloseOk\<rparr>"]
    by (auto simp: plain_key_def NewStateMachine_def)
qed

text \<open>Fact. A command for a key of \<open>65536 + m\<close> bytes is decoded as a different command: the length field
  wraps to \<open>m\<close>, so the first \<open>m\<close> bytes of the key become the key and the value is cut out of
  the rest of the key. No length check rejects it.\<close>

theorem long_key_is_mangled:
  assumes "length k = 65536 + m" and "m < 65536" and "length v < 2 ^ 32"
  shows "applyCommand sm (EncodeCommand OpPut k v) env =
    sm_result sm (engine_Put (storageEngine sm) (take m k) (Some (take (length v) (drop m (k @ v)))) env)"
proof -
  have "le 2 (length k) = le 2 m"
    using assms(1,2) by (intro le_wrap) simp
  then have "EncodeCommand OpPut k v = [OpPut] @ le 2 m @ le 4 (length v) @ (k @ v)"
    by (simp add: EncodeCommand_def)
  then show ?thesis
    using applyCommand_header [OF assms(2,3), of sm OpPut "k @ v" env] assms(1) by simp
qed

theorem long_key_is_mangled_witness:
  "applyCommand (NewStateMachine new_engine) (EncodeCommand OpPut (97 # replicate 65536 0) [5])
      \<lparr>rnd = \<lambda>_. False, wal_fault = NoFault, now = 5, flush_fault = SstNoFault, close_fault = CloseOk\<rparr> =
    sm_result (NewStateMachine new_engine) (engine_Put new_engine [97] (Some [0])
      \<lparr>rnd = \<lambda>_. False, wal_fault = NoFault, now = 5, flush_fault = SstNoFault, close_fault = CloseOk\<rparr>)"
proof -
  have "take 1 (drop 1 ((97 # replicate 65536 0) @ [5])) = [0 :: byte]"
    using replicate_Suc [of 65535 "0 :: byte"] by simp
  then show ?thesis
    using long_key_is_mangled [of "97 # replicate 65536 0" 1 "[5]" "NewStateMachine new_engine"
        "\<lparr>rnd = \<lambda>_. False, wal_fault = NoFault, now = 5, flush_fault = SstNoFault, close_fault = CloseOk\<rparr>"]
    by (simp add: NewStateMachine_def)
qed

end
