(* ===== verification/Snapshot.thy ===== *)
theory Snapshot
  imports Replication
begin

text \<open>
  Snapshots (\<open>internal/raft/snapshot.go\<close>): \<open>TakeSnapshot\<close>, \<open>HandleInstallSnapshot\<close> and
  the snapshot file. A snapshot replaces the front of the log, after which the positions in
  the log are no longer the indexes of its entries; the theorems show what \<open>TakeSnapshot\<close>
  keeps and how the routines that use indexes as positions fail afterwards.
\<close>

section \<open>Operations\<close>

definition snapshotFilePath :: string where "snapshotFilePath = ''snapshot.bin''"

text \<open>What can go wrong: the temporary file cannot be created; the write, whose error is dropped,
  stops after \<open>k\<close> bytes; the rename fails, which leaves the temporary file behind. The result tells
  whether the call returns no error.\<close>

datatype snapshot_fault = SnapshotSaved | SnapshotCreateFails | SnapshotWriteCut nat | SnapshotRenameFails nat

definition saveSnapshotFileLocked :: "Node \<Rightarrow> bytes \<Rightarrow> snapshot_fault \<Rightarrow> Node \<times> bool" where
  "saveSnapshotFileLocked n data fault =
     (let tmpPath = snapshotFilePath @ ''.tmp'';
          written = (\<lambda>b. fs_write tmpPath b (n_disk n))
      in case fault of
           SnapshotCreateFails \<Rightarrow> (n, False)
         | SnapshotWriteCut k \<Rightarrow> (n\<lparr>n_disk := fs_rename tmpPath snapshotFilePath (written (take k data))\<rparr>, True)
         | SnapshotRenameFails k \<Rightarrow> (n\<lparr>n_disk := written (take k data)\<rparr>, False)
         | SnapshotSaved \<Rightarrow> (n\<lparr>n_disk := fs_rename tmpPath snapshotFilePath (written data)\<rparr>, True))"

definition LoadSnapshotFile :: "Node \<Rightarrow> bytes option" where
  "LoadSnapshotFile n = fs_read (n_disk n) snapshotFilePath"

datatype snapshot_error = InvalidSnapshotIndex | SnapshotIndexNotFound | SnapshotSaveFailed

text \<open>The search for the cut position.\<close>

fun find_index :: "nat \<Rightarrow> LogEntry list \<Rightarrow> nat option" where
  "find_index i [] = None"
| "find_index i (e # es) = (if l_Index e = i then Some 0 else map_option Suc (find_index i es))"

definition TakeSnapshot ::
  "Node \<Rightarrow> nat \<Rightarrow> bytes \<Rightarrow> snapshot_fault \<Rightarrow> Node \<times> (snapshot_error, unit) outcome" where
  "TakeSnapshot n lastIncludedIndex snapshotData fault =
     (if n_log n = [] then (n, Panic)
      else if lastIncludedIndex \<le> l_Index (n_log n ! 0) \<or> lastIncludedIndex > lastApplied n
      then (n, Err InvalidSnapshotIndex)
      else
        (case find_index lastIncludedIndex (n_log n) of
           None \<Rightarrow> (n, Err SnapshotIndexNotFound)
         | Some cutIdx \<Rightarrow>
             let lastIncludedTerm = l_Term (n_log n ! cutIdx);
                 newLog = \<lparr>l_Index = lastIncludedIndex, l_Term = lastIncludedTerm, l_Data = []\<rparr>
                            # drop (cutIdx + 1) (n_log n);
                 n1 = persistStateLocked (n\<lparr>n_log := newLog\<rparr>)
             in case saveSnapshotFileLocked n1 snapshotData fault of
                  (n2, ok) \<Rightarrow> (n2, if ok then Ok () else Err SnapshotSaveFailed)))"

definition snapshot_msg :: "InstallSnapshotRequest \<Rightarrow> ApplyMsg" where
  "snapshot_msg req =
     \<lparr>CommandValid = False, Command = [], CommandIndex = 0, SnapshotValid = True,
      Snapshot = is_Data req, SnapshotIndex = is_LastIncludedIndex req,
      SnapshotTerm = is_LastIncludedTerm req\<rparr>"

definition HandleInstallSnapshot ::
  "Node \<Rightarrow> InstallSnapshotRequest \<Rightarrow> snapshot_fault \<Rightarrow> Node \<times> InstallSnapshotResponse" where
  "HandleInstallSnapshot n req fault =
     (let resp = \<lparr>ir_Term = currentTerm n\<rparr>
      in if is_Term req < currentTerm n then (n, resp)
         else
           let n1 = (if is_Term req > currentTerm n then step_down n (is_Term req) else n)
           in if is_LastIncludedIndex req \<le> commitIndex n1 then (n1, resp)
              else
                let newLog = [\<lparr>l_Index = is_LastIncludedIndex req, l_Term = is_LastIncludedTerm req, l_Data = []\<rparr>];
                    n2 = persistStateLocked (n1\<lparr>n_log := newLog, commitIndex := is_LastIncludedIndex req,
                                                  lastApplied := is_LastIncludedIndex req\<rparr>);
                    n3 = fst (saveSnapshotFileLocked n2 (is_Data req) fault)
                in (send_apply n3 (snapshot_msg req), resp))"

section \<open>Lemmas\<close>

lemma find_index_Some:
  assumes "\<forall>k < length lg. l_Index (lg ! k) = b + k" "b \<le> i" "i < b + length lg"
  shows "find_index i lg = Some (i - b)"
  using assms
proof (induction lg arbitrary: b)
  case (Cons e es)
  have e: "l_Index e = b"
    using Cons.prems(1) by force
  have es: "\<forall>k < length es. l_Index (es ! k) = Suc b + k"
    using Cons.prems(1) by force
  show ?case
  proof (cases "i = b")
    case True
    with e show ?thesis by simp
  next
    case False
    with Cons.IH [OF es] Cons.prems e show ?thesis by (auto simp: Suc_diff_Suc)
  qed
qed simp

lemma TakeSnapshot_indexed:
  assumes "indexed (n_log n)" "0 < i" "i \<le> lastApplied n" "lastApplied n < length (n_log n)"
  shows "\<exists>n'. TakeSnapshot n i data SnapshotSaved = (n', Ok ()) \<and>
    n_log n' = \<lparr>l_Index = i, l_Term = l_Term (n_log n ! i), l_Data = []\<rparr> # drop (i + 1) (n_log n) \<and>
    LoadSnapshotFile n' = Some data \<and>
    (n_io n = PersistOk \<longrightarrow> fs_read (n_disk n') stateFilePath = Some (encode_state n')) \<and>
    currentTerm n' = currentTerm n \<and> votedFor n' = votedFor n \<and> n_role n' = n_role n \<and>
    commitIndex n' = commitIndex n \<and> lastApplied n' = lastApplied n"
proof -
  let ?lg = "\<lparr>l_Index = i, l_Term = l_Term (n_log n ! i), l_Data = []\<rparr> # drop (i + 1) (n_log n)"
  have "find_index i (n_log n) = Some (i - 0)"
    using assms by (intro find_index_Some) (auto simp: indexed_def)
  moreover have "l_Index (n_log n ! 0) = 0" "n_log n \<noteq> []"
    using assms(1) by (auto simp: indexed_def)
  moreover have "fs_read (n_disk (persistStateLocked (n\<lparr>n_log := ?lg\<rparr>))) stateFilePath
      = Some (encode_state (n\<lparr>n_log := ?lg\<rparr>))" if "n_io n = PersistOk"
    using that by simp
  ultimately show ?thesis
    using assms(2,3)
    by (simp add: TakeSnapshot_def saveSnapshotFileLocked_def LoadSnapshotFile_def update_conv' delete_conv'
        stateFilePath_def snapshotFilePath_def encode_state_def Let_def)
qed

section \<open>Properties\<close>

text \<open>Fact. On a log whose positions are its indexes, \<open>TakeSnapshot\<close> at an applied index keeps
  exactly the entries after it, replaces it by an entry of the same index and term, leaves
  the term, vote, role and commit index alone, and saves both files.\<close>

theorem take_snapshot_keeps_suffix:
  assumes "n_log n \<noteq> []" and "\<forall>k < length (n_log n). l_Index (n_log n ! k) = k"
    and "0 < i" and "i \<le> lastApplied n" and "lastApplied n < length (n_log n)"
  shows "\<exists>n'. TakeSnapshot n i data SnapshotSaved = (n', Ok ()) \<and>
    hd (n_log n') = \<lparr>l_Index = i, l_Term = l_Term (n_log n ! i), l_Data = []\<rparr> \<and>
    tl (n_log n') = drop (i + 1) (n_log n) \<and>
    currentTerm n' = currentTerm n \<and> votedFor n' = votedFor n \<and> commitIndex n' = commitIndex n \<and>
    LoadSnapshotFile n' = Some data \<and>
    (n_io n = PersistOk \<longrightarrow> fs_read (n_disk n') stateFilePath = Some (encode_state n'))"
  using TakeSnapshot_indexed [of n i data] assms by (auto simp: indexed_def)

theorem take_snapshot_keeps_suffix_witness:
  "\<exists>n'. TakeSnapshot ((fresh_node DefaultConfig [''b''] 8 [])\<lparr>lastApplied := 1, commitIndex := 1,
      n_log := [\<lparr>l_Index = 0, l_Term = 0, l_Data = []\<rparr>, \<lparr>l_Index = 1, l_Term = 3, l_Data = [7]\<rparr>,
                \<lparr>l_Index = 2, l_Term = 3, l_Data = [8]\<rparr>]\<rparr>) 1 [9] SnapshotSaved = (n', Ok ()) \<and>
    tl (n_log n') = [\<lparr>l_Index = 2, l_Term = 3, l_Data = [8]\<rparr>]"
  using take_snapshot_keeps_suffix [of "(fresh_node DefaultConfig [''b''] 8 [])\<lparr>lastApplied := 1, commitIndex := 1,
      n_log := [\<lparr>l_Index = 0, l_Term = 0, l_Data = []\<rparr>, \<lparr>l_Index = 1, l_Term = 3, l_Data = [7]\<rparr>,
                \<lparr>l_Index = 2, l_Term = 3, l_Data = [8]\<rparr>]\<rparr>" 1 "[9]"]
  by (simp add: All_less_Suc2 numeral_2_eq_2) blast

text \<open>Property C40. After \<open>TakeSnapshot\<close> a leader panics at the next commit: it proposes an entry, and when a
  peer acknowledges an entry the commit rule reads \<open>n.log[N]\<close> at the last log index, which lies beyond the
  shortened log.\<close>

theorem snapshot_breaks_commit:
  assumes "n_log n \<noteq> []" and "\<forall>k < length (n_log n). l_Index (n_log n ! k) = k"
    and "0 < i" and "i \<le> lastApplied n" and "lastApplied n < length (n_log n)"
    and "commitIndex n < length (n_log n)" and "length (n_log n) < 2 ^ 64" and "n_role n = Leader"
  shows "\<exists>n1 n2. TakeSnapshot n i snap SnapshotSaved = (n1, Ok ()) \<and>
    Propose n1 cmd = Some (n2, length (n_log n), currentTerm n, True) \<and>
    maybeAdvanceCommitIndexLocked n2 = None"
proof -
  have ix: "indexed (n_log n)"
    using assms(1,2) by (simp add: indexed_def)
  obtain n1 where n1: "TakeSnapshot n i snap SnapshotSaved = (n1, Ok ())"
      "n_log n1 = \<lparr>l_Index = i, l_Term = l_Term (n_log n ! i), l_Data = []\<rparr> # drop (i + 1) (n_log n)"
      "currentTerm n1 = currentTerm n" "n_role n1 = n_role n" "commitIndex n1 = commitIndex n"
    using TakeSnapshot_indexed [OF ix assms(3-5)] by blast
  let ?L = "length (n_log n)"
  have last: "l_Index (last (n_log n1)) = ?L - 1"
  proof (cases "i + 1 < ?L")
    case True
    then have "last (n_log n1) = last (n_log n)"
      by (simp add: n1(2) last_drop)
    with indexed_last [OF ix] show ?thesis by simp
  next
    case False
    with assms(4,5) have "i = ?L - 1" by linarith
    with False show ?thesis by (simp add: n1(2))
  qed
  let ?e = "\<lparr>l_Index = ?L, l_Term = currentTerm n, l_Data = cmd\<rparr>"
  let ?n2 = "persistStateLocked (n1\<lparr>n_log := n_log n1 @ [?e]\<rparr>)"
  have "n_log n1 \<noteq> []"
    using n1(2) by simp
  with last have "lastLogIndexLocked n1 = Some (?L - 1)"
    by (simp add: lastLogIndexLocked_def)
  then have p: "Propose n1 cmd = Some (?n2, ?L, currentTerm n, True)"
    using assms(1,7,8) n1(3,4) by (simp add: Propose_def Let_def)
  have "length (n_log ?n2) \<le> ?L"
    using assms(3,4,5) by (simp add: n1(2))
  moreover obtain m where "?L = Suc m"
    using assms(1) by (cases "n_log n") auto
  ultimately have "maybeAdvanceCommitIndexLocked ?n2 = None"
    using assms(6) n1(5) by (simp add: maybeAdvanceCommitIndexLocked_def lastLogIndexLocked_def)
  with n1(1) p show ?thesis by blast
qed

theorem snapshot_breaks_commit_witness:
  "\<exists>n1 n2. TakeSnapshot ((fresh_node DefaultConfig [''b''] 8 [])\<lparr>n_role := Leader, currentTerm := 3, lastApplied := 1,
      commitIndex := 1,
      n_log := [\<lparr>l_Index = 0, l_Term = 0, l_Data = []\<rparr>, \<lparr>l_Index = 1, l_Term = 3, l_Data = [7]\<rparr>]\<rparr>) 1 [9] SnapshotSaved
      = (n1, Ok ()) \<and>
    Propose n1 [5] = Some (n2, 2, 3, True) \<and> maybeAdvanceCommitIndexLocked n2 = None"
  using snapshot_breaks_commit [of "(fresh_node DefaultConfig [''b''] 8 [])\<lparr>n_role := Leader, currentTerm := 3,
      lastApplied := 1, commitIndex := 1,
      n_log := [\<lparr>l_Index = 0, l_Term = 0, l_Data = []\<rparr>, \<lparr>l_Index = 1, l_Term = 3, l_Data = [7]\<rparr>]\<rparr>" 1 "[9]" "[5]"]
  by (simp add: less_2_cases_iff all_conj_distrib flip: numeral_2_eq_2)

text \<open>Fact. After \<open>HandleInstallSnapshot\<close> the first log entry has the snapshot's term. A leader that has
  backed up to the start of its log sends \<open>PrevLogIndex = 0\<close> with term 0; the follower
  takes that for a conflict at position 0 and cuts its log to nothing, after which its next
  election timeout panics.\<close>

theorem install_snapshot_then_append_panics:
  assumes "currentTerm n \<le> is_Term req" and "commitIndex n < is_LastIncludedIndex req"
    and "0 < is_LastIncludedTerm req"
    and "is_Term req \<le> ae_Term areq" and "ae_PrevLogIndex areq = 0" and "ae_PrevLogTerm areq = 0"
    and "n_role n \<noteq> Leader"
  shows "\<exists>n1 n2 resp aresp. HandleInstallSnapshot n req fault = (n1, resp) \<and>
    HandleAppendEntries n1 areq = Some (n2, aresp) \<and> n_log n2 = [] \<and> onElectionTimeout n2 = None"
proof -
  obtain n1 resp where n1: "HandleInstallSnapshot n req fault = (n1, resp)" by force
  have f: "n_log n1 = [\<lparr>l_Index = is_LastIncludedIndex req, l_Term = is_LastIncludedTerm req, l_Data = []\<rparr>]"
      "currentTerm n1 = is_Term req" "n_role n1 \<noteq> Leader"
    using n1 assms(1,2,7)
    by (auto simp: HandleInstallSnapshot_def saveSnapshotFileLocked_def Let_def split: if_splits snapshot_fault.splits)
  let ?n2 = "persistStateLocked ((accepted_term n1 areq)\<lparr>n_log := []\<rparr>)"
  have a: "\<exists>aresp. HandleAppendEntries n1 areq = Some (?n2, aresp)"
    unfolding HandleAppendEntries_eq using f assms(3-6) by simp
  have "n_role ?n2 \<noteq> Leader"
    using f(3) by (simp add: accepted_term_def)
  then have "onElectionTimeout ?n2 = None"
    by (simp add: onElectionTimeout_def lastLogIndexLocked_def Let_def)
  moreover have "n_log ?n2 = []"
    by simp
  ultimately show ?thesis
    using n1 a by blast
qed

theorem install_snapshot_then_append_panics_witness:
  "\<exists>n1 n2 resp aresp. HandleInstallSnapshot (fresh_node DefaultConfig [''b''] 8 [])
      \<lparr>is_Term = 3, is_LeaderId = ''b'', is_LastIncludedIndex = 5, is_LastIncludedTerm = 2, is_Data = [1]\<rparr> SnapshotSaved = (n1, resp) \<and>
    HandleAppendEntries n1 \<lparr>ae_Term = 3, ae_LeaderId = ''b'', ae_PrevLogIndex = 0, ae_PrevLogTerm = 0,
       ae_Entries = [], ae_LeaderCommit = 5\<rparr> = Some (n2, aresp) \<and> n_log n2 = [] \<and> onElectionTimeout n2 = None"
  by (rule install_snapshot_then_append_panics) (simp_all add: fresh_node_def)

end
