(* ===== verification/RPC.thy ===== *)
theory RPC
  imports StateMachine Snapshot
begin

text \<open>
  The RPC layer (\<open>internal/rpc\<close>): the pool of peer connections of \<open>client.go\<close> and the
  service handlers of \<open>server.go\<close> with their command encoder. The gRPC client stub of a
  connection is not part of the repository: it is an argument of the pool's calls.
\<close>

section \<open>The peer pool\<close>

record PeerPool =
  selfID :: string
  pool_peers :: "(string \<times> string) list"

datatype pool_error = UnknownPeer string | DialFailed string

definition defaultRPCTimeout :: int where "defaultRPCTimeout = 200 * Millisecond"

definition NewPeerPool :: "string \<Rightarrow> PeerPool" where
  "NewPeerPool self = \<lparr>selfID = self, pool_peers = []\<rparr>"

definition Connect :: "PeerPool \<Rightarrow> string \<Rightarrow> string \<Rightarrow> bool \<Rightarrow> PeerPool \<times> (pool_error, unit) outcome" where
  "Connect p peerID addr dial_ok =
     (if map_of (pool_peers p) peerID \<noteq> None then (p, Ok ())
      else if \<not> dial_ok then (p, Err (DialFailed peerID))
      else (p\<lparr>pool_peers := pool_peers p @ [(peerID, addr)]\<rparr>, Ok ()))"

definition pool_Close :: "PeerPool \<Rightarrow> PeerPool" where
  "pool_Close p = p\<lparr>pool_peers := []\<rparr>"

definition PeerIDs :: "PeerPool \<Rightarrow> string list" where
  "PeerIDs p = map fst (pool_peers p)"

text \<open>A connection is represented by its address.\<close>

definition getPeer :: "PeerPool \<Rightarrow> string \<Rightarrow> (pool_error, string) outcome" where
  "getPeer p peerID =
     (case map_of (pool_peers p) peerID of None \<Rightarrow> Err (UnknownPeer peerID) | Some addr \<Rightarrow> Ok addr)"

definition GetClientStub :: "PeerPool \<Rightarrow> string \<Rightarrow> (string \<Rightarrow> 'stub) \<Rightarrow> (pool_error, 'stub) outcome" where
  "GetClientStub p peerID client =
     (case getPeer p peerID of Ok addr \<Rightarrow> Ok (client addr) | Err e \<Rightarrow> Err e | Panic \<Rightarrow> Panic)"

text \<open>The calls differ in the stub method and the timeout; \<open>stub addr timeout req\<close> is its result.\<close>

definition pool_call ::
  "PeerPool \<Rightarrow> string \<Rightarrow> int \<Rightarrow> (string \<Rightarrow> int \<Rightarrow> 'q \<Rightarrow> ('e, 'r) outcome) \<Rightarrow> 'q \<Rightarrow> (pool_error + 'e, 'r) outcome" where
  "pool_call p peerID timeout stub req =
     (case getPeer p peerID of
        Err e \<Rightarrow> Err (Inl e)
      | Panic \<Rightarrow> Panic
      | Ok addr \<Rightarrow>
          (case stub addr timeout req of Ok r \<Rightarrow> Ok r | Err e \<Rightarrow> Err (Inr e) | Panic \<Rightarrow> Panic))"

definition pool_Ping where "pool_Ping p peerID stub req = pool_call p peerID defaultRPCTimeout stub req"
definition pool_Put where "pool_Put p peerID stub req = pool_call p peerID (2000 * Millisecond) stub req"
definition pool_Get where "pool_Get p peerID stub req = pool_call p peerID defaultRPCTimeout stub req"
definition pool_Delete where "pool_Delete p peerID stub req = pool_call p peerID (2000 * Millisecond) stub req"
definition pool_RequestVote where "pool_RequestVote p peerID stub req = pool_call p peerID defaultRPCTimeout stub req"
definition pool_AppendEntries where "pool_AppendEntries p peerID stub req = pool_call p peerID defaultRPCTimeout stub req"
definition pool_InstallSnapshot where
  "pool_InstallSnapshot p peerID stub req = pool_call p peerID (10000 * Millisecond) stub req"

text \<open>The pings run concurrently; the result is one entry per peer, whatever their order.\<close>

definition BroadcastPing where
  "BroadcastPing p stub req = map_of (map (\<lambda>i. (i, pool_Ping p i stub req)) (PeerIDs p))"

section \<open>The service\<close>

text \<open>The field \<open>server\<close> is nil until \<open>Start\<close> has created the gRPC server; a stopped one stays in it.\<close>

datatype grpc_state = NoServer | Serving | Stopped

record GRPCServer =
  g_nodeID :: string
  g_raft :: "Node option"
  g_engine :: "Engine option"
  g_server :: grpc_state

record WriteResponse =
  w_Success :: bool
  w_Error :: string

record GetResponse =
  g_Value :: slice
  g_Found :: bool
  g_Error :: string

text \<open>\<open>encodeCommand\<close>, byte by byte as in \<open>server.go\<close>.\<close>

definition encodeCommand :: "OpType \<Rightarrow> bytes \<Rightarrow> bytes \<Rightarrow> bytes" where
  "encodeCommand op key value =
     [op, of_nat (length key), of_nat (drop_bit 8 (length key)),
      of_nat (length value), of_nat (drop_bit 8 (length value)), of_nat (drop_bit 16 (length value)),
      of_nat (drop_bit 24 (length value))] @ key @ value"

definition NewGRPCServer :: "string \<Rightarrow> Node option \<Rightarrow> Engine option \<Rightarrow> GRPCServer" where
  "NewGRPCServer i n e = \<lparr>g_nodeID = i, g_raft = n, g_engine = e, g_server = NoServer\<rparr>"

datatype grpc_error = ListenFailed string | ServeFailed

text \<open>\<open>Start\<close> returns when \<open>Serve\<close> does: at once if the address cannot be bound, otherwise when the
  server is stopped or accepting connections fails. The state is the one while it serves.\<close>

definition grpc_Start :: "GRPCServer \<Rightarrow> string \<Rightarrow> bool \<Rightarrow> bool \<Rightarrow> GRPCServer \<times> (grpc_error, unit) outcome" where
  "grpc_Start s addr listen_ok serve_ok =
     (if \<not> listen_ok then (s, Err (ListenFailed addr))
      else (s\<lparr>g_server := Serving\<rparr>, if serve_ok then Ok () else Err ServeFailed))"

definition grpc_Stop :: "GRPCServer \<Rightarrow> GRPCServer" where
  "grpc_Stop s = (if g_server s \<noteq> NoServer then s\<lparr>g_server := Stopped\<rparr> else s)"

text \<open>A call goes through the interceptor, which logs it and hands on what the handler returns.\<close>

datatype 'e log_line = RPCReceived string string | RPCFailed string string 'e

definition loggingInterceptor ::
  "string \<Rightarrow> string \<Rightarrow> ('q \<Rightarrow> ('e, 'r) outcome) \<Rightarrow> 'q \<Rightarrow> ('e, 'r) outcome \<times> 'e log_line list" where
  "loggingInterceptor nodeID fullMethod handler req =
     (let result = handler req
      in (result, RPCReceived nodeID fullMethod #
            (case result of Err e \<Rightarrow> [RPCFailed nodeID fullMethod e] | _ \<Rightarrow> [])))"

text \<open>\<open>quote\<close> is the verb \<open>%q\<close> of \<open>Sprintf\<close>.\<close>

record PingResponse =
  ResponderId :: string
  Message :: string

definition grpc_Ping :: "GRPCServer \<Rightarrow> (string \<Rightarrow> string) \<Rightarrow> PingResponse" where
  "grpc_Ping s quote =
     \<lparr>ResponderId = g_nodeID s, Message = ''node '' @ quote (g_nodeID s) @ '' is alive and ready''\<rparr>"

definition grpc_RequestVote :: "GRPCServer \<Rightarrow> RequestVoteRequest \<Rightarrow> (GRPCServer \<times> RequestVoteResponse) option" where
  "grpc_RequestVote s req =
     (case g_raft s of
        None \<Rightarrow> Some (s, \<lparr>vr_Term = rv_Term req, vr_VoteGranted = False\<rparr>)
      | Some n \<Rightarrow> map_option (\<lambda>(n', r). (s\<lparr>g_raft := Some n'\<rparr>, r)) (HandleRequestVote n req))"

definition grpc_AppendEntries :: "GRPCServer \<Rightarrow> AppendEntriesRequest \<Rightarrow> (GRPCServer \<times> AppendEntriesResponse) option" where
  "grpc_AppendEntries s req =
     (case g_raft s of
        None \<Rightarrow> Some (s, \<lparr>ar_Term = ae_Term req, ar_Success = False, ar_MatchIndex = 0\<rparr>)
      | Some n \<Rightarrow> map_option (\<lambda>(n', r). (s\<lparr>g_raft := Some n'\<rparr>, r)) (HandleAppendEntries n req))"

definition grpc_InstallSnapshot ::
  "GRPCServer \<Rightarrow> InstallSnapshotRequest \<Rightarrow> snapshot_fault \<Rightarrow> GRPCServer \<times> InstallSnapshotResponse" where
  "grpc_InstallSnapshot s req fault =
     (case g_raft s of
        None \<Rightarrow> (s, \<lparr>ir_Term = is_Term req\<rparr>)
      | Some n \<Rightarrow> (let (n', r) = HandleInstallSnapshot n req fault in (s\<lparr>g_raft := Some n'\<rparr>, r)))"

text \<open>A write without a Raft node goes to the engine directly.\<close>

definition write_direct ::
  "GRPCServer \<Rightarrow> (Engine \<Rightarrow> Engine \<times> (eng_error, unit) outcome) \<Rightarrow> (eng_error \<Rightarrow> string)
    \<Rightarrow> (GRPCServer \<times> WriteResponse) option" where
  "write_direct s op err_text =
     (case g_engine s of
        None \<Rightarrow> Some (s, \<lparr>w_Success = False, w_Error = ''node not ready''\<rparr>)
      | Some e \<Rightarrow>
          (case op e of
             (e', Ok _) \<Rightarrow> Some (s\<lparr>g_engine := Some e'\<rparr>, \<lparr>w_Success = True, w_Error = []\<rparr>)
           | (e', Err x) \<Rightarrow> Some (s\<lparr>g_engine := Some e'\<rparr>, \<lparr>w_Success = False, w_Error = err_text x\<rparr>)
           | (e', Panic) \<Rightarrow> None))"

text \<open>
  The wait for the write to show up: \<open>seen\<close> are the results of the successive reads until the
  two seconds are over. Without an engine the first read is a nil dereference.
\<close>

fun await_applied :: "bytes \<Rightarrow> (eng_error, bytes) outcome list \<Rightarrow> WriteResponse" where
  "await_applied value [] = \<lparr>w_Success = True, w_Error = []\<rparr>"
| "await_applied value (r # rs) =
     (if r = Ok value then \<lparr>w_Success = True, w_Error = []\<rparr> else await_applied value rs)"

definition grpc_Put ::
  "GRPCServer \<Rightarrow> bytes \<Rightarrow> slice \<Rightarrow> Env \<Rightarrow> (eng_error, bytes) outcome list \<Rightarrow> (eng_error \<Rightarrow> string)
    \<Rightarrow> (GRPCServer \<times> WriteResponse) option" where
  "grpc_Put s key value env seen err_text =
     (case g_raft s of
        None \<Rightarrow> write_direct s (\<lambda>e. engine_Put e key value env) err_text
      | Some n \<Rightarrow>
          if \<not> snd (GetState n) then Some (s, \<lparr>w_Success = False, w_Error = ''not leader''\<rparr>)
          else
            (case Propose n (encodeCommand OpPut key (slice_bytes value)) of
               None \<Rightarrow> None
             | Some (n', idx, _, ok) \<Rightarrow>
                 if \<not> ok \<or> idx = 0
                 then Some (s\<lparr>g_raft := Some n'\<rparr>, \<lparr>w_Success = False, w_Error = ''failed to propose to Raft''\<rparr>)
                 else if g_engine s = None then None
                 else Some (s\<lparr>g_raft := Some n'\<rparr>, await_applied (slice_bytes value) seen)))"

definition grpc_Delete ::
  "GRPCServer \<Rightarrow> bytes \<Rightarrow> Env \<Rightarrow> (eng_error \<Rightarrow> string) \<Rightarrow> (GRPCServer \<times> WriteResponse) option" where
  "grpc_Delete s key env err_text =
     (case g_raft s of
        None \<Rightarrow> write_direct s (\<lambda>e. engine_Delete e key env) err_text
      | Some n \<Rightarrow>
          if \<not> snd (GetState n) then Some (s, \<lparr>w_Success = False, w_Error = ''not leader''\<rparr>)
          else
            (case Propose n (encodeCommand OpDelete key []) of
               None \<Rightarrow> None
             | Some (n', idx, _, ok) \<Rightarrow>
                 if \<not> ok \<or> idx = 0
                 then Some (s\<lparr>g_raft := Some n'\<rparr>, \<lparr>w_Success = False, w_Error = ''failed to propose delete to Raft''\<rparr>)
                 else Some (s\<lparr>g_raft := Some n'\<rparr>, \<lparr>w_Success = True, w_Error = []\<rparr>)))"

definition grpc_Get :: "GRPCServer \<Rightarrow> bytes \<Rightarrow> GetResponse option" where
  "grpc_Get s key =
     (case g_engine s of
        None \<Rightarrow> Some \<lparr>g_Value = None, g_Found = False, g_Error = ''storage engine not ready''\<rparr>
      | Some e \<Rightarrow>
          (case engine_Get e key of
             Ok v \<Rightarrow> Some \<lparr>g_Value = Some v, g_Found = True, g_Error = []\<rparr>
           | Err x \<Rightarrow> Some \<lparr>g_Value = None, g_Found = False, g_Error = []\<rparr>
           | Panic \<Rightarrow> None))"

section \<open>The interface RaftProposer\<close>

text \<open>
  What the service relies on of the node behind the Go interface \<open>RaftProposer\<close>: a node that does not lead
  refuses a proposal and stays as it is; a usable leader accepts it at a positive index, which
  gives the node \<open>appended n d\<close> with the same term and role. \<open>submit\<close> is the common part of \<open>Put\<close> and \<open>Delete\<close>.
\<close>

locale raft_proposer =
  fixes get_state :: "'n \<Rightarrow> nat \<times> bool"
    and propose :: "'n \<Rightarrow> bytes \<Rightarrow> ('n \<times> nat \<times> nat \<times> bool) option"
    and usable :: "'n \<Rightarrow> bool"
    and appended :: "'n \<Rightarrow> bytes \<Rightarrow> 'n"
  assumes refused: "\<not> snd (get_state n) \<Longrightarrow> propose n d = Some (n, 0, 0, False)"
    and accepted: "usable n \<Longrightarrow> snd (get_state n) \<Longrightarrow>
      \<exists>idx. propose n d = Some (appended n d, idx, fst (get_state n), True) \<and> 0 < idx"
    and kept: "get_state (appended n d) = get_state n"
begin

definition submit :: "'n \<Rightarrow> bytes \<Rightarrow> ('n \<times> bool) option" where
  "submit n d =
     (if \<not> snd (get_state n) then Some (n, False)
      else map_option (\<lambda>(n', idx, t, ok). (n', ok \<and> idx \<noteq> 0)) (propose n d))"

lemma submit_ok:
  assumes "usable n"
  shows "submit n d = Some (if snd (get_state n) then appended n d else n, snd (get_state n))"
  using accepted [OF assms, of d] by (cases "snd (get_state n)") (auto simp: submit_def)

lemma submit_keeps_state:
  assumes "usable n" "submit n d = Some (n', b)"
  shows "get_state n' = get_state n \<and> b = snd (get_state n)"
  using submit_ok [OF assms(1), of d] assms(2) kept by (auto split: if_splits)

end

definition log_usable :: "Node \<Rightarrow> bool" where
  "log_usable n \<longleftrightarrow> n_log n \<noteq> [] \<and> l_Index (last (n_log n)) + 1 < 2 ^ 64"

definition log_appended :: "Node \<Rightarrow> bytes \<Rightarrow> Node" where
  "log_appended n d = persistStateLocked (n\<lparr>n_log := n_log n @
     [\<lparr>l_Index = l_Index (last (n_log n)) + 1, l_Term = currentTerm n, l_Data = d\<rparr>]\<rparr>)"

interpretation node: raft_proposer GetState Propose log_usable log_appended
  by unfold_locales
    (auto simp: GetState_def Propose_def log_usable_def log_appended_def lastLogIndexLocked_def Let_def)

lemma await_applied_success: "w_Success (await_applied v seen)"
  by (induction v seen rule: await_applied.induct) auto

lemma grpc_Put_submit:
  assumes "g_raft s = Some n" "g_engine s \<noteq> None" "node.submit n (encodeCommand OpPut key (slice_bytes value)) = Some (n', b)"
  shows "\<exists>resp. grpc_Put s key value env seen err_text = Some (s\<lparr>g_raft := Some n'\<rparr>, resp) \<and> (b = w_Success resp)"
  using assms await_applied_success
  by (auto simp: grpc_Put_def node.submit_def split: if_splits option.splits)

lemma grpc_Delete_submit:
  assumes "g_raft s = Some n" "node.submit n (encodeCommand OpDelete key []) = Some (n', b)"
  shows "\<exists>resp. grpc_Delete s key env err_text = Some (s\<lparr>g_raft := Some n'\<rparr>, resp) \<and> (b = w_Success resp)"
  using assms by (auto simp: grpc_Delete_def node.submit_def split: if_splits option.splits)

section \<open>Lemmas\<close>

lemma encodeCommand_eq: "encodeCommand op k v = EncodeCommand op k v"
  by (simp add: encodeCommand_def EncodeCommand_def le_2 le_4 drop_bit_eq_div)

lemma Connect_distinct:
  "distinct (PeerIDs p) \<Longrightarrow> distinct (PeerIDs (fst (Connect p i a ok)))"
  by (auto simp: Connect_def PeerIDs_def map_of_eq_None_iff)

section \<open>Properties\<close>

text \<open>Property C34. The two command encoders agree: what the service's \<open>encodeCommand\<close> writes byte by byte is
  what the state machine's \<open>EncodeCommand\<close> writes, and the applier decodes it to the same
  engine call, for every key and value whose lengths fit the fields.\<close>

theorem encoders_agree:
  "encodeCommand op k v = EncodeCommand op k v \<and>
   (length k < 65536 \<and> length v < 2 ^ 32 \<longrightarrow>
      applyCommand sm (encodeCommand OpPut k v) env = sm_result sm (engine_Put (storageEngine sm) k (Some v) env) \<and>
      applyCommand sm (encodeCommand OpDelete k v) env = sm_result sm (engine_Delete (storageEngine sm) k env))"
  by (simp add: encodeCommand_eq applyCommand_encoded OpPut_def OpDelete_def)

theorem encoders_agree_witness:
  "applyCommand (NewStateMachine new_engine) (encodeCommand OpPut [107] [1])
      \<lparr>rnd = \<lambda>_. False, wal_fault = NoFault, now = 5, flush_fault = SstNoFault, close_fault = CloseOk\<rparr> =
    sm_result (NewStateMachine new_engine) (engine_Put new_engine [107] (Some [1])
      \<lparr>rnd = \<lambda>_. False, wal_fault = NoFault, now = 5, flush_fault = SstNoFault, close_fault = CloseOk\<rparr>)"
  using encoders_agree [of OpPut "[107]" "[1]" "NewStateMachine new_engine"
      "\<lparr>rnd = \<lambda>_. False, wal_fault = NoFault, now = 5, flush_fault = SstNoFault, close_fault = CloseOk\<rparr>"]
  by (auto simp: NewStateMachine_def)

text \<open>Property C19. Writes reach the log of the leader and nothing else: \<open>Put\<close> and \<open>Delete\<close> of the service return, and answer
  with success exactly if the node leads. Then the node is the old one with one entry appended, of
  the next index, the current term and the command that the state machines decode to this
  write, and with its state saved; otherwise the server is unchanged. In both cases the engine and the rest of
  the server are as before. (The conditions hold for every node that has not taken a snapshot
  of its whole log and has an index left.)\<close>

theorem service_writes_propose:
  assumes "g_raft s = Some n" and "g_engine s \<noteq> None" and "n_log n \<noteq> []" and "l_Index (last (n_log n)) + 1 < 2 ^ 64"
  shows "(\<exists>resp. w_Success resp = (n_role n = Leader) \<and>
      grpc_Put s key value env seen err_text =
        Some (if n_role n = Leader
              then s\<lparr>g_raft := Some (persistStateLocked (n\<lparr>n_log := n_log n @
                [\<lparr>l_Index = l_Index (last (n_log n)) + 1, l_Term = currentTerm n,
                  l_Data = cmd_bytes (CmdPut key (slice_bytes value))\<rparr>]\<rparr>))\<rparr>
              else s, resp)) \<and>
    (\<exists>resp. w_Success resp = (n_role n = Leader) \<and>
      grpc_Delete s key env err_text =
        Some (if n_role n = Leader
              then s\<lparr>g_raft := Some (persistStateLocked (n\<lparr>n_log := n_log n @
                [\<lparr>l_Index = l_Index (last (n_log n)) + 1, l_Term = currentTerm n,
                  l_Data = cmd_bytes (CmdDelete key)\<rparr>]\<rparr>))\<rparr>
              else s, resp))"
proof -
  have u: "log_usable n" "snd (GetState n) \<longleftrightarrow> n_role n = Leader" and s: "s\<lparr>g_raft := Some n\<rparr> = s"
    using assms by (simp_all add: log_usable_def GetState_def)
  have c: "encodeCommand OpPut key (slice_bytes value) = cmd_bytes (CmdPut key (slice_bytes value))"
      "encodeCommand OpDelete key [] = cmd_bytes (CmdDelete key)"
    by (simp_all add: cmd_bytes_def encodeCommand_eq)
  note sub = node.submit_ok [OF u(1)]
  show ?thesis
    using grpc_Put_submit [OF assms(1,2) sub, of key "value" env seen err_text] grpc_Delete_submit [OF assms(1) sub, of key env err_text] s
    unfolding c u(2) log_appended_def by (cases "n_role n = Leader") (auto simp: eq_commute)
qed

theorem service_writes_propose_witness:
  "(\<exists>resp. grpc_Put (NewGRPCServer ''a'' (Some (fresh_node DefaultConfig [''b''] 8 [])) (Some new_engine))
       [107] (Some [1]) \<lparr>rnd = \<lambda>_. False, wal_fault = NoFault, now = 5, flush_fault = SstNoFault, close_fault = CloseOk\<rparr> [] (\<lambda>_. []) =
     Some (NewGRPCServer ''a'' (Some (fresh_node DefaultConfig [''b''] 8 [])) (Some new_engine), resp) \<and> \<not> w_Success resp) \<and>
   (\<exists>s n resp. grpc_Put (NewGRPCServer ''a'' (Some ((fresh_node DefaultConfig [''b''] 8 [])\<lparr>n_role := Leader, currentTerm := 3\<rparr>)) (Some new_engine))
       [107] (Some [1]) \<lparr>rnd = \<lambda>_. False, wal_fault = NoFault, now = 5, flush_fault = SstNoFault, close_fault = CloseOk\<rparr> [] (\<lambda>_. []) =
     Some (s, resp) \<and> w_Success resp \<and> g_engine s = Some new_engine \<and> g_raft s = Some n \<and>
     n_log n = [\<lparr>l_Index = 0, l_Term = 0, l_Data = []\<rparr>, \<lparr>l_Index = 1, l_Term = 3, l_Data = [1, 1, 0, 1, 0, 0, 0, 107, 1]\<rparr>])"
proof
  let ?n = "fresh_node DefaultConfig [''b''] 8 []" and ?env = "\<lparr>rnd = \<lambda>_. False, wal_fault = NoFault, now = 5, flush_fault = SstNoFault, close_fault = CloseOk\<rparr>"
  let ?m = "?n\<lparr>n_role := Leader, currentTerm := 3\<rparr>"
  let ?s = "NewGRPCServer ''a'' (Some ?n) (Some new_engine)" and ?t = "NewGRPCServer ''a'' (Some ?m) (Some new_engine)"
  have s: "g_raft ?s = Some ?n" "g_engine ?s \<noteq> None" "n_log ?n \<noteq> []" "l_Index (last (n_log ?n)) + 1 < 2 ^ 64" "n_role ?n \<noteq> Leader"
    by (simp_all add: fresh_node_def NewGRPCServer_def)
  from service_writes_propose [OF s(1-4), of "[107]" "Some [1]" ?env "[]" "\<lambda>_. []"] s(5)
  show "\<exists>resp. grpc_Put ?s [107] (Some [1]) ?env [] (\<lambda>_. []) = Some (?s, resp) \<and> \<not> w_Success resp"
    by auto
  have t: "g_raft ?t = Some ?m" "g_engine ?t \<noteq> None" "n_log ?m \<noteq> []" "l_Index (last (n_log ?m)) + 1 < 2 ^ 64" "n_role ?m = Leader"
    "n_log ?m = [\<lparr>l_Index = 0, l_Term = 0, l_Data = []\<rparr>]" "g_engine ?t = Some new_engine" "currentTerm ?m = 3"
    "cmd_bytes (CmdPut [107] (slice_bytes (Some [1]))) = [1, 1, 0, 1, 0, 0, 0, 107, 1]"
    by (simp_all add: fresh_node_def NewGRPCServer_def cmd_bytes_def EncodeCommand_def OpPut_def le_2 le_4)
  from service_writes_propose [OF t(1-4), of "[107]" "Some [1]" ?env "[]" "\<lambda>_. []"] t(5-)
  show "\<exists>s n resp. grpc_Put ?t [107] (Some [1]) ?env [] (\<lambda>_. []) = Some (s, resp) \<and> w_Success resp \<and>
     g_engine s = Some new_engine \<and> g_raft s = Some n \<and>
     n_log n = [\<lparr>l_Index = 0, l_Term = 0, l_Data = []\<rparr>, \<lparr>l_Index = 1, l_Term = 3, l_Data = [1, 1, 0, 1, 0, 0, 0, 107, 1]\<rparr>]"
    by auto
qed

text \<open>Property C39. The leader acknowledges a \<open>Put\<close> once it is in its own log: whatever the reads during the two
  seconds show, the response is a success, while the commit index has not moved and the
  engine does not hold the value. A leader that cannot reach a quorum confirms writes that
  may never be committed.\<close>

theorem put_acknowledged_uncommitted:
  assumes "g_raft s = Some n" and "n_role n = Leader" and "n_log n \<noteq> []"
    and "l_Index (last (n_log n)) + 1 < 2 ^ 64" and "g_engine s \<noteq> None"
  shows "\<exists>s' n' resp. grpc_Put s key value env seen err_text = Some (s', resp) \<and> w_Success resp \<and>
    g_raft s' = Some n' \<and> n_log n' = n_log n @ [\<lparr>l_Index = l_Index (last (n_log n)) + 1, l_Term = currentTerm n,
       l_Data = encodeCommand OpPut key (slice_bytes value)\<rparr>] \<and>
    commitIndex n' = commitIndex n \<and> lastApplied n' = lastApplied n \<and> g_engine s' = g_engine s"
  using assms await_applied_success [of "slice_bytes value" seen]
  by (simp add: grpc_Put_def GetState_def Propose_def lastLogIndexLocked_def Let_def)

theorem put_acknowledged_uncommitted_witness:
  "\<exists>s' n' resp. grpc_Put (NewGRPCServer ''a'' (Some ((fresh_node DefaultConfig [''b''] 8 [])\<lparr>n_role := Leader\<rparr>))
       (Some new_engine)) [107] (Some [1])
       \<lparr>rnd = \<lambda>_. False, wal_fault = NoFault, now = 5, flush_fault = SstNoFault, close_fault = CloseOk\<rparr> [Err ErrNotFound] (\<lambda>_. []) = Some (s', resp) \<and>
     w_Success resp \<and> g_raft s' = Some n' \<and> commitIndex n' = 0 \<and> g_engine s' = Some new_engine"
proof -
  let ?n = "(fresh_node DefaultConfig [''b''] 8 [])\<lparr>n_role := Leader\<rparr>"
  let ?s = "NewGRPCServer ''a'' (Some ?n) (Some new_engine)"
  have "g_raft ?s = Some ?n" "n_role ?n = Leader" "n_log ?n \<noteq> []" "l_Index (last (n_log ?n)) + 1 < 2 ^ 64" "g_engine ?s \<noteq> None"
      "commitIndex ?n = 0" "g_engine ?s = Some new_engine"
    by (simp_all add: fresh_node_def NewGRPCServer_def)
  with put_acknowledged_uncommitted [of ?s ?n "[107]" "Some [1]"
      "\<lparr>rnd = \<lambda>_. False, wal_fault = NoFault, now = 5, flush_fault = SstNoFault, close_fault = CloseOk\<rparr>" "[Err ErrNotFound]" "\<lambda>_. []"]
  show ?thesis by fastforce
qed

text \<open>Fact. The pool never holds a peer twice: connecting keeps the peer ids distinct, does not change a
  peer that is already connected, and makes a new one callable at its address; a call to a
  peer that is not connected fails without reaching the stub. The quorum counts rest on
  this.\<close>

theorem pool_connect_contract:
  assumes "distinct (PeerIDs p)"
  shows "distinct (PeerIDs (fst (Connect p i a ok))) \<and>
    (i \<in> set (PeerIDs p) \<longrightarrow> fst (Connect p i a ok) = p) \<and>
    (i \<notin> set (PeerIDs p) \<longrightarrow> ok \<longrightarrow>
       PeerIDs (fst (Connect p i a ok)) = PeerIDs p @ [i] \<and>
       pool_RequestVote (fst (Connect p i a ok)) i (\<lambda>addr timeout req. Ok (addr, timeout, req)) req
         = Ok (a, defaultRPCTimeout, req)) \<and>
    (i \<notin> set (PeerIDs p) \<longrightarrow> pool_RequestVote p i stub req = Err (Inl (UnknownPeer i)))"
proof (cases "map_of (pool_peers p) i")
  case None
  then have "i \<notin> set (PeerIDs p)"
    by (simp add: PeerIDs_def map_of_eq_None_iff)
  with None Connect_distinct [OF assms, of i a ok] show ?thesis
    by (simp add: pool_RequestVote_def pool_call_def getPeer_def Connect_def PeerIDs_def map_add_def)
next
  case (Some addr)
  then have "i \<in> set (PeerIDs p)"
    using map_of_eq_None_iff [of "pool_peers p" i] by (auto simp: PeerIDs_def)
  with Some assms show ?thesis by (simp add: Connect_def)
qed

theorem pool_connect_contract_witness:
  "PeerIDs (fst (Connect (NewPeerPool ''a'') ''b'' '':1'' True)) = [''b'']"
  using pool_connect_contract [of "NewPeerPool ''a''" "''b''" "'':1''" True "()" "\<lambda>_ _ _. Err ()"]
  by (auto simp: NewPeerPool_def PeerIDs_def)

end
