(* ===== verification/Replicas.thy ===== *)
theory Replicas
  imports Delivery RPC
begin

text \<open>
  The replicas as a whole: the cluster of Raft nodes, the apply channels and the state
  machines on their storage engines. State machines that have received the committed
  commands up to the same index answer alike, whatever engine each of them started on;
  and what a client can observe while a restarted node applies its log again.
\<close>

section \<open>Received commands\<close>

lemma received_same:
  assumes "reachable ms c" "(cluster_step ms)\<^sup>*\<^sup>* c c'" "i \<in> set ms" "j \<in> set ms"
    and "map CommandIndex (received c i) = map CommandIndex (received c' j)"
  shows "received c i = received c' j"
proof (rule nth_equalityI)
  show l: "length (received c i) = length (received c' j)"
    using map_eq_imp_length_eq [OF assms(5)] .
  fix q assume q: "q < length (received c i)"
  then have "CommandIndex (received c i ! q) = CommandIndex (received c' j ! q)"
    using l nth_map [of q "received c i" CommandIndex] nth_map [of q "received c' j" CommandIndex] assms(5) by simp
  with q l show "received c i ! q = received c' j ! q"
    by (intro handed_unique [OF assms(1-4)]) simp_all
qed

lemma received_cmd_msg:
  assumes "reachable ms c" "i \<in> set ms" "m \<in> set (received c i)" "Command m = cmd_bytes cmd"
  shows "m = cmd_msg (CommandIndex m) cmd"
  using handed_command [OF assms(1,2), of m] assms(3,4) by (auto simp: cmd_msg_def apply_msg_def)

lemma received_cmd_msgs:
  assumes "reachable ms c" "i \<in> set ms" "map Command (received c i) = map cmd_bytes cmds"
    and "map CommandIndex (received c i) = [1..<Suc p]" "length envs = p"
  shows "zip (received c i) envs = map (\<lambda>(q, cmd, env). (cmd_msg q cmd, env)) (zip [1..<Suc p] (zip cmds envs))"
    (is "?l = ?r")
proof (rule nth_equalityI)
  have len: "length (received c i) = p" "length cmds = p"
    using arg_cong [OF assms(3), of length] arg_cong [OF assms(4), of length] by simp_all
  then show "length ?l = length ?r"
    by (simp add: assms(5) del: upt_Suc)
  fix q assume "q < length ?l"
  then have q: "q < p"
    using len(1) by (simp add: assms(5))
  then have "Command (received c i ! q) = cmd_bytes (cmds ! q)" "CommandIndex (received c i ! q) = Suc q"
    using len nth_map [of q "received c i" Command] nth_map [of q cmds cmd_bytes] assms(3)
      nth_map [of q "received c i" CommandIndex] assms(4) by (simp_all del: upt_Suc)
  then have "received c i ! q = cmd_msg (Suc q) (cmds ! q)"
    using received_cmd_msg [OF assms(1,2), of "received c i ! q" "cmds ! q"] q len by simp
  with q len assms(5) show "?l ! q = ?r ! q"
    by (simp del: upt_Suc)
qed

lemma replica_applies:
  assumes "reachable ms c" "i \<in> set ms" "map Command (received c i) = map cmd_bytes cmds"
    and "map CommandIndex (received c i) = [1..<Suc p]" "length envs = p"
    and "engine_inv e" "eng.good_run e (zip cmds envs)"
  shows "\<exists>sm. runApplier (NewStateMachine e) (zip (received c i) envs) = Some sm \<and> sm_lastApplied sm = p \<and>
    engine_inv (storageEngine sm) \<and>
    (\<forall>k. engine_Get (storageEngine sm) k = eng.cmd_answer (last_command k cmds) (engine_Get e k))"
proof -
  let ?cs = "zip [1..<Suc p] (zip cmds envs)"
  have len: "length cmds = p"
    using arg_cong [OF assms(3), of length] arg_cong [OF assms(4), of length] by simp
  then have cs: "map snd ?cs = zip cmds envs" "map fst ?cs = [1..<Suc p]" "map fst (zip cmds envs) = cmds"
    using assms(5) by (simp_all del: upt_Suc)
  have "sorted_wrt (<) (0 # [1..<Suc p])" and last: "last (0 # [1..<Suc p]) = p"
    by (cases p; simp del: upt_Suc; simp)+
  moreover have sm: "storageEngine (NewStateMachine e) = e" "sm_lastApplied (NewStateMachine e) = 0"
    by (simp_all add: NewStateMachine_def)
  ultimately obtain sm where "runApplier (NewStateMachine e) (zip (received c i) envs) = Some sm"
      "eng.exec e (zip cmds envs) = Some (storageEngine sm)" "sm_lastApplied sm = p"
    using runApplier_exec [of "NewStateMachine e" ?cs, unfolded cs sm last] assms(6,7)
    unfolding received_cmd_msgs [OF assms(1-5)] by blast
  then show ?thesis
    using eng.exec_ok [OF assms(6,7)] cs(3) by auto
qed

section \<open>A restarted state machine\<close>

text \<open>A \<open>Put\<close> that does not flush, on a directory that holds the log only.\<close>

lemma log_only_put:
  assumes "disk e = [(wal_name, f)]" "e_wal e = \<lparr>wal_path = wal_name, file_open = True\<rparr>" "mem_rep (e_mem e) es w"
    and "k \<noteq> []" "length k \<le> 65535" "wal_fault env = NoFault"
    and "sum_list (map entry_bytes (put_entry \<lparr>e_Key = k, e_Value = Some v, e_Op = OpPut\<rparr> es)) + 64 * Suc w < 2 ^ 26"
  shows "\<exists>m. engine_Put e k (Some v) env =
      (e\<lparr>disk := [(wal_name, f @ rec_bytes \<lparr>rec_Op = OpPut, rec_Key = k, rec_Value = Some v\<rparr>)], e_mem := m\<rparr>, Ok ()) \<and>
    mem_rep m (put_entry \<lparr>e_Key = k, e_Value = Some v, e_Op = OpPut\<rparr> es) (Suc w)"
proof -
  obtain m where m: "mem_Put (e_mem e) k (Some v) (rnd env) = Some m"
      "mem_rep m (put_entry \<lparr>e_Key = k, e_Value = Some v, e_Op = OpPut\<rparr> es) (Suc w)"
    using mem_Put_rep [OF assms(3)] by blast
  have "mem_Size m < memTableMaxSize"
    using mem_Size_rep [OF m(2)] assms(7) by (simp add: memTableMaxSize_def)
  with m assms(1,2,4-6) show ?thesis
    by (auto simp: engine_Put_def wal_Append_def maybeFlushLocked_def flush_begin_def rec_bytes_def)
qed

text \<open>Reopening a directory that holds the log only.\<close>

lemma log_only_open:
  assumes "list_all rec_fits rs" "list_all rec_known rs" "list_all (entry_ok \<circ> rec_entry \<circ> rec_read) rs"
    and "sum_list (map entry_bytes (log_entries (map rec_read rs))) + 64 * length rs < 2 ^ 26"
  shows "\<exists>e. engine_Open rnds [(wal_name, concat (map rec_bytes rs))] sound_disk = Ok e \<and> engine_inv e \<and> sstables e = [] \<and>
    (\<forall>k. k \<noteq> [] \<longrightarrow> engine_Get e k = live (last_write (map rec_read rs) k))"
proof -
  let ?d = "[(wal_name, concat (map rec_bytes rs))]" and ?rs = "map rec_read rs"
  have rd: "read_records False (concat (map rec_bytes rs)) = Ok ?rs"
    using read_records_list [OF assms(1), of False "[]"] by simp
  have kn: "filter rec_known ?rs = ?rs"
    using assms(2) by (intro filter_True) (auto simp: list_all_iff rec_known_def rec_read_def)
  have "concat (map rec_bytes ?rs) = concat (map rec_bytes rs)"
    by (simp add: comp_def)
  then have d: "fs_write wal_name (concat (map rec_bytes ?rs)) ?d = ?d" "findSSTableFiles ?d = []"
    by (simp_all add: findSSTableFiles_def)
  obtain mem where mem: "mem_rep mem (log_entries ?rs) (length rs)"
    and op: "engine_Open rnds ?d sound_disk = Ok \<lparr>disk = ?d, e_wal = \<lparr>wal_path = wal_name, file_open = True\<rparr>, e_mem = mem, sstables = [], resultCh = [], ctx_done = False\<rparr>"
      (is "_ = Ok ?e")
    using engine_Open_log [OF _ rd, of ?d rnds] kn d by (auto simp: Let_def)
  have "set (log_entries ?rs) \<subseteq> set (map rec_entry ?rs)"
    unfolding log_entries_def kn using fold_put_subset [of "map rec_entry ?rs" "[]"] by simp
  then have "list_all entry_ok (log_entries ?rs)"
    using assms(3) by (auto simp: list_all_iff)
  then have rep: "engine_rep ?e (log_entries ?rs) (length rs) []"
    using mem by (simp add: engine_rep_def)
  have "engine_inv ?e"
    using rep mem_Size_rep [OF mem] assms(4) by (auto simp: engine_inv_def memTableMaxSize_def)
  moreover have "engine_Get ?e k = live (last_write ?rs k)" if "k \<noteq> []" for k
    using engine_Get_rep [OF rep that] find_log_entries [of k ?rs] by (simp split: option.split)
  ultimately show ?thesis
    using op by (intro exI [of _ ?e]) simp
qed

text \<open>One command, applied.\<close>

lemma apply_put:
  assumes "engine_inv (storageEngine sm)" "quiet (storageEngine sm) env" "plain_key k" "length v \<le> 65535" "sm_lastApplied sm < i"
  shows "\<exists>e. handleApplyMsg sm (cmd_msg i (CmdPut k v)) env = Some (sm\<lparr>storageEngine := e, sm_lastApplied := i\<rparr>) \<and>
    engine_Put (storageEngine sm) k (Some v) env = (e, Ok ()) \<and> engine_inv e \<and> engine_Get e k = Ok v"
proof -
  obtain e where e: "engine_Put (storageEngine sm) k (Some v) env = (e, Ok ())" "engine_inv e" "engine_Get e k = Ok v"
    using eng.put_ok [OF assms(1-3), of v] assms(4) by (auto simp: small_value_def)
  moreover have "applyCommand sm (cmd_bytes (CmdPut k v)) env = (sm\<lparr>storageEngine := e\<rparr>, Ok ())"
    using applyCommand_command [of "CmdPut k v" sm env] assms(3,4) e(1) by (auto simp: sm_result_def plain_key_def cmd_key_def)
  ultimately show ?thesis
    using assms(5) by (auto simp: handleApplyMsg_def cmd_msg_def apply_msg_def)
qed

text \<open>Two values of a key, written to a new directory and read back after a restart.\<close>

lemma two_puts:
  assumes "plain_key k" "length k < 65529" "length v1 \<le> 65535" "length v2 \<le> 65535"
    and "wal_fault env1 = NoFault" "wal_fault env2 = NoFault"
  shows "\<exists>e1 e2. engine_Put new_engine k (Some v1) env1 = (e1, Ok ()) \<and> engine_Put e1 k (Some v2) env2 = (e2, Ok ()) \<and>
    sstables e1 = [] \<and> disk e2 = [(wal_name, concat (map rec_bytes
      [\<lparr>rec_Op = OpPut, rec_Key = k, rec_Value = Some v1\<rparr>, \<lparr>rec_Op = OpPut, rec_Key = k, rec_Value = Some v2\<rparr>]))]"
proof -
  have k: "k \<noteq> []" "length k \<le> 65535"
    using assms(1,2) by (auto simp: plain_key_def)
  have new: "disk new_engine = [(wal_name, [])]" "e_wal new_engine = \<lparr>wal_path = wal_name, file_open = True\<rparr>" "mem_rep (e_mem new_engine) [] 0"
    by (simp_all add: new_engine_def mem_rep_new)
  obtain m1 where p1: "engine_Put new_engine k (Some v1) env1 =
      (new_engine\<lparr>disk := [(wal_name, rec_bytes \<lparr>rec_Op = OpPut, rec_Key = k, rec_Value = Some v1\<rparr>)], e_mem := m1\<rparr>, Ok ())"
      (is "_ = (?e1, _)") and m1: "mem_rep m1 [\<lparr>e_Key = k, e_Value = Some v1, e_Op = OpPut\<rparr>] 1"
    using log_only_put [OF new k, of env1 v1] assms by (auto simp: entry_bytes_def)
  have "disk ?e1 = [(wal_name, rec_bytes \<lparr>rec_Op = OpPut, rec_Key = k, rec_Value = Some v1\<rparr>)]"
      "e_wal ?e1 = \<lparr>wal_path = wal_name, file_open = True\<rparr>" "mem_rep (e_mem ?e1) [\<lparr>e_Key = k, e_Value = Some v1, e_Op = OpPut\<rparr>] 1"
    using m1 by (simp_all add: new_engine_def)
  from log_only_put [OF this k, of env2 v2] p1 assms show ?thesis
    by (auto simp: entry_bytes_def new_engine_def)
qed

lemma two_puts_reopened:
  assumes "plain_key k" "length k < 65529" "v1 \<noteq> []" "v2 \<noteq> []" "length v1 \<le> 65535" "length v2 \<le> 65535"
  shows "\<exists>e. engine_Open rnds [(wal_name, concat (map rec_bytes
      [\<lparr>rec_Op = OpPut, rec_Key = k, rec_Value = Some v1\<rparr>, \<lparr>rec_Op = OpPut, rec_Key = k, rec_Value = Some v2\<rparr>]))] sound_disk = Ok e \<and>
    engine_inv e \<and> sstables e = [] \<and> engine_Get e k = Ok v2"
proof -
  let ?rs = "[\<lparr>rec_Op = OpPut, rec_Key = k, rec_Value = Some v1\<rparr>, \<lparr>rec_Op = OpPut, rec_Key = k, rec_Value = Some v2\<rparr>]"
  let ?x = "\<lparr>e_Key = k, e_Value = Some v2, e_Op = OpPut\<rparr>"
  have r: "map rec_read ?rs = ?rs"
    using assms(3,4) by (auto simp: rec_read_def nil_if_empty_def)
  have "list_all rec_fits ?rs" "list_all rec_known ?rs" "list_all (entry_ok \<circ> rec_entry \<circ> rec_read) ?rs"
    using assms r by (auto simp: rec_fits_def rec_known_def entry_ok_def rec_entry_def OpPut_def OpDelete_def)
  moreover have "log_entries (map rec_read ?rs) = [?x]" "last_write (map rec_read ?rs) k = Some ?x"
    unfolding r by (auto simp: log_entries_def last_write_def rec_known_def rec_entry_def OpPut_def OpDelete_def)
  moreover have "k \<noteq> []"
    using assms(1) by (auto simp: plain_key_def)
  ultimately show ?thesis
    using log_only_open [of ?rs rnds] assms(2,6) by (auto simp: entry_bytes_def live_def OpPut_def OpDelete_def)
qed

section \<open>Properties\<close>

text \<open>Property C2. Replicas agree: if the state machines of two nodes have received the messages with
  the indexes 1 to \<open>p\<close> in this order, at the same or at different times of a run with lost
  messages, leader changes and restarts of nodes, they have received the same messages. When these
  are client commands on plain keys with small values, and each applier works on an engine that
  satisfies \<open>engine_inv\<close>, whose disk works, whose table names are new and which is not
  compacted in between (\<open>good_run\<close>), both appliers carry all of them out. Then every key
  that a command wrote is answered with the last such command by both; a key that no command wrote
  is answered as by the engine before, so alike where the two engines agreed on it.\<close>

theorem replicas_agree:
  assumes "reachable ms c" and "(cluster_step ms)\<^sup>*\<^sup>* c c'" and "i \<in> set ms" and "j \<in> set ms"
    and "map CommandIndex (received c i) = [1..<Suc p]" and "map CommandIndex (received c' j) = [1..<Suc p]"
  shows "received c i = received c' j \<and>
   (\<forall>cmds e envs e' envs'.
     map Command (received c i) = map cmd_bytes cmds \<and>
     engine_inv e \<and> length envs = p \<and> eng.good_run e (zip cmds envs) \<and>
     engine_inv e' \<and> length envs' = p \<and> eng.good_run e' (zip cmds envs') \<longrightarrow>
   (\<exists>sm sm'. runApplier (NewStateMachine e) (zip (received c i) envs) = Some sm \<and>
    runApplier (NewStateMachine e') (zip (received c' j) envs') = Some sm' \<and>
    sm_lastApplied sm = p \<and> sm_lastApplied sm' = p \<and>
    (\<forall>k. engine_Get (storageEngine sm) k =
      (case last_command k cmds of
         None \<Rightarrow> engine_Get e k | Some (CmdPut _ v) \<Rightarrow> Ok v | Some (CmdDelete _) \<Rightarrow> Err ErrNotFound)) \<and>
    (\<forall>k. last_command k cmds \<noteq> None \<or> engine_Get e k = engine_Get e' k \<longrightarrow>
      engine_Get (storageEngine sm) k = engine_Get (storageEngine sm') k)))"
proof (intro conjI allI impI, goal_cases)
  case 1
  then show ?case
    using received_same [OF assms(1-4)] assms(5,6) by simp
next
  case (2 cmds e envs e' envs')
  have same: "received c i = received c' j"
    using received_same [OF assms(1-4)] assms(5,6) by simp
  from 2 have h: "map Command (received c i) = map cmd_bytes cmds" "engine_inv e" "length envs = p"
      "eng.good_run e (zip cmds envs)" "engine_inv e'" "length envs' = p" "eng.good_run e' (zip cmds envs')"
    by blast+
  obtain sm where sm: "runApplier (NewStateMachine e) (zip (received c i) envs) = Some sm" "sm_lastApplied sm = p"
      "\<forall>k. engine_Get (storageEngine sm) k = eng.cmd_answer (last_command k cmds) (engine_Get e k)"
    using replica_applies [OF assms(1,3) h(1) assms(5) h(3,2,4)] by blast
  obtain sm' where sm': "runApplier (NewStateMachine e') (zip (received c' j) envs') = Some sm'" "sm_lastApplied sm' = p"
      "\<forall>k. engine_Get (storageEngine sm') k = eng.cmd_answer (last_command k cmds) (engine_Get e' k)"
    using replica_applies [OF reachable_steps [OF assms(2,1)] assms(4) _ assms(6) h(6,5,7)] h(1) same by auto
  have "eng.cmd_answer (last_command k cmds) (engine_Get e k) = eng.cmd_answer (last_command k cmds) (engine_Get e' k)"
    if "last_command k cmds \<noteq> None \<or> engine_Get e k = engine_Get e' k" for k
    using that by (cases "last_command k cmds") (simp_all add: eng.cmd_answer_def)
  with sm sm' show ?case
    by (intro exI [of _ sm] exI [of _ sm']) (simp add: eng.cmd_answer_def)
qed

theorem replicas_agree_witness:
  "\<exists>c sm sm'. reachable [''a'', ''b''] c \<and>
     runApplier (NewStateMachine new_engine) (zip (received c ''a'')
       [\<lparr>rnd = \<lambda>_. False, wal_fault = NoFault, now = 5, flush_fault = SstNoFault, close_fault = CloseOk\<rparr>]) = Some sm \<and>
     runApplier (NewStateMachine new_engine) (zip (received c ''b'')
       [\<lparr>rnd = \<lambda>_. True, wal_fault = NoFault, now = 9, flush_fault = SstNoFault, close_fault = CloseOk\<rparr>]) = Some sm' \<and>
     engine_Get (storageEngine sm) [110, 97, 109, 101] = Ok [1] \<and>
     engine_Get (storageEngine sm') [110, 97, 109, 101] = Ok [1]"
proof -
  let ?k = "[110, 97, 109, 101] :: bytes"
  let ?cmd = "CmdPut ?k [1]"
  let ?e1 = "\<lparr>rnd = \<lambda>_. False, wal_fault = NoFault, now = 5, flush_fault = SstNoFault, close_fault = CloseOk\<rparr>"
  let ?e2 = "\<lparr>rnd = \<lambda>_. True, wal_fault = NoFault, now = 9, flush_fault = SstNoFault, close_fault = CloseOk\<rparr>"
  obtain c where c: "reachable [''a'', ''b''] c" "received c ''a'' = [apply_msg demo_entry]"
      "received c ''b'' = [apply_msg demo_entry]"
    using demo_received by blast
  have m: "map CommandIndex [apply_msg demo_entry] = [1..<Suc 1]" "map Command [apply_msg demo_entry] = map cmd_bytes [?cmd]"
    by (simp_all add: apply_msg_def demo_entry_def demo_data_def cmd_bytes_def EncodeCommand_def OpPut_def le_2 le_4)
  have g: "eng.good_run new_engine (zip [?cmd] [?e1])" "eng.good_run new_engine (zip [?cmd] [?e2])"
    by (simp_all add: quiet_def plain_key_def small_value_def cmd_key_def new_engine_def)
  have l: "last_command ?k [?cmd] = Some ?cmd" "''a'' \<in> set [''a'', ''b'']" "''b'' \<in> set [''a'', ''b'']"
    by (simp_all add: last_command_def cmd_key_def)
  have a: "\<forall>cmds e envs e' envs'. map Command [apply_msg demo_entry] = map cmd_bytes cmds \<and>
     engine_inv e \<and> length envs = 1 \<and> eng.good_run e (zip cmds envs) \<and>
     engine_inv e' \<and> length envs' = 1 \<and> eng.good_run e' (zip cmds envs') \<longrightarrow>
     (\<exists>sm sm'. runApplier (NewStateMachine e) (zip [apply_msg demo_entry] envs) = Some sm \<and>
       runApplier (NewStateMachine e') (zip [apply_msg demo_entry] envs') = Some sm' \<and>
       (\<forall>k. engine_Get (storageEngine sm) k = (case last_command k cmds of
          None \<Rightarrow> engine_Get e k | Some (CmdPut _ v) \<Rightarrow> Ok v | Some (CmdDelete _) \<Rightarrow> Err ErrNotFound)) \<and>
       (\<forall>k. last_command k cmds \<noteq> None \<or> engine_Get e k = engine_Get e' k \<longrightarrow>
         engine_Get (storageEngine sm) k = engine_Get (storageEngine sm') k))"
    using replicas_agree [OF c(1) rtranclp.rtrancl_refl l(2,3), unfolded c, OF m(1) m(1)] by blast
  from a [rule_format, of "[?cmd]" new_engine "[?e1]" new_engine "[?e2]"] m(2) g new_engine_inv l(1) c
  show ?thesis
    by (auto intro!: exI [of _ c])
qed

text \<open>Property C38. A restarted replica answers with overwritten values: a new state machine starts at index 0 and
  receives the whole committed log again. After the commands \<open>k := v1\<close> and \<open>k := v2\<close> the
  replica answers \<open>v2\<close>, also after a restart of the process; but as soon as the first command is
  applied again it answers \<open>v1\<close>, until the second one follows.\<close>

theorem restart_replays_old_value:
  assumes "plain_key k" and "length k < 65529" and "v1 \<noteq> []" and "v2 \<noteq> []" and "length v1 \<le> 65535" and "length v2 \<le> 65535"
    and "\<forall>env \<in> {env1, env2, env3}. wal_fault env = NoFault \<and> flush_fault env = SstNoFault"
  shows "\<exists>sm e sm'. runApplier (NewStateMachine new_engine)
      [(cmd_msg 1 (CmdPut k v1), env1), (cmd_msg 2 (CmdPut k v2), env2)] = Some sm \<and>
    engine_Get (storageEngine sm) k = Ok v2 \<and>
    engine_Open rnds (disk (storageEngine sm)) sound_disk = Ok e \<and> engine_Get e k = Ok v2 \<and>
    runApplier (NewStateMachine e) [(cmd_msg 1 (CmdPut k v1), env3)] = Some sm' \<and>
    engine_Get (storageEngine sm') k = Ok v1"
proof -
  obtain e1 e2 where p: "engine_Put new_engine k (Some v1) env1 = (e1, Ok ())" "engine_Put e1 k (Some v2) env2 = (e2, Ok ())"
      "sstables e1 = []" and d: "disk e2 = [(wal_name, concat (map rec_bytes
        [\<lparr>rec_Op = OpPut, rec_Key = k, rec_Value = Some v1\<rparr>, \<lparr>rec_Op = OpPut, rec_Key = k, rec_Value = Some v2\<rparr>]))]"
    using two_puts [OF assms(1,2,5,6), of env1 env2] assms(7) by blast
  have q: "quiet e env" if "sstables e = []" "env \<in> {env1, env2, env3}" for e env
    using assms(7) that by (auto simp: quiet_def)
  have h1: "handleApplyMsg (NewStateMachine new_engine) (cmd_msg 1 (CmdPut k v1)) env1 = Some \<lparr>storageEngine = e1, sm_lastApplied = 1\<rparr>"
    and i1: "engine_inv e1"
    using apply_put [of "NewStateMachine new_engine" env1 k v1 1] new_engine_inv q [of new_engine env1] assms(1,5) p(1)
    by (auto simp: NewStateMachine_def new_engine_def)
  have h2: "handleApplyMsg \<lparr>storageEngine = e1, sm_lastApplied = 1\<rparr> (cmd_msg 2 (CmdPut k v2)) env2 = Some \<lparr>storageEngine = e2, sm_lastApplied = 2\<rparr>"
      and g2: "engine_Get e2 k = Ok v2"
    using apply_put [of "\<lparr>storageEngine = e1, sm_lastApplied = 1\<rparr>" env2 k v2 2] i1 q [OF p(3), of env2] assms(1,6) p(2) by auto
  obtain e where e: "engine_Open rnds (disk e2) sound_disk = Ok e" "engine_inv e" "sstables e = []" "engine_Get e k = Ok v2"
    using two_puts_reopened [OF assms(1-6), of rnds] d by auto
  obtain e3 where "handleApplyMsg (NewStateMachine e) (cmd_msg 1 (CmdPut k v1)) env3 = Some \<lparr>storageEngine = e3, sm_lastApplied = 1\<rparr>"
      "engine_Get e3 k = Ok v1"
    using apply_put [of "NewStateMachine e" env3 k v1 1] e(2) q [OF e(3), of env3] assms(1,5) by (auto simp: NewStateMachine_def)
  with h1 h2 g2 e(1,4) show ?thesis
    by auto
qed

theorem restart_replays_old_value_witness:
  "\<exists>sm e sm'. runApplier (NewStateMachine new_engine)
      [(cmd_msg 1 (CmdPut [110, 97, 109, 101] [1]), \<lparr>rnd = \<lambda>_. False, wal_fault = NoFault, now = 5, flush_fault = SstNoFault, close_fault = CloseOk\<rparr>),
       (cmd_msg 2 (CmdPut [110, 97, 109, 101] [2]), \<lparr>rnd = \<lambda>_. False, wal_fault = NoFault, now = 5, flush_fault = SstNoFault, close_fault = CloseOk\<rparr>)] = Some sm \<and>
    engine_Open (\<lambda>_ _. False) (disk (storageEngine sm)) sound_disk = Ok e \<and> engine_Get e [110, 97, 109, 101] = Ok [2] \<and>
    runApplier (NewStateMachine e)
      [(cmd_msg 1 (CmdPut [110, 97, 109, 101] [1]), \<lparr>rnd = \<lambda>_. False, wal_fault = NoFault, now = 5, flush_fault = SstNoFault, close_fault = CloseOk\<rparr>)] = Some sm' \<and>
    engine_Get (storageEngine sm') [110, 97, 109, 101] = Ok [1]"
proof -
  let ?env = "\<lparr>rnd = \<lambda>_. False, wal_fault = NoFault, now = 5, flush_fault = SstNoFault, close_fault = CloseOk\<rparr>"
  have "plain_key [110, 97, 109, 101]" "\<forall>env \<in> {?env, ?env, ?env}. wal_fault env = NoFault \<and> flush_fault env = SstNoFault"
    by (simp_all add: plain_key_def)
  from restart_replays_old_value [OF this(1) _ _ _ _ _ this(2), of "[1]" "[2]" "\<lambda>_ _. False"] show ?thesis
    by auto
qed

end
