(* ===== verification/CatchUp.thy ===== *)
theory CatchUp
  imports CommitSafety
begin

text \<open>
  A follower catches up: \<open>replicateToPeer\<close> (\<open>replication.go\<close>), whole, with the peer that
  answers the call. A rejected request moves \<open>nextIndex\<close> back by one position, so a leader
  that repeats the call reaches a common position after at most \<open>nextIndex\<close> rounds, and then
  the follower's log holds the leader's whole log. This is the progress the heartbeats make
  as long as messages arrive and no other leader is elected.
\<close>

section \<open>Rounds\<close>

text \<open>One call of \<open>replicateToPeer\<close>, with the peer's state before and after.\<close>

definition replicateToPeer :: "Node \<Rightarrow> string \<Rightarrow> nat \<Rightarrow> Node \<Rightarrow> (Node \<times> Node) option" where
  "replicateToPeer n peerID t m =
     (case replicate_request n peerID t of
        None \<Rightarrow> Some (n, m)
      | Some req \<Rightarrow>
          (case HandleAppendEntries m req of
             None \<Rightarrow> None
           | Some (m', resp) \<Rightarrow>
               map_option (\<lambda>n'. (n', m')) (replicate_response n peerID t (ae_Entries req) resp)))"

fun rounds :: "nat \<Rightarrow> Node \<Rightarrow> string \<Rightarrow> nat \<Rightarrow> Node \<Rightarrow> (Node \<times> Node) option" where
  "rounds 0 n p t m = Some (n, m)"
| "rounds (Suc k) n p t m =
     (case replicateToPeer n p t m of None \<Rightarrow> None | Some (n', m') \<Rightarrow> rounds k n' p t m')"

section \<open>One round\<close>

text \<open>What the leader and the follower have in common.\<close>

definition in_touch :: "Node \<Rightarrow> string \<Rightarrow> nat \<Rightarrow> Node \<Rightarrow> bool" where
  "in_touch n p t m \<longleftrightarrow>
     n_role n = Leader \<and> currentTerm n = t \<and> indexed (n_log n) \<and> nextIndex n p \<le> length (n_log n) \<and>
     currentTerm m \<le> t \<and> indexed (n_log m) \<and> l_Term (n_log m ! 0) = l_Term (n_log n ! 0) \<and>
     (\<forall>q. q < length (n_log m) \<and> q < length (n_log n) \<and> l_Term (n_log m ! q) = l_Term (n_log n ! q) \<longrightarrow>
        take (Suc q) (n_log m) = take (Suc q) (n_log n))"

lemma in_touchD:
  assumes "in_touch n p t m"
  shows "n_role n = Leader" "currentTerm n = t" "indexed (n_log n)" "nextIndex n p \<le> length (n_log n)"
    "currentTerm m \<le> t" "indexed (n_log m)" "l_Term (n_log m ! 0) = l_Term (n_log n ! 0)"
    "q < length (n_log m) \<Longrightarrow> q < length (n_log n) \<Longrightarrow> l_Term (n_log m ! q) = l_Term (n_log n ! q) \<Longrightarrow>
       take (Suc q) (n_log m) = take (Suc q) (n_log n)"
  using assms by (auto simp: in_touch_def)

lemma in_touch_request:
  assumes "in_touch n p t m" and x: "x = (if nextIndex n p = 0 then 1 else nextIndex n p)"
  shows "replicate_request n p t = Some \<lparr>ae_Term = t, ae_LeaderId = n_id n, ae_PrevLogIndex = x - 1,
      ae_PrevLogTerm = l_Term (n_log n ! (x - 1)), ae_Entries = drop x (n_log n), ae_LeaderCommit = commitIndex n\<rparr>"
    "0 < x" "x \<le> length (n_log n)"
proof -
  show pos: "0 < x" "x \<le> length (n_log n)"
    using in_touchD(3,4) [OF assms(1)] x by (auto simp: indexed_def Suc_le_eq)
  then have "x - 1 < length (n_log n)"
    by simp
  with pos in_touchD(1,2) [OF assms(1)] show "replicate_request n p t = Some \<lparr>ae_Term = t, ae_LeaderId = n_id n,
      ae_PrevLogIndex = x - 1, ae_PrevLogTerm = l_Term (n_log n ! (x - 1)), ae_Entries = drop x (n_log n),
      ae_LeaderCommit = commitIndex n\<rparr>"
    unfolding replicate_request_def Let_def x [symmetric] by auto
qed

text \<open>What a round leaves of the leader: everything but the entries of the peer and the commit index.\<close>

definition leads_on :: "string \<Rightarrow> Node \<Rightarrow> Node \<Rightarrow> bool" where
  "leads_on p n n' \<longleftrightarrow> n_role n' = n_role n \<and> currentTerm n' = currentTerm n \<and> n_log n' = n_log n \<and>
     n_cfg n' = n_cfg n \<and> peerIDs n' = peerIDs n \<and> commitIndex n \<le> commitIndex n' \<and>
     (\<forall>q. q \<noteq> p \<longrightarrow> nextIndex n' q = nextIndex n q \<and> matchIndex n' q = matchIndex n q)"

text \<open>After the commit rule nothing is left to commit.\<close>

lemma maybeAdvance_settled:
  assumes "indexed (n_log n)" "maybeAdvanceCommitIndexLocked n = Some n'"
  shows "apply_frame (n\<lparr>commitIndex := commitIndex n'\<rparr>) n'" "commitIndex n \<le> commitIndex n'" "\<not> committable n' N"
proof -
  have fin: "finite {N. committable n N}"
    by (rule finite_subset [of _ "{..< length (n_log n)}"]) (auto simp: committable_def)
  obtain m where m: "maybeAdvanceCommitIndexLocked n = Some m" "apply_frame (n\<lparr>commitIndex := commitIndex m\<rparr>) m"
    "if {N. committable n N} = {} then m = n
     else commitIndex m = Max {N. committable n N} \<and> lastApplied m = max (lastApplied n) (commitIndex m)"
    using maybeAdvance_result [OF assms(1)] by blast
  then have mn: "n' = m"
    using assms(2) by simp
  show "apply_frame (n\<lparr>commitIndex := commitIndex n'\<rparr>) n'"
    unfolding mn by (fact m(2))
  have settled: "commitIndex n \<le> commitIndex m \<and> \<not> committable m N"
  proof (cases "{N. committable n N} = {}")
    case True
    with m(3) show ?thesis by auto
  next
    case False
    with m(3) have c: "commitIndex m = Max {N. committable n N}"
      by simp
    with Max_in [OF fin False] have "commitIndex n < commitIndex m"
      by (simp add: committable_def)
    moreover have "committable n N" if "committable m N"
      using that m(2) calculation by (auto simp: committable_def apply_frame_def replicated_def)
    moreover have "\<not> commitIndex m < N" if "committable n N"
      using Max_ge [OF fin, of N] that c by simp
    moreover have "commitIndex m < N" if "committable m N"
      using that by (simp add: committable_def)
    ultimately show ?thesis
      by (meson less_imp_le)
  qed
  from settled show "commitIndex n \<le> commitIndex n'"
    unfolding mn ..
  from settled show "\<not> committable n' N"
    unfolding mn ..
qed

text \<open>The follower that accepts a request takes over its term and its commit index.\<close>

lemma accepting_follower:
  assumes "HandleAppendEntries m req = Some (m', resp)" "ar_Success resp"
  shows "currentTerm m' = ae_Term req" "min (ae_LeaderCommit req) (l_Index (last (n_log m'))) \<le> commitIndex m'"
proof -
  from assms(1) have "currentTerm m' = ae_Term req \<and> min (ae_LeaderCommit req) (l_Index (last (n_log m'))) \<le> commitIndex m'"
  proof (cases rule: HandleAppendEntries_cases)
    case (merged l)
    have "l_Index (last (n_log (merged_node m req))) = l"
      using merged(5) by (auto simp: lastLogIndexLocked_def split: if_splits)
    with merged_frame [OF merged(6)] accepted_term_term [OF merged(1)] show ?thesis
      by (auto simp: apply_frame_def)
  qed (use assms(2) in auto)
  then show "currentTerm m' = ae_Term req" "min (ae_LeaderCommit req) (l_Index (last (n_log m'))) \<le> commitIndex m'"
    by simp_all
qed

text \<open>The leader's side of an accepted request.\<close>

lemma accepted_leader:
  assumes "n_role n = Leader" "currentTerm n = t" "indexed (n_log n)" "0 < x" "x \<le> length (n_log n)"
    and resp: "ar_Success resp" "ar_Term resp \<le> t"
  shows "\<exists>n'. replicate_response n p t (drop x (n_log n)) resp = Some n' \<and> leads_on p n n' \<and>
    (x = length (n_log n) \<longrightarrow> n' = n) \<and>
    (x < length (n_log n) \<longrightarrow> matchIndex n' p = length (n_log n) - 1 \<and> nextIndex n' p = u64 (length (n_log n)) \<and>
       (\<forall>N. \<not> committable n' N))"
proof (cases "x < length (n_log n)")
  case True
  then have l: "l_Index (last (drop x (n_log n))) = length (n_log n) - 1" "drop x (n_log n) \<noteq> []" "length (n_log n) > 0"
    using indexed_last [OF assms(3)] by auto
  let ?n = "n\<lparr>matchIndex := (matchIndex n)(p := length (n_log n) - 1),
      nextIndex := (nextIndex n)(p := u64 (length (n_log n)))\<rparr>"
  have ix: "indexed (n_log ?n)"
    using assms(3) by simp
  obtain n' where n': "maybeAdvanceCommitIndexLocked ?n = Some n'"
    using maybeAdvance_result [OF ix] by blast
  have "replicate_response n p t (drop x (n_log n)) resp = Some n'"
    using assms(1,2) resp l n' by (simp add: replicate_response_def Let_def)
  with maybeAdvance_settled [OF ix n'] True show ?thesis
    by (auto simp: leads_on_def apply_frame_def)
next
  case False
  then have x: "x = length (n_log n)"
    using assms(5) by simp
  then have "replicate_response n p t (drop x (n_log n)) resp = Some n"
    using assms(1,2) resp by (simp add: replicate_response_def)
  with x show ?thesis by (simp add: leads_on_def)
qed

text \<open>A request that meets the follower's log at a common position hands over the whole log.\<close>

lemma round_accepted:
  assumes it: "in_touch n p t m" and x: "x = (if nextIndex n p = 0 then 1 else nextIndex n p)"
    and hit: "x - 1 < length (n_log m)" "l_Term (n_log m ! (x - 1)) = l_Term (n_log n ! (x - 1))"
  shows "\<exists>n' m'. replicateToPeer n p t m = Some (n', m') \<and> leads_on p n n' \<and>
    length (n_log n) \<le> length (n_log m') \<and> take (length (n_log n)) (n_log m') = n_log n \<and>
    currentTerm m' = t \<and> min (commitIndex n) (length (n_log n) - 1) \<le> commitIndex m' \<and>
    (x = length (n_log n) \<longrightarrow> n' = n) \<and>
    (x < length (n_log n) \<longrightarrow> matchIndex n' p = length (n_log n) - 1 \<and> nextIndex n' p = u64 (length (n_log n)) \<and>
       (\<forall>N. \<not> committable n' N))"
proof -
  note rq = in_touch_request [OF it x]
  let ?req = "\<lparr>ae_Term = t, ae_LeaderId = n_id n, ae_PrevLogIndex = x - 1,
      ae_PrevLogTerm = l_Term (n_log n ! (x - 1)), ae_Entries = drop x (n_log n), ae_LeaderCommit = commitIndex n\<rparr>"
  have Sx: "Suc (x - 1) = x"
    using rq(2) by simp
  let ?L = "append_entries x (drop x (n_log n)) (n_log m)"
  have tk: "take (Suc (x - 1)) (n_log m) = take (Suc (x - 1)) (n_log n)"
    using in_touchD(8) [OF it hit(1) _ hit(2)] rq(2,3) by simp
  have "?L = n_log m \<and> length (n_log n) \<le> length (n_log m) \<and> take (length (n_log n)) (n_log m) = take (length (n_log n)) (n_log n) \<or>
      ?L = take (length (n_log n)) (n_log n)"
    using merge_slice [OF hit(1) tk, of "drop x (n_log n)"] in_touchD(8) [OF it] rq(3) unfolding Sx by auto
  then have L: "length (n_log n) \<le> length ?L" "take (length (n_log n)) ?L = n_log n"
    by auto
  have ix: "indexed ?L"
    using in_touchD(3,6) [OF it] rq(2,3) hit(1) by (intro indexed_append_entries) (auto simp: indexed_def)
  then obtain m' resp where m': "HandleAppendEntries m ?req = Some (m', resp)" "ar_Success resp" "ar_Term resp = currentTerm m"
      "n_log m' = ?L"
    using HandleAppendEntries_accepts [of m ?req] in_touchD(5) [OF it] hit Sx by auto
  have "ar_Term resp \<le> t"
    using m'(3) in_touchD(5) [OF it] by simp
  from accepted_leader [OF in_touchD(1,2,3) [OF it] rq(2,3) m'(2) this, of p] obtain n' where n':
    "replicate_response n p t (drop x (n_log n)) resp = Some n'" "leads_on p n n'" "x = length (n_log n) \<longrightarrow> n' = n"
    "x < length (n_log n) \<longrightarrow> matchIndex n' p = length (n_log n) - 1 \<and> nextIndex n' p = u64 (length (n_log n)) \<and>
       (\<forall>N. \<not> committable n' N)"
    by blast
  have "l_Index (last (n_log m')) = length ?L - 1"
    using indexed_last [OF ix] by (simp add: m'(4))
  with L(1) have "min (commitIndex n) (length (n_log n) - 1) \<le> min (commitIndex n) (l_Index (last (n_log m')))"
    by simp
  also have "\<dots> \<le> commitIndex m'"
    using accepting_follower(2) [OF m'(1,2)] by simp
  finally have "min (commitIndex n) (length (n_log n) - 1) \<le> commitIndex m'" .
  moreover have "currentTerm m' = t"
    using accepting_follower(1) [OF m'(1,2)] by simp
  moreover have "replicateToPeer n p t m = Some (n', m')"
    using m'(1) n'(1) by (simp add: replicateToPeer_def rq(1))
  ultimately show ?thesis
    using n'(2,3,4) L by (intro exI [of _ n'] exI [of _ m']) (simp add: m'(4))
qed

text \<open>Otherwise the leader moves back by one position.\<close>

lemma round_rejected:
  assumes it: "in_touch n p t m" and x: "1 < nextIndex n p"
    and miss: "\<not> (nextIndex n p - 1 < length (n_log m) \<and>
      l_Term (n_log m ! (nextIndex n p - 1)) = l_Term (n_log n ! (nextIndex n p - 1)))"
  shows "\<exists>n' m'. replicateToPeer n p t m = Some (n', m') \<and> in_touch n' p t m' \<and> leads_on p n n' \<and>
    nextIndex n' p = nextIndex n p - 1"
proof -
  let ?x = "nextIndex n p"
  have xe: "?x = (if nextIndex n p = 0 then 1 else nextIndex n p)"
    using x by simp
  note rq = in_touch_request [OF it xe]
  let ?req = "\<lparr>ae_Term = t, ae_LeaderId = n_id n, ae_PrevLogIndex = ?x - 1,
      ae_PrevLogTerm = l_Term (n_log n ! (?x - 1)), ae_Entries = drop ?x (n_log n), ae_LeaderCommit = commitIndex n\<rparr>"
  let ?n = "n\<lparr>nextIndex := (nextIndex n)(p := ?x - 1)\<rparr>"
  obtain m' resp where m': "HandleAppendEntries m ?req = Some (m', resp)" "\<not> ar_Success resp" "ar_Term resp = currentTerm m"
    "currentTerm m' = t" "n_log m' = n_log m \<or> n_log m' = take (?x - 1) (n_log m)"
    using miss in_touchD(5) [OF it] accepted_term_term [of m ?req]
    by (cases "?x - 1 < length (n_log m)") (auto simp: HandleAppendEntries_eq)
  have "replicate_response n p t (drop ?x (n_log n)) resp = Some ?n"
    using m'(2,3) in_touchD(1,2,5) [OF it] x by (simp add: replicate_response_def)
  moreover have "in_touch ?n p t m'"
    using m'(5)
  proof
    assume "n_log m' = n_log m"
    with it m'(4) show ?thesis by (auto simp: in_touch_def)
  next
    assume l: "n_log m' = take (?x - 1) (n_log m)"
    have "indexed (n_log m')"
      unfolding l using in_touchD(6) [OF it] x by (intro indexed_take) auto
    moreover have "take (Suc q) (n_log m') = take (Suc q) (n_log n)"
      if "q < length (n_log m')" "q < length (n_log n)" "l_Term (n_log m' ! q) = l_Term (n_log n ! q)" for q
      using in_touchD(8) [OF it, of q] that by (simp add: l take_take min.absorb1)
    moreover have "l_Term (n_log m' ! 0) = l_Term (n_log n ! 0)"
      using in_touchD(7) [OF it] x by (simp add: l)
    ultimately show ?thesis
      using in_touchD(1-4) [OF it] m'(4) by (auto simp: in_touch_def)
  qed
  moreover have "leads_on p n ?n"
    by (simp add: leads_on_def)
  ultimately show ?thesis
    using m'(1) rq(1) by (auto simp: replicateToPeer_def)
qed

lemma rounds_converge:
  assumes "in_touch n p t m"
  shows "\<exists>k n' m'. k \<le> max 1 (nextIndex n p) \<and> rounds k n p t m = Some (n', m') \<and> n_log n' = n_log n \<and>
    length (n_log n) \<le> length (n_log m') \<and> take (length (n_log n)) (n_log m') = n_log n"
  using assms
proof (induction "nextIndex n p" arbitrary: n m rule: less_induct)
  case less
  let ?x = "if nextIndex n p = 0 then 1 else nextIndex n p"
  show ?case
  proof (cases "?x - 1 < length (n_log m) \<and> l_Term (n_log m ! (?x - 1)) = l_Term (n_log n ! (?x - 1))")
    case True
    with round_accepted [OF less.prems refl] obtain n' m' where "replicateToPeer n p t m = Some (n', m')" "leads_on p n n'"
      "length (n_log n) \<le> length (n_log m')" "take (length (n_log n)) (n_log m') = n_log n"
      by blast
    then have "n_log n' = n_log n" "replicateToPeer n p t m = Some (n', m')"
      "length (n_log n) \<le> length (n_log m')" "take (length (n_log n)) (n_log m') = n_log n"
      by (simp_all add: leads_on_def)
    then show ?thesis
      by (intro exI [of _ "Suc 0"]) simp
  next
    case False
    then have x: "1 < nextIndex n p"
      using in_touchD(6,7) [OF less.prems] by (cases "nextIndex n p \<le> 1") (auto simp: indexed_def)
    with False round_rejected [OF less.prems x] obtain n1 m1 where r: "replicateToPeer n p t m = Some (n1, m1)"
      "in_touch n1 p t m1" "n_log n1 = n_log n" "nextIndex n1 p = nextIndex n p - 1"
      by (auto simp: leads_on_def)
    with less.hyps [of n1 m1] x obtain k n' m' where "k \<le> max 1 (nextIndex n p - 1)" "rounds k n1 p t m1 = Some (n', m')"
      "n_log n' = n_log n" "length (n_log n) \<le> length (n_log m')" "take (length (n_log n)) (n_log m') = n_log n"
      by auto
    with r x show ?thesis
      by (intro exI [of _ "Suc k"]) auto
  qed
qed

text \<open>In a reachable state a leader is in touch with every peer whose term is not newer.\<close>

lemma reachable_in_touch:
  assumes "reachable ms c" "i \<in> set ms" "j \<in> set ms" "i \<noteq> j"
    "n_role (node c i) = Leader" "currentTerm (node c j) \<le> currentTerm (node c i)"
  shows "in_touch (node c i) j (currentTerm (node c i)) (node c j)"
proof -
  note base = safe_invD(1) [OF reachable_safe_inv [OF assms(1)]]
  have ok: "node_log_ok c i" "node_log_ok c j"
    using log_invD(1) [OF base_invD(3) [OF base]] assms(2,3) by blast+
  then have good: "good_log c (n_log (node c i))" "good_log c (n_log (node c j))"
    by (simp_all add: node_log_ok_def)
  have "j \<in> set (peerIDs (node c i))"
    using member_fields(5) [OF base_invD(1) [OF base] assms(2)] assms(3,4) by simp
  then have "nextIndex (node c i) j \<le> length (n_log (node c i))"
    using ok(1) assms(5) unfolding node_log_ok_def by blast
  then show ?thesis
    using assms(5,6) good_logD(1,3) [OF good(1)] good_logD(1,3) [OF good(2)] good_logs_match [OF good(2,1)]
    by (simp add: in_touch_def)
qed

section \<open>Properties\<close>

text \<open>Property C14. Replication catches up: in every reachable state, a leader that repeats
  \<open>replicateToPeer\<close> for a peer whose term is not newer reaches, after at most
  \<open>nextIndex\<close> rounds (at least one), a state in which the peer's log starts with the leader's whole
  log. No round panics and the leader's log is not changed.\<close>

theorem replication_catches_up:
  assumes "reachable ms c" and "i \<in> set ms" and "j \<in> set ms" and "i \<noteq> j"
    and "n_role (node c i) = Leader" and "currentTerm (node c j) \<le> currentTerm (node c i)"
  shows "\<exists>k n' m'. k \<le> max 1 (nextIndex (node c i) j) \<and> k \<le> length (n_log (node c i)) \<and>
    rounds k (node c i) j (currentTerm (node c i)) (node c j) = Some (n', m') \<and>
    n_log n' = n_log (node c i) \<and> take (length (n_log n')) (n_log m') = n_log n'"
proof -
  note touch = reachable_in_touch [OF assms]
  have "1 \<le> length (n_log (node c i))"
    using in_touchD(3) [OF touch] by (simp add: indexed_def Suc_le_eq)
  then show ?thesis
    using rounds_converge [OF touch] in_touchD(4) [OF touch] by fastforce
qed

theorem replication_catches_up_witness:
  "\<exists>c k n' m'. reachable [''a'', ''b''] c \<and> n_role (node c ''a'') = Leader \<and>
     rounds k (node c ''a'') ''b'' (currentTerm (node c ''a'')) (node c ''b'') = Some (n', m') \<and>
     take (length (n_log n')) (n_log m') = n_log n'"
proof -
  obtain c where c: "reachable [''a'', ''b''] c" "node c ''a'' = A4" "node c ''b'' = B3"
    using demo_run by blast
  then have l: "n_role (node c ''a'') = Leader" "currentTerm (node c ''b'') \<le> currentTerm (node c ''a'')"
    by (simp_all add: demo_end)
  have "''a'' \<in> set [''a'', ''b'']" "''b'' \<in> set [''a'', ''b'']" "''a'' \<noteq> ''b''"
    by simp_all
  from replication_catches_up [OF c(1) this l] c(1) l(1) show ?thesis
    by metis
qed

end
