(* ===== verification/Timers.thy ===== *)
theory Timers
  imports Snapshot
begin

text \<open>
  The election timer of a node (\<open>node.go\<close>, \<open>election.go\<close>, \<open>replication.go\<close>, \<open>snapshot.go\<close>).
  \<open>electionTimer\<close> is a one-shot timer: \<open>resetElectionTimerLocked\<close> stops the old one and arms
  a new one, and a timer that has fired is gone. \<open>Timed\<close> pairs the node with the fact that a
  timer is armed; every handler is the node's handler together with its calls of
  \<open>resetElectionTimerLocked\<close>. The duration of the timer is bounded, and it is shown which nodes always have a timer and how
  the last one is lost.
\<close>

section \<open>The timer\<close>

record Timed =
  t_node :: Node
  armed :: bool

definition timed :: "Node \<Rightarrow> bool \<Rightarrow> Timed" where
  "timed n a = \<lparr>t_node = n, armed = a\<rparr>"

lemma timed_fields [simp]: "t_node (timed n a) = n" "armed (timed n a) = a"
  by (simp_all add: timed_def)

text \<open>\<open>NewNode\<close> arms no timer; \<open>Start\<close> does, \<open>Stop\<close> cancels it.\<close>

definition node_Start :: "Node \<Rightarrow> Timed" where
  "node_Start n = timed n True"

definition node_Stop :: "Timed \<Rightarrow> Timed" where
  "node_Stop x = x\<lparr>armed := False\<rparr>"

text \<open>The timer fires: a leader returns at once, without a new timer.\<close>

definition timer_fires :: "Timed \<Rightarrow> (Timed \<times> RequestVoteRequest option) option" where
  "timer_fires x =
     (if armed x
      then map_option (\<lambda>(n', req). (timed n' (n_role (t_node x) \<noteq> Leader), req)) (onElectionTimeout (t_node x))
      else Some (x, None))"

definition timed_RequestVote :: "Timed \<Rightarrow> RequestVoteRequest \<Rightarrow> (Timed \<times> RequestVoteResponse) option" where
  "timed_RequestVote x req =
     map_option (\<lambda>(n', resp). (timed n' (armed x \<or> vr_VoteGranted resp), resp)) (HandleRequestVote (t_node x) req)"

definition timed_AppendEntries :: "Timed \<Rightarrow> AppendEntriesRequest \<Rightarrow> (Timed \<times> AppendEntriesResponse) option" where
  "timed_AppendEntries x req =
     map_option (\<lambda>(n', resp). (timed n' (armed x \<or> \<not> ae_Term req < currentTerm (t_node x)), resp))
       (HandleAppendEntries (t_node x) req)"

definition timed_InstallSnapshot ::
  "Timed \<Rightarrow> InstallSnapshotRequest \<Rightarrow> snapshot_fault \<Rightarrow> Timed \<times> InstallSnapshotResponse" where
  "timed_InstallSnapshot x req fault =
     (let (n', resp) = HandleInstallSnapshot (t_node x) req fault
      in (timed n' (armed x \<or> \<not> is_Term req < currentTerm (t_node x)), resp))"

definition timed_vote_response :: "Timed \<Rightarrow> nat \<Rightarrow> RequestVoteResponse \<Rightarrow> Timed \<times> bool" where
  "timed_vote_response x t resp =
     (let (n', granted) = vote_response (t_node x) t resp
      in (timed n' (armed x \<or> vr_Term resp > currentTerm (t_node x)), granted))"

definition timed_replicate_response ::
  "Timed \<Rightarrow> string \<Rightarrow> nat \<Rightarrow> LogEntry list \<Rightarrow> AppendEntriesResponse \<Rightarrow> Timed option" where
  "timed_replicate_response x p t es resp =
     map_option (\<lambda>n'. timed n' (armed x \<or> ar_Term resp > currentTerm (t_node x)))
       (replicate_response (t_node x) p t es resp)"

text \<open>The election result and a proposal do not touch the timer.\<close>

definition timed_startElection :: "Timed \<Rightarrow> nat \<Rightarrow> bool list \<Rightarrow> Timed option" where
  "timed_startElection x t results = map_option (\<lambda>n'. timed n' (armed x)) (startElection (t_node x) t results)"

definition timed_Propose :: "Timed \<Rightarrow> bytes \<Rightarrow> Timed option" where
  "timed_Propose x data = map_option (\<lambda>(n', _). timed n' (armed x)) (Propose (t_node x) data)"

section \<open>Events\<close>

datatype event =
    Fires
  | VoteRequest RequestVoteRequest
  | AppendRequest AppendEntriesRequest
  | SnapshotRequest InstallSnapshotRequest snapshot_fault
  | VoteReply nat RequestVoteResponse
  | AppendReply string nat "LogEntry list" AppendEntriesResponse
  | Votes nat "bool list"
  | Proposal bytes

fun timed_event :: "Timed \<Rightarrow> event \<Rightarrow> Timed option" where
  "timed_event x Fires = map_option fst (timer_fires x)"
| "timed_event x (VoteRequest req) = map_option fst (timed_RequestVote x req)"
| "timed_event x (AppendRequest req) = map_option fst (timed_AppendEntries x req)"
| "timed_event x (SnapshotRequest req ok) = Some (fst (timed_InstallSnapshot x req ok))"
| "timed_event x (VoteReply t resp) = Some (fst (timed_vote_response x t resp))"
| "timed_event x (AppendReply p t es resp) = timed_replicate_response x p t es resp"
| "timed_event x (Votes t results) = timed_startElection x t results"
| "timed_event x (Proposal data) = timed_Propose x data"

fun timed_events :: "Timed \<Rightarrow> event list \<Rightarrow> Timed option" where
  "timed_events x [] = Some x"
| "timed_events x (e # es) = (case timed_event x e of None \<Rightarrow> None | Some y \<Rightarrow> timed_events y es)"

text \<open>A node that does not lead can still start an election by itself.\<close>

definition watchful :: "Timed \<Rightarrow> bool" where
  "watchful x \<longleftrightarrow> n_role (t_node x) \<noteq> Leader \<longrightarrow> armed x"

text \<open>The one event that loses the timer: a leader whose timer has fired steps down for a
  vote request that it refuses.\<close>

definition stale_request :: "Node \<Rightarrow> RequestVoteRequest \<Rightarrow> bool" where
  "stale_request n req \<longleftrightarrow> \<not> log_up_to_date (l_Term (last (n_log n))) (l_Index (last (n_log n))) req"

definition loses_timer :: "Timed \<Rightarrow> event \<Rightarrow> bool" where
  "loses_timer x e \<longleftrightarrow> (\<exists>req. e = VoteRequest req \<and> n_role (t_node x) = Leader \<and> \<not> armed x \<and>
     currentTerm (t_node x) < rv_Term req \<and> stale_request (t_node x) req)"

text \<open>The events that arm a timer that is not running.\<close>

fun arms :: "Node \<Rightarrow> event \<Rightarrow> bool" where
  "arms n (VoteRequest req) =
     (case HandleRequestVote n req of None \<Rightarrow> False | Some (_, resp) \<Rightarrow> vr_VoteGranted resp)"
| "arms n (AppendRequest req) = (currentTerm n \<le> ae_Term req)"
| "arms n (SnapshotRequest req fault) = (currentTerm n \<le> is_Term req)"
| "arms n (VoteReply t resp) = (currentTerm n < vr_Term resp)"
| "arms n (AppendReply p t es resp) = (currentTerm n < ar_Term resp)"
| "arms n _ = False"

text \<open>One of the events of a run arms the timer.\<close>

fun arming :: "Timed \<Rightarrow> event list \<Rightarrow> bool" where
  "arming x [] = False"
| "arming x (e # es) = (arms (t_node x) e \<or> (case timed_event x e of None \<Rightarrow> False | Some y \<Rightarrow> arming y es))"

section \<open>Lemmas\<close>

lemma apply_frame_role: "apply_frame n n' \<Longrightarrow> n_role n' = n_role n"
  by (simp add: apply_frame_def)

lemma AppendEntries_role:
  assumes "HandleAppendEntries n req = Some (n', resp)" "ae_Term req < currentTerm n"
  shows "n' = n"
  using assms by (auto simp: HandleAppendEntries_eq)

lemma replicate_response_role:
  assumes "replicate_response n p t es resp = Some n'" "\<not> ar_Term resp > currentTerm n"
  shows "n_role n' = n_role n"
proof -
  have adv: "n_role m' = n_role m" if "advance_commit m k = Some m'" for m m' k
    using that
  proof (induction k)
    case (Suc k)
    then show ?case
      using applyCommitted_frame [of "m\<lparr>commitIndex := Suc k\<rparr>" m']
      by (auto simp: Let_def apply_frame_def split: if_splits)
  qed simp
  with assms show ?thesis
    by (auto simp: replicate_response_def maybeAdvanceCommitIndexLocked_def Let_def split: if_splits option.splits dest!: adv)
qed

lemma replicate_response_log':
  assumes "replicate_response n p t es resp = Some n'" "n_role n \<noteq> Leader"
  shows "n_log n' = n_log n"
  using assms by (auto simp: replicate_response_def Let_def split: if_splits)

lemma startElection_role:
  "startElection n t bs = Some n' \<Longrightarrow> n_role n' \<noteq> Leader \<Longrightarrow> n' = n"
  by (auto simp: startElection_def elected_def init_leader_def split: option.splits if_splits)

lemma InstallSnapshot_role:
  "is_Term req < currentTerm n \<Longrightarrow> fst (HandleInstallSnapshot n req ok) = n"
  by (simp add: HandleInstallSnapshot_def)

lemma RequestVote_role:
  assumes "HandleRequestVote n req = Some (n', resp)" "n_role n' \<noteq> Leader" "\<not> vr_VoteGranted resp"
  shows "n_role n \<noteq> Leader \<or> currentTerm n < rv_Term req \<and> stale_request n req"
  using assms(1)
proof (cases rule: HandleRequestVote_cases)
  case stale
  then show ?thesis using assms by simp
next
  case refused
  show ?thesis
  proof (cases "currentTerm n < rv_Term req")
    case True
    have "n_log n \<noteq> []"
      using HandleRequestVote_log [OF assms(1)] True by simp
    from HandleRequestVote_eq [OF _ this refl, of req] assms(1) refused(2) True have "stale_request n req"
      by (auto simp: stale_request_def split: if_splits)
    with True show ?thesis by simp
  qed (use refused assms(2) in simp)
next
  case granted
  then show ?thesis using assms(3) by simp
qed

lemma watchful_event:
  assumes "watchful x" "timed_event x e = Some y" "\<not> loses_timer x e"
  shows "watchful y"
proof (cases e)
  case Fires
  with assms(1,2) show ?thesis
    by (auto simp: watchful_def timer_fires_def onElectionTimeout_def Let_def split: if_splits option.splits)
next
  case (VoteRequest req)
  then obtain n' resp where r: "HandleRequestVote (t_node x) req = Some (n', resp)" "y = timed n' (armed x \<or> vr_VoteGranted resp)"
    using assms(2) by (auto simp: timed_RequestVote_def)
  show ?thesis
  proof (cases "vr_VoteGranted resp \<or> n_role n' = Leader")
    case False
    with RequestVote_role [OF r(1)] assms(1,3) VoteRequest r(2) show ?thesis
      by (auto simp: watchful_def loses_timer_def)
  qed (use r in \<open>auto simp: watchful_def\<close>)
next
  case (AppendRequest req)
  with assms(1,2) AppendEntries_role [of "t_node x" req] show ?thesis
    by (auto simp: watchful_def timed_AppendEntries_def)
next
  case (SnapshotRequest req ok)
  with assms(1,2) InstallSnapshot_role [of req "t_node x" ok] show ?thesis
    by (auto simp: watchful_def timed_InstallSnapshot_def split: prod.splits)
next
  case (VoteReply t resp)
  with assms(1,2) show ?thesis
    by (auto simp: watchful_def timed_vote_response_def vote_response_def split: if_splits)
next
  case (AppendReply p t es resp)
  with assms(1,2) replicate_response_role [of "t_node x" p t es resp] show ?thesis
    by (auto simp: watchful_def timed_replicate_response_def)
next
  case (Votes t bs)
  with assms(1,2) startElection_role [of "t_node x" t bs] show ?thesis
    by (auto simp: watchful_def timed_startElection_def)
next
  case (Proposal data)
  with assms(1,2) show ?thesis
    by (auto simp: watchful_def timed_Propose_def Propose_def Let_def split: if_splits option.splits)
qed

lemma timed_events_append:
  "timed_events x (es @ fs) = (case timed_events x es of None \<Rightarrow> None | Some y \<Rightarrow> timed_events y fs)"
  by (induction es arbitrary: x) (auto split: option.splits)

text \<open>Without a timer a follower stays as it is until an event arms the timer.\<close>

lemma deaf_event:
  assumes "n_role (t_node x) = Follower" "\<not> armed x" "timed_event x e = Some y" "\<not> arms (t_node x) e"
  shows "n_role (t_node y) = Follower \<and> \<not> armed y \<and> n_log (t_node y) = n_log (t_node x)"
proof (cases e)
  case Fires
  with assms show ?thesis by (simp add: timer_fires_def)
next
  case (VoteRequest req)
  then obtain n' resp where r: "HandleRequestVote (t_node x) req = Some (n', resp)" "y = timed n' False" "\<not> vr_VoteGranted resp"
    using assms by (auto simp: timed_RequestVote_def)
  from r(1) have "n_role n' = Follower \<and> n_log n' = n_log (t_node x)"
    by (cases rule: HandleRequestVote_cases) (use assms(1) r(3) in auto)
  with r(2) show ?thesis by simp
next
  case (AppendRequest req)
  with assms AppendEntries_role [of "t_node x" req] show ?thesis
    by (auto simp: timed_AppendEntries_def)
next
  case (SnapshotRequest req fault)
  with assms InstallSnapshot_role [of req "t_node x" fault] show ?thesis
    by (auto simp: timed_InstallSnapshot_def split: prod.splits)
next
  case (VoteReply t resp)
  with assms show ?thesis
    by (auto simp: timed_vote_response_def vote_response_def split: if_splits)
next
  case (AppendReply p t es resp)
  with assms replicate_response_role [of "t_node x" p t es resp] replicate_response_log' [of "t_node x" p t es resp] show ?thesis
    by (auto simp: timed_replicate_response_def)
next
  case (Votes t bs)
  with assms show ?thesis
    by (auto simp: timed_startElection_def startElection_def elected_def split: option.splits if_splits)
next
  case (Proposal data)
  with assms show ?thesis
    by (auto simp: timed_Propose_def Propose_def)
qed

lemma deaf_events:
  assumes "n_role (t_node x) = Follower" "\<not> armed x" "timed_events x es = Some y" "\<not> arming x es"
  shows "n_role (t_node y) = Follower \<and> \<not> armed y \<and> n_log (t_node y) = n_log (t_node x)"
  using assms
proof (induction es arbitrary: x)
  case (Cons e es)
  then obtain z where z: "timed_event x e = Some z" "timed_events z es = Some y" "\<not> arms (t_node x) e" "\<not> arming z es"
    by (auto split: option.splits)
  with deaf_event [OF Cons.prems(1,2) z(1,3)] Cons.IH [of z] show ?case by simp
qed simp

lemma stale_votes_handled:
  assumes "n_role (t_node x) = Follower" "\<not> armed x" "n_log (t_node x) \<noteq> []"
    and "\<forall>r \<in> set reqs. rv_LastLogTerm r < l_Term (last (n_log (t_node x)))"
  shows "(\<exists>y. timed_events x (map VoteRequest reqs @ [Fires]) = Some y) \<and> \<not> arming x (map VoteRequest reqs @ [Fires])"
  using assms
proof (induction reqs arbitrary: x)
  case Nil
  then show ?case by (simp add: timer_fires_def)
next
  case (Cons req reqs)
  obtain n' resp where r: "HandleRequestVote (t_node x) req = Some (n', resp)" "\<not> vr_VoteGranted resp"
  proof (cases "rv_Term req < currentTerm (t_node x)")
    case False
    from HandleRequestVote_eq [OF False Cons.prems(3) refl] Cons.prems(4) that show ?thesis
      by (auto simp: log_up_to_date_def)
  qed (use that in \<open>auto simp: HandleRequestVote_def\<close>)
  let ?y = "timed n' False"
  have y: "timed_event x (VoteRequest req) = Some ?y" "\<not> arms (t_node x) (VoteRequest req)"
    using r Cons.prems(2) by (simp_all add: timed_RequestVote_def)
  have "(\<exists>z. timed_events ?y (map VoteRequest reqs @ [Fires]) = Some z) \<and> \<not> arming ?y (map VoteRequest reqs @ [Fires])"
    using deaf_event [OF Cons.prems(1,2) y] Cons.prems(3,4) by (intro Cons.IH) simp_all
  with y show ?case
    by (simp only: list.map append.simps timed_events.simps arming.simps option.case simp_thms)
qed

text \<open>The duration of the timer.\<close>

lemma election_timeout_range:
  assumes "Validate (n_cfg n) = None" and "0 \<le> r" and "r < election_range (n_cfg n)"
  shows "0 < election_range (n_cfg n) \<and> (\<exists>ms. resetElectionTimerLocked n r = Some ms \<and>
    ElectionTimeoutMin (n_cfg n) - Millisecond < ms * Millisecond \<and> ms * Millisecond \<le> ElectionTimeoutMax (n_cfg n))"
proof -
  let ?lo = "ElectionTimeoutMin (n_cfg n)" and ?hi = "ElectionTimeoutMax (n_cfg n)"
  let ?ms = "?lo div Millisecond + r"
  have pos: "0 < Millisecond"
    by (simp add: Millisecond_def)
  have r: "?ms \<le> ?hi div Millisecond"
    using assms(3) by (simp add: election_range_def)
  then have "?ms * Millisecond \<le> ?hi div Millisecond * Millisecond"
    using pos by (simp add: mult_right_mono)
  also have "\<dots> \<le> ?hi"
    using pos by (simp add: minus_mod_eq_div_mult [symmetric])
  finally have hi: "?ms * Millisecond \<le> ?hi" .
  have "?lo - Millisecond < ?lo div Millisecond * Millisecond"
    using pos_mod_bound [OF pos, of ?lo] by (simp add: minus_mod_eq_div_mult [symmetric])
  also have "\<dots> \<le> ?ms * Millisecond"
    using assms(2) pos by (intro mult_right_mono) simp_all
  finally show ?thesis
    using hi assms(2,3) by (auto simp: resetElectionTimerLocked_def)
qed

section \<open>Properties\<close>

text \<open>Property C15. The election timer: a started node that does not lead has an armed timer, and every event keeps
  this, with exactly one exception: a leader whose timer has fired meanwhile steps down for a
  vote request of a newer term that it refuses, and no new timer is armed.\<close>

theorem election_timer_kept:
  assumes "watchful x" and "n_log (t_node x) \<noteq> []" and "timed_event x e = Some y"
  shows "(n_role (t_node y) \<noteq> Leader \<longrightarrow> armed y) \<longleftrightarrow>
    \<not> (\<exists>req. e = VoteRequest req \<and> n_role (t_node x) = Leader \<and> \<not> armed x \<and> currentTerm (t_node x) < rv_Term req \<and>
        \<not> log_up_to_date (l_Term (last (n_log (t_node x)))) (l_Index (last (n_log (t_node x)))) req)"
proof -
  have "\<not> watchful y" if "loses_timer x e"
  proof -
    from that obtain req where r: "e = VoteRequest req" "n_role (t_node x) = Leader" "\<not> armed x"
      "currentTerm (t_node x) < rv_Term req" "stale_request (t_node x) req"
      by (auto simp: loses_timer_def)
    then have "\<not> rv_Term req < currentTerm (t_node x)"
      by simp
    from HandleRequestVote_eq [OF this assms(2) refl] r assms(3) show ?thesis
      by (auto simp: watchful_def timed_RequestVote_def stale_request_def)
  qed
  with watchful_event [OF assms(1,3)] have "watchful y \<longleftrightarrow> \<not> loses_timer x e"
    by blast
  then show ?thesis
    by (simp only: watchful_def loses_timer_def stale_request_def)
qed

theorem election_timer_kept_witness:
  "\<exists>y. timed_event (node_Start (fresh_node DefaultConfig [''b''] 8 [])) Fires = Some y \<and>
     n_role (t_node y) = Candidate \<and> armed y"
proof -
  let ?n = "fresh_node DefaultConfig [''b''] 8 []"
  have n: "n_log ?n \<noteq> []" "n_role ?n = Follower"
    by (simp_all add: fresh_node_def)
  then obtain y where y: "timed_event (node_Start ?n) Fires = Some y" "n_role (t_node y) = Candidate"
    by (auto simp: timer_fires_def node_Start_def onElectionTimeout_def lastLogIndexLocked_def lastLogTermLocked_def Let_def)
  have "watchful (node_Start ?n)" "n_log (t_node (node_Start ?n)) \<noteq> []"
    using n by (simp_all add: watchful_def node_Start_def)
  from election_timer_kept [OF this y(1)] y(2) have "armed y"
    by simp
  with y show ?thesis by blast
qed

text \<open>Property C16. The exception lasts until some other event arms the timer: after its timer has fired, a leader
  that receives a vote request of a newer term from a candidate whose last term is smaller becomes a follower
  without a timer. From then on, whatever arrives, it stays a follower without a timer and with the
  same log, and so never stands itself, as long as none of the events is one that arms the timer: an append or snapshot request
  of its term or a newer one, a vote it grants, or a reply of a newer term. In particular
  it handles any number of vote requests with a smaller last term, refusing them all, and still
  has no timer.\<close>

theorem leader_left_without_timer:
  assumes "n_role (t_node x) = Leader" and "n_log (t_node x) \<noteq> []"
    and "currentTerm (t_node x) < rv_Term req"
    and "rv_LastLogTerm req < l_Term (last (n_log (t_node x)))"
  shows "\<exists>x1. timed_events x [Fires, VoteRequest req] = Some x1 \<and> n_role (t_node x1) = Follower \<and> \<not> armed x1 \<and>
    (\<forall>es y. timed_events x1 es = Some y \<and> \<not> arming x1 es \<longrightarrow>
       n_role (t_node y) = Follower \<and> \<not> armed y \<and> n_log (t_node y) = n_log (t_node x)) \<and>
    (\<forall>reqs. (\<forall>r \<in> set reqs. rv_LastLogTerm r < l_Term (last (n_log (t_node x)))) \<longrightarrow>
       (\<exists>y. timed_events x1 (map VoteRequest reqs @ [Fires]) = Some y) \<and> \<not> arming x1 (map VoteRequest reqs @ [Fires]))"
proof -
  have f: "timed_event x Fires = Some (timed (t_node x) False)"
    using assms(1) by (cases "armed x") (auto simp: timer_fires_def onElectionTimeout_def timed_def)
  define x1 where "x1 = timed (step_down (t_node x) (rv_Term req)) False"
  have nlt: "\<not> rv_Term req < currentTerm (t_node x)"
    using assms(3) by simp
  have v: "timed_event (timed (t_node x) False) (VoteRequest req) = Some x1"
    using HandleRequestVote_eq [OF nlt assms(2) refl] assms(3,4)
    by (simp add: timed_RequestVote_def log_up_to_date_def x1_def)
  have x1: "n_role (t_node x1) = Follower" "\<not> armed x1" "n_log (t_node x1) = n_log (t_node x)"
    by (simp_all add: x1_def)
  have "timed_events x [Fires, VoteRequest req] = Some x1"
    unfolding timed_events.simps f option.case v ..
  moreover have "n_role (t_node y) = Follower \<and> \<not> armed y \<and> n_log (t_node y) = n_log (t_node x)"
    if "timed_events x1 es = Some y" "\<not> arming x1 es" for es y
    using deaf_events [OF x1(1,2) that] x1(3) by simp
  moreover have "(\<exists>y. timed_events x1 (map VoteRequest reqs @ [Fires]) = Some y) \<and> \<not> arming x1 (map VoteRequest reqs @ [Fires])"
    if "\<forall>r \<in> set reqs. rv_LastLogTerm r < l_Term (last (n_log (t_node x)))" for reqs
    using that x1 assms(2) by (intro stale_votes_handled) simp_all
  ultimately show ?thesis
    using x1 by blast
qed

theorem leader_left_without_timer_witness:
  "\<exists>y. timed_events (timed ((fresh_node DefaultConfig [''b''] 8 [])\<lparr>n_role := Leader, currentTerm := 2,
        n_log := [\<lparr>l_Index = 0, l_Term = 0, l_Data = []\<rparr>, \<lparr>l_Index = 1, l_Term = 2, l_Data = [7]\<rparr>]\<rparr>) True)
      [Fires, VoteRequest \<lparr>rv_Term = 3, rv_CandidateId = ''b'', rv_LastLogIndex = 0, rv_LastLogTerm = 0\<rparr>,
       VoteRequest \<lparr>rv_Term = 4, rv_CandidateId = ''b'', rv_LastLogIndex = 0, rv_LastLogTerm = 0\<rparr>, Fires] = Some y \<and>
    n_role (t_node y) = Follower \<and> \<not> armed y"
proof -
  let ?x = "timed ((fresh_node DefaultConfig [''b''] 8 [])\<lparr>n_role := Leader, currentTerm := 2,
        n_log := [\<lparr>l_Index = 0, l_Term = 0, l_Data = []\<rparr>, \<lparr>l_Index = 1, l_Term = 2, l_Data = [7]\<rparr>]\<rparr>) True"
  let ?r = "\<lambda>t. \<lparr>rv_Term = t, rv_CandidateId = ''b'', rv_LastLogIndex = 0, rv_LastLogTerm = 0\<rparr>"
  obtain x1 where x1: "timed_events ?x [Fires, VoteRequest (?r 3)] = Some x1"
      "\<forall>es y. timed_events x1 es = Some y \<and> \<not> arming x1 es \<longrightarrow> n_role (t_node y) = Follower \<and> \<not> armed y"
      "\<forall>reqs. (\<forall>r \<in> set reqs. rv_LastLogTerm r < 2) \<longrightarrow>
        (\<exists>y. timed_events x1 (map VoteRequest reqs @ [Fires]) = Some y) \<and> \<not> arming x1 (map VoteRequest reqs @ [Fires])"
    using leader_left_without_timer [of ?x "?r 3"] by auto
  from x1(3) [rule_format, of "[?r 4]"] obtain y where
    y: "timed_events x1 [VoteRequest (?r 4), Fires] = Some y" "\<not> arming x1 [VoteRequest (?r 4), Fires]"
    by auto
  have "timed_events ?x ([Fires, VoteRequest (?r 3)] @ [VoteRequest (?r 4), Fires]) = Some y"
    by (simp only: timed_events_append x1(1) option.case y(1))
  moreover have "n_role (t_node y) = Follower \<and> \<not> armed y"
    using x1(2) y by blast
  ultimately show ?thesis
    unfolding append.simps by blast
qed

text \<open>Fact. The duration of the timer: for a valid configuration the range given to the random
  generator is positive, so arming a timer never panics, and the timeout in milliseconds lies
  between the configured minimum and maximum, rounded down to milliseconds.\<close>

theorem election_timeout_bounds:
  assumes "Validate (n_cfg n) = None" and "0 \<le> r" and "r < election_range (n_cfg n)"
  shows "0 < election_range (n_cfg n) \<and> (\<exists>ms. resetElectionTimerLocked n r = Some ms \<and>
    ElectionTimeoutMin (n_cfg n) - Millisecond < ms * Millisecond \<and> ms * Millisecond \<le> ElectionTimeoutMax (n_cfg n))"
  using election_timeout_range [OF assms] .

theorem election_timeout_bounds_witness:
  "\<exists>ms. resetElectionTimerLocked (fresh_node (DefaultConfig\<lparr>NodeID := ''n1'', ListenAddr := '':1'', Peers := [''n2''],
      DataDir := ''d''\<rparr>) [''n2''] 8 []) 100 = Some ms \<and> ms * Millisecond \<le> 300 * Millisecond"
  using election_timeout_bounds [of "fresh_node (DefaultConfig\<lparr>NodeID := ''n1'', ListenAddr := '':1'', Peers := [''n2''],
      DataDir := ''d''\<rparr>) [''n2''] 8 []" 100]
  by (auto simp: fresh_node_def election_range_def Validate_def DefaultConfig_def Millisecond_def wrap64_def)

text \<open>Fact. \<open>Stop\<close> does not last: it stops the timer and cancels the context of the event loop, but the handlers do
  not look at the context. A request that is handled after \<open>Stop\<close> and before the service is stopped arms a new timer, and
  the stopped node starts an election.\<close>

theorem stopped_node_stands:
  assumes "HandleAppendEntries (t_node x) req = Some (n', resp)" and "currentTerm (t_node x) \<le> ae_Term req"
    and "n_role n' \<noteq> Leader" and "n_log n' \<noteq> []"
  shows "\<not> armed (node_Stop x) \<and>
    (\<exists>y. timed_events (node_Stop x) [AppendRequest req, Fires] = Some y \<and> n_role (t_node y) = Candidate)"
  using assms by (auto simp: node_Stop_def timed_AppendEntries_def timer_fires_def onElectionTimeout_def
      lastLogIndexLocked_def lastLogTermLocked_def Let_def)

theorem stopped_node_stands_witness:
  "\<exists>y. timed_events (node_Stop (node_Start (fresh_node DefaultConfig [''b''] 8 [])))
      [AppendRequest \<lparr>ae_Term = 1, ae_LeaderId = ''b'', ae_PrevLogIndex = 5, ae_PrevLogTerm = 1, ae_Entries = [], ae_LeaderCommit = 0\<rparr>,
       Fires] = Some y \<and> n_role (t_node y) = Candidate"
proof -
  let ?n = "fresh_node DefaultConfig [''b''] 8 []"
  let ?req = "\<lparr>ae_Term = 1, ae_LeaderId = ''b'', ae_PrevLogIndex = 5, ae_PrevLogTerm = 1, ae_Entries = [], ae_LeaderCommit = 0\<rparr>"
  have n: "n_log ?n = [\<lparr>l_Index = 0, l_Term = 0, l_Data = []\<rparr>]" "currentTerm ?n = 0" "n_role ?n = Follower"
    by (simp_all add: fresh_node_def)
  then have "HandleAppendEntries ?n ?req = Some (step_down ?n 1, \<lparr>ar_Term = 0, ar_Success = False, ar_MatchIndex = 0\<rparr>)"
    by (simp add: HandleAppendEntries_eq accepted_term_def)
  with stopped_node_stands [of "node_Start ?n" ?req] n show ?thesis
    by (simp add: node_Start_def)
qed

end
