(* ===== verification/TimedCluster.thy ===== *)
theory TimedCluster
  imports Timers Cluster
begin

text \<open>
  The cluster with its election timers. A state is a cluster and the set of the members whose timer is armed;
  the steps are those of \<open>Cluster\<close> with the handlers of \<open>Timers\<close>, so that a node stands for
  election only when its own timer fires. Every step is one of \<open>Cluster\<close> or leaves the nodes
  as they are, so the invariants of that theory hold here too; and a step that is possible with the
  timers of all members that do not lead armed, and leaves them so, is a \<open>live_step\<close>.
\<close>

section \<open>The transition system\<close>

type_synonym timers = "string \<Rightarrow> bool"

inductive timed_step :: "string list \<Rightarrow> Cluster \<times> timers \<Rightarrow> Cluster \<times> timers \<Rightarrow> bool" for ms where
  timeout:
    "\<lbrakk>i \<in> set ms; currentTerm (node c i) + 1 < 2 ^ 64; timer_fires (timed (node c i) (a i)) = Some (x, Some req)\<rbrakk>
      \<Longrightarrow> timed_step ms (c, a) ((put_node c i (t_node x))\<lparr>vote_reqs := insert req (vote_reqs c),
            voted := insert (i, currentTerm (t_node x), i, n_log (t_node x)) (voted c)\<rparr>, a(i := armed x))"
| expire:
    "\<lbrakk>i \<in> set ms; timer_fires (timed (node c i) (a i)) = Some (x, None)\<rbrakk>
      \<Longrightarrow> timed_step ms (c, a) (put_node c i (t_node x), a(i := armed x))"
| request_vote:
    "\<lbrakk>req \<in> vote_reqs c; j \<in> set ms; j \<noteq> rv_CandidateId req;
      timed_RequestVote (timed (node c j) (a j)) req = Some (x, resp)\<rbrakk>
      \<Longrightarrow> timed_step ms (c, a) ((put_node c j (t_node x))\<lparr>vote_resps := insert (j, req, resp) (vote_resps c),
            voted := (if vr_VoteGranted resp
              then insert (j, rv_Term req, rv_CandidateId req, n_log (node c j)) (voted c) else voted c)\<rparr>, a(j := armed x))"
| vote_reply:
    "\<lbrakk>(j, req, resp) \<in> vote_resps c; i = rv_CandidateId req; i \<in> set ms; t = rv_Term req;
      j \<notin> fst ` set (ballot c i t); timed_vote_response (timed (node c i) (a i)) t resp = (x, granted)\<rbrakk>
      \<Longrightarrow> timed_step ms (c, a) ((put_node c i (t_node x))\<lparr>ballot :=
            (ballot c)(i := (ballot c i)(t := ballot c i t @ [(j, granted)]))\<rparr>, a(i := armed x))"
| count_votes:
    "\<lbrakk>i \<in> set ms; timed_startElection (timed (node c i) (a i)) t (map snd (ballot c i t)) = Some x\<rbrakk>
      \<Longrightarrow> timed_step ms (c, a) (if n_role (t_node x) = Leader \<and> n_role (node c i) \<noteq> Leader
            then (put_node c i (t_node x))\<lparr>leader := (leader c)(t := Some i), llog := (llog c)(t := n_log (t_node x))\<rparr>
            else put_node c i (t_node x), a(i := armed x))"
| propose:
    "\<lbrakk>i \<in> set ms; length (n_log (node c i)) < 2 ^ 63; n_role (node c i) = Leader;
      timed_Propose (timed (node c i) (a i)) data = Some x\<rbrakk>
      \<Longrightarrow> timed_step ms (c, a) ((put_node c i (t_node x))\<lparr>llog := (llog c)(currentTerm (node c i) := n_log (t_node x))\<rparr>,
            a(i := armed x))"
| replicate:
    "\<lbrakk>i \<in> set ms; p \<in> set (replicateToPeers (node c i) t); replicate_request (node c i) p t = Some req\<rbrakk>
      \<Longrightarrow> timed_step ms (c, a) (c\<lparr>append_reqs := insert (p, req) (append_reqs c)\<rparr>, a)"
| append:
    "\<lbrakk>(j, req) \<in> append_reqs c; j \<in> set ms; timed_AppendEntries (timed (node c j) (a j)) req = Some (x, resp)\<rbrakk>
      \<Longrightarrow> timed_step ms (c, a) ((put_node c j (t_node x))\<lparr>append_resps := insert (j, req, resp) (append_resps c)\<rparr>,
            a(j := armed x))"
| append_reply:
    "\<lbrakk>(j, req, resp) \<in> append_resps c; i = ae_LeaderId req; i \<in> set ms;
      timed_replicate_response (timed (node c i) (a i)) j (ae_Term req) (ae_Entries req) resp = Some x\<rbrakk>
      \<Longrightarrow> timed_step ms (c, a) (put_node c i (t_node x), a(i := armed x))"
| restart:
    "\<lbrakk>i \<in> set ms; node_sized (node c i);
      NewNode (n_cfg (node c i)) (peerIDs (node c i)) (applyCap (node c i)) (n_disk (node c i)) = Ok n'; x = node_Start n'\<rbrakk>
      \<Longrightarrow> timed_step ms (c, a) ((put_node c i (t_node x))\<lparr>received := (received c)(i := [])\<rparr>, a(i := armed x))"
| unblock:
    "\<lbrakk>i \<in> set ms; unblock_apply (node c i) k = Some n'\<rbrakk> \<Longrightarrow> timed_step ms (c, a) (put_node c i n', a)"
| receive:
    "\<lbrakk>i \<in> set ms; receive_apply (node c i) = Some (n', m)\<rbrakk>
      \<Longrightarrow> timed_step ms (c, a) ((put_node c i n')\<lparr>received := (received c)(i := received c i @ [m])\<rparr>, a)"

inductive timed_reachable :: "string list \<Rightarrow> Cluster \<times> timers \<Rightarrow> bool" for ms where
  start: "initial ms c \<Longrightarrow> \<forall>i \<in> set ms. a i = armed (node_Start (node c i)) \<Longrightarrow> timed_reachable ms (c, a)"
| step: "timed_reachable ms s \<Longrightarrow> timed_step ms s s' \<Longrightarrow> timed_reachable ms s'"

section \<open>The timers only restrict the steps\<close>

lemma put_same [simp]: "put_node c i (node c i) = c"
  by (simp add: put_node_def)

lemma timer_fires_None: "timer_fires (timed n b) = Some (x, None) \<Longrightarrow> t_node x = n"
  by (auto simp: timer_fires_def onElectionTimeout_def Let_def split: if_splits option.splits)

lemma timer_fires_Some: "timer_fires (timed n b) = Some (x, Some req) \<Longrightarrow> b \<and> onElectionTimeout n = Some (t_node x, Some req)"
  by (auto simp: timer_fires_def split: if_splits)

lemma timed_step_cluster:
  assumes "timed_step ms s s'"
  shows "cluster_step ms (fst s) (fst s') \<or> fst s' = fst s"
  using assms
proof cases
  case (timeout i c a x req)
  then show ?thesis
    using cluster_step.timeout [OF timeout(3,4)] timer_fires_Some [OF timeout(5)] by auto
next
  case (expire i c a x)
  then show ?thesis
    using timer_fires_None [OF expire(4)] by simp
next
  case (request_vote req c j a x resp)
  from request_vote(6) have "HandleRequestVote (node c j) req = Some (t_node x, resp)"
    by (auto simp: timed_RequestVote_def)
  from cluster_step.request_vote [OF request_vote(3-5) this] request_vote(1,2) show ?thesis by simp
next
  case (vote_reply j req resp c i t a x granted)
  from vote_reply(8) have "vote_response (node c i) t resp = (t_node x, granted)"
    by (auto simp: timed_vote_response_def split: prod.splits)
  from cluster_step.vote_reply [OF vote_reply(3-7) this] vote_reply(1,2) show ?thesis by simp
next
  case (count_votes i c a t x)
  from count_votes(4) have "startElection (node c i) t (map snd (ballot c i t)) = Some (t_node x)"
    by (auto simp: timed_startElection_def)
  from cluster_step.count_votes [OF count_votes(3) this] count_votes(1,2) show ?thesis by simp
next
  case (propose i c a data x)
  from propose(6) obtain idx t ok where p: "Propose (node c i) data = Some (t_node x, idx, t, ok)"
    by (auto simp: timed_Propose_def)
  then have "ok" "t = currentTerm (node c i)"
    using propose(5) by (auto simp: Propose_def Let_def split: option.splits)
  with cluster_step.propose [OF propose(3,4)] p propose(1,2) show ?thesis by simp
next
  case (replicate i p c t req a)
  from cluster_step.replicate [OF replicate(3-5)] replicate(1,2) show ?thesis by simp
next
  case (append j req c a x resp)
  from append(5) have "HandleAppendEntries (node c j) req = Some (t_node x, resp)"
    by (auto simp: timed_AppendEntries_def)
  from cluster_step.append [OF append(3,4) this] append(1,2) show ?thesis by simp
next
  case (append_reply j req resp c i a x)
  from append_reply(6) have "replicate_response (node c i) j (ae_Term req) (ae_Entries req) resp = Some (t_node x)"
    by (auto simp: timed_replicate_response_def)
  from cluster_step.append_reply [OF append_reply(3-5) this] append_reply(1,2) show ?thesis by simp
next
  case (restart i c n' x a)
  from cluster_step.restart [OF restart(3-5)] restart(1,2,6) show ?thesis by (simp add: node_Start_def)
next
  case (unblock i c k n' a)
  from cluster_step.unblock [OF unblock(3,4)] unblock(1,2) show ?thesis by simp
next
  case (receive i c n' m a)
  from cluster_step.receive [OF receive(3,4)] receive(1,2) show ?thesis by simp
qed

lemma timed_reachable_cluster: "timed_reachable ms s \<Longrightarrow> reachable ms (fst s)"
proof (induction rule: timed_reachable.induct)
  case (step s s')
  from timed_step_cluster [OF step.hyps(2)] step.IH show ?case
    by (auto intro: reachable.step)
qed (auto intro: reachable.start)

section \<open>Steps that keep the timers\<close>

text \<open>Every member that does not lead can stand for election by itself.\<close>

definition watched :: "string list \<Rightarrow> Cluster \<Rightarrow> timers \<Rightarrow> bool" where
  "watched ms c a \<longleftrightarrow> (\<forall>i \<in> set ms. watchful (timed (node c i) (a i)))"

definition live_step :: "string list \<Rightarrow> Cluster \<Rightarrow> Cluster \<Rightarrow> bool" where
  "live_step ms c c' \<longleftrightarrow> (\<forall>a. watched ms c a \<longrightarrow> (\<exists>a'. timed_step ms (c, a) (c', a') \<and> watched ms c' a'))"

lemma live_steps_timed:
  assumes "(live_step ms)\<^sup>*\<^sup>* c c'" "watched ms c a"
  shows "\<exists>a'. (timed_step ms)\<^sup>*\<^sup>* (c, a) (c', a') \<and> watched ms c' a'"
  using assms
proof (induction rule: rtranclp_induct)
  case (step d d')
  then obtain b where b: "(timed_step ms)\<^sup>*\<^sup>* (c, a) (d, b)" "watched ms d b"
    by blast
  with step.hyps(2) obtain b' where "timed_step ms (d, b) (d', b')" "watched ms d' b'"
    unfolding live_step_def by blast
  with b(1) show ?case
    by (meson rtranclp.rtrancl_into_rtrancl)
qed blast

lemma live_step_cluster:
  assumes "live_step ms c c'"
  shows "(cluster_step ms)\<^sup>*\<^sup>* c c'"
proof -
  have "watched ms c (\<lambda>_. True)"
    by (simp add: watched_def watchful_def)
  with assms obtain a' where "timed_step ms (c, \<lambda>_. True) (c', a')"
    unfolding live_step_def by blast
  from timed_step_cluster [OF this] show ?thesis
    by auto
qed

lemma live_steps_cluster: "(live_step ms)\<^sup>*\<^sup>* c c' \<Longrightarrow> (cluster_step ms)\<^sup>*\<^sup>* c c'"
  by (induction rule: rtranclp_induct) (auto dest: live_step_cluster intro: rtranclp_trans)

text \<open>All steps keep the timers, except for the one of \<open>loses_timer\<close>: a leader without a timer steps down for
  a vote request that it refuses.\<close>

lemma watched_update:
  assumes "watched ms c a" "watchful (timed (node c' i) b)" "\<And>j. j \<noteq> i \<Longrightarrow> node c' j = node c j"
  shows "watched ms c' (a(i := b))"
  unfolding watched_def
proof
  fix j assume "j \<in> set ms"
  with assms show "watchful (timed (node c' j) ((a(i := b)) j))"
    by (cases "j = i") (simp_all add: watched_def)
qed

lemma watched_event:
  assumes "watched ms c a" "i \<in> set ms" "timed_event (timed (node c i) (a i)) e = Some x"
    and "\<not> loses_timer (timed (node c i) (a i)) e" "node c' = (node c)(i := t_node x)"
  shows "watched ms c' (a(i := armed x))"
proof (rule watched_update [OF assms(1)])
  have "watchful (timed (node c i) (a i))"
    using assms(1,2) by (simp add: watched_def)
  from watchful_event [OF this assms(3,4)] assms(5) show "watchful (timed (node c' i) (armed x))"
    by (simp add: watchful_def)
qed (simp add: assms(5))

text \<open>A step of one member is live if it is possible and keeps that member's timer.\<close>

lemma live_stepI:
  assumes "\<And>a. watchful (timed (node c i) (a i)) \<Longrightarrow>
      timed_step ms (c, a) (c', a(i := b (a i))) \<and> watchful (timed (node c' i) (b (a i)))"
    and "i \<in> set ms" and "\<And>j. j \<noteq> i \<Longrightarrow> node c' j = node c j"
  shows "live_step ms c c'"
  unfolding live_step_def
proof (intro allI impI)
  fix a assume w: "watched ms c a"
  then have "watchful (timed (node c i) (a i))"
    using assms(2) by (simp add: watched_def)
  note x = assms(1) [of a, OF this]
  have "watchful (timed (node c' j) ((a(i := b (a i))) j))" if "j \<in> set ms" for j
    using that w x assms(3) [of j] by (cases "j = i") (simp_all add: watched_def)
  with x show "\<exists>a'. timed_step ms (c, a) (c', a') \<and> watched ms c' a'"
    unfolding watched_def by blast
qed

lemma live_timeout:
  assumes "i \<in> set ms" "currentTerm (node c i) + 1 < 2 ^ 64" "onElectionTimeout (node c i) = Some (n', Some req)"
  shows "live_step ms c ((put_node c i n')\<lparr>vote_reqs := insert req (vote_reqs c),
            voted := insert (i, currentTerm n', i, n_log n') (voted c)\<rparr>)"
    (is "live_step ms c ?c'")
proof (rule live_stepI [where b = "\<lambda>_. True", OF _ assms(1)])
  fix a assume w: "watchful (timed (node c i) (a i))"
  let ?x = "timed n' ((\<lambda>_. True) (a i))"
  have "n_role (node c i) \<noteq> Leader"
    using onElectionTimeout_Some [OF assms(3,2)] by simp
  then have r: "timer_fires (timed (node c i) (a i)) = Some (?x, Some req)"
    using assms(3) w by (simp add: timer_fires_def watchful_def)
  have "watchful ?x"
    by (simp add: watchful_def)
  moreover from timed_step.timeout [where a = a and x = ?x, OF assms(1,2)] r
  have "timed_step ms (c, a) (?c', a(i := (\<lambda>_. True) (a i)))"
    by simp
  ultimately show "timed_step ms (c, a) (?c', a(i := (\<lambda>_. True) (a i))) \<and> watchful (timed (node ?c' i) ((\<lambda>_. True) (a i)))"
    by simp
qed auto

lemma live_request_vote:
  assumes "req \<in> vote_reqs c" "j \<in> set ms" "j \<noteq> rv_CandidateId req" "HandleRequestVote (node c j) req = Some (n', resp)"
    and "vr_VoteGranted resp \<or> n_role (node c j) \<noteq> Leader"
  shows "live_step ms c ((put_node c j n')\<lparr>vote_resps := insert (j, req, resp) (vote_resps c),
            voted := (if vr_VoteGranted resp
              then insert (j, rv_Term req, rv_CandidateId req, n_log (node c j)) (voted c) else voted c)\<rparr>)"
    (is "live_step ms c ?c'")
proof (rule live_stepI [where b = "\<lambda>b. b \<or> vr_VoteGranted resp", OF _ assms(2)])
  fix a assume w: "watchful (timed (node c j) (a j))"
  let ?x = "timed n' ((\<lambda>b. b \<or> vr_VoteGranted resp) (a j))"
  have r: "timed_RequestVote (timed (node c j) (a j)) req = Some (?x, resp)"
    using assms(4) by (simp add: timed_RequestVote_def)
  have "watchful ?x"
    using w assms(5) by (auto simp: watchful_def)
  moreover from timed_step.request_vote [where a = a and x = ?x, OF assms(1-3)] r
  have "timed_step ms (c, a) (?c', a(j := (\<lambda>b. b \<or> vr_VoteGranted resp) (a j)))"
    by simp
  ultimately show "timed_step ms (c, a) (?c', a(j := (\<lambda>b. b \<or> vr_VoteGranted resp) (a j))) \<and> watchful (timed (node ?c' j) ((\<lambda>b. b \<or> vr_VoteGranted resp) (a j)))"
    by simp
qed auto

lemma live_vote_reply:
  assumes "(j, req, resp) \<in> vote_resps c" "i = rv_CandidateId req" "i \<in> set ms" "t = rv_Term req"
    "j \<notin> fst ` set (ballot c i t)" "vote_response (node c i) t resp = (n', granted)"
  shows "live_step ms c ((put_node c i n')\<lparr>ballot := (ballot c)(i := (ballot c i)(t := ballot c i t @ [(j, granted)]))\<rparr>)"
    (is "live_step ms c ?c'")
proof (rule live_stepI [where b = "\<lambda>b. b \<or> vr_Term resp > currentTerm (node c i)", OF _ assms(3)])
  fix a assume w: "watchful (timed (node c i) (a i))"
  let ?x = "timed n' ((\<lambda>b. b \<or> vr_Term resp > currentTerm (node c i)) (a i))"
  have r: "timed_vote_response (timed (node c i) (a i)) t resp = (?x, granted)"
    using assms(6) by (simp add: timed_vote_response_def)
  have "watchful ?x"
    using watchful_event [OF w, of "VoteReply t resp" ?x] r by (simp add: loses_timer_def)
  moreover from timed_step.vote_reply [where a = a and x = ?x, OF assms(1-5)] r
  have "timed_step ms (c, a) (?c', a(i := (\<lambda>b. b \<or> vr_Term resp > currentTerm (node c i)) (a i)))"
    by simp
  ultimately show "timed_step ms (c, a) (?c', a(i := (\<lambda>b. b \<or> vr_Term resp > currentTerm (node c i)) (a i))) \<and> watchful (timed (node ?c' i) ((\<lambda>b. b \<or> vr_Term resp > currentTerm (node c i)) (a i)))"
    by simp
qed auto

lemma live_count_votes:
  assumes "i \<in> set ms" "startElection (node c i) t (map snd (ballot c i t)) = Some n'"
  shows "live_step ms c (if n_role n' = Leader \<and> n_role (node c i) \<noteq> Leader
            then (put_node c i n')\<lparr>leader := (leader c)(t := Some i), llog := (llog c)(t := n_log n')\<rparr>
            else put_node c i n')"
    (is "live_step ms c ?c'")
proof (rule live_stepI [where b = "\<lambda>b. b", OF _ assms(1)])
  fix a assume w: "watchful (timed (node c i) (a i))"
  let ?x = "timed n' ((\<lambda>b. b) (a i))"
  have r: "timed_startElection (timed (node c i) (a i)) t (map snd (ballot c i t)) = Some ?x"
    using assms(2) by (simp add: timed_startElection_def)
  have "watchful ?x"
    using watchful_event [OF w, of "Votes t (map snd (ballot c i t))" ?x] r by (simp add: loses_timer_def)
  moreover from timed_step.count_votes [where a = a and x = ?x and c = c and t = t, OF assms(1) r]
  have "timed_step ms (c, a) (?c', a(i := (\<lambda>b. b) (a i)))"
    unfolding timed_fields .
  ultimately show "timed_step ms (c, a) (?c', a(i := (\<lambda>b. b) (a i))) \<and> watchful (timed (node ?c' i) ((\<lambda>b. b) (a i)))"
    by simp
qed auto

lemma live_propose:
  assumes "i \<in> set ms" "length (n_log (node c i)) < 2 ^ 63" "Propose (node c i) data = Some (n', idx, t, True)"
  shows "live_step ms c ((put_node c i n')\<lparr>llog := (llog c)(t := n_log n')\<rparr>)"
    (is "live_step ms c ?c'")
proof (rule live_stepI [where b = "\<lambda>b. b", OF _ assms(1)])
  fix a assume w: "watchful (timed (node c i) (a i))"
  let ?x = "timed n' ((\<lambda>b. b) (a i))"
  have p: "n_role (node c i) = Leader" "t = currentTerm (node c i)"
    using Propose_Some [OF assms(3)] by simp_all
  have r: "timed_Propose (timed (node c i) (a i)) data = Some ?x"
    using assms(3) by (simp add: timed_Propose_def)
  have "watchful ?x"
    using watchful_event [OF w, of "Proposal data" ?x] r by (simp add: loses_timer_def)
  moreover from timed_step.propose [where a = a and x = ?x, OF assms(1,2) p(1)] r
  have "timed_step ms (c, a) (?c', a(i := (\<lambda>b. b) (a i)))"
    by (simp add: p(2))
  ultimately show "timed_step ms (c, a) (?c', a(i := (\<lambda>b. b) (a i))) \<and> watchful (timed (node ?c' i) ((\<lambda>b. b) (a i)))"
    by simp
qed auto

lemma live_replicate:
  assumes "i \<in> set ms" "p \<in> set (replicateToPeers (node c i) t)" "replicate_request (node c i) p t = Some req"
  shows "live_step ms c (c\<lparr>append_reqs := insert (p, req) (append_reqs c)\<rparr>)"
  unfolding live_step_def
proof (intro allI impI)
  fix a assume "watched ms c a"
  with timed_step.replicate [OF assms, of a]
  show "\<exists>a'. timed_step ms (c, a) (c\<lparr>append_reqs := insert (p, req) (append_reqs c)\<rparr>, a') \<and>
      watched ms (c\<lparr>append_reqs := insert (p, req) (append_reqs c)\<rparr>) a'"
    by (intro exI [of _ a]) (simp add: watched_def)
qed

lemma live_append:
  assumes "(j, req) \<in> append_reqs c" "j \<in> set ms" "HandleAppendEntries (node c j) req = Some (n', resp)"
  shows "live_step ms c ((put_node c j n')\<lparr>append_resps := insert (j, req, resp) (append_resps c)\<rparr>)"
    (is "live_step ms c ?c'")
proof (rule live_stepI [where b = "\<lambda>b. b \<or> \<not> ae_Term req < currentTerm (node c j)", OF _ assms(2)])
  fix a assume w: "watchful (timed (node c j) (a j))"
  let ?x = "timed n' ((\<lambda>b. b \<or> \<not> ae_Term req < currentTerm (node c j)) (a j))"
  have r: "timed_AppendEntries (timed (node c j) (a j)) req = Some (?x, resp)"
    using assms(3) by (simp add: timed_AppendEntries_def)
  have "watchful ?x"
    using watchful_event [OF w, of "AppendRequest req" ?x] r by (simp add: loses_timer_def)
  moreover from timed_step.append [where a = a and x = ?x, OF assms(1,2)] r
  have "timed_step ms (c, a) (?c', a(j := (\<lambda>b. b \<or> \<not> ae_Term req < currentTerm (node c j)) (a j)))"
    by simp
  ultimately show "timed_step ms (c, a) (?c', a(j := (\<lambda>b. b \<or> \<not> ae_Term req < currentTerm (node c j)) (a j))) \<and> watchful (timed (node ?c' j) ((\<lambda>b. b \<or> \<not> ae_Term req < currentTerm (node c j)) (a j)))"
    by simp
qed auto

lemma live_append_reply:
  assumes "(j, req, resp) \<in> append_resps c" "i = ae_LeaderId req" "i \<in> set ms"
    "replicate_response (node c i) j (ae_Term req) (ae_Entries req) resp = Some n'"
  shows "live_step ms c (put_node c i n')"
    (is "live_step ms c ?c'")
proof (rule live_stepI [where b = "\<lambda>b. b \<or> ar_Term resp > currentTerm (node c i)", OF _ assms(3)])
  fix a assume w: "watchful (timed (node c i) (a i))"
  let ?x = "timed n' ((\<lambda>b. b \<or> ar_Term resp > currentTerm (node c i)) (a i))"
  have r: "timed_replicate_response (timed (node c i) (a i)) j (ae_Term req) (ae_Entries req) resp = Some ?x"
    using assms(4) by (simp add: timed_replicate_response_def)
  have "watchful ?x"
    using watchful_event [OF w, of "AppendReply j (ae_Term req) (ae_Entries req) resp" ?x] r by (simp add: loses_timer_def)
  moreover from timed_step.append_reply [where a = a and x = ?x, OF assms(1-3)] r
  have "timed_step ms (c, a) (?c', a(i := (\<lambda>b. b \<or> ar_Term resp > currentTerm (node c i)) (a i)))"
    by simp
  ultimately show "timed_step ms (c, a) (?c', a(i := (\<lambda>b. b \<or> ar_Term resp > currentTerm (node c i)) (a i))) \<and> watchful (timed (node ?c' i) ((\<lambda>b. b \<or> ar_Term resp > currentTerm (node c i)) (a i)))"
    by simp
qed auto

section \<open>Properties\<close>

text \<open>Fact. In the cluster every step keeps the timers of the members that do not lead, except when a leader
  whose timer has fired refuses a vote request of a newer term.\<close>

theorem cluster_keeps_timers:
  assumes "timed_step ms (c, a) (c', a')" and "\<forall>i \<in> set ms. n_role (node c i) \<noteq> Leader \<longrightarrow> a i"
    and "\<not> (\<exists>j \<in> set ms. \<exists>req \<in> vote_reqs c. n_role (node c j) = Leader \<and> \<not> a j \<and> currentTerm (node c j) < rv_Term req \<and>
      \<not> log_up_to_date (l_Term (last (n_log (node c j)))) (l_Index (last (n_log (node c j)))) req)"
  shows "\<forall>i \<in> set ms. n_role (node c' i) \<noteq> Leader \<longrightarrow> a' i"
proof -
  have w: "watched ms c a"
    using assms(2) by (simp add: watched_def watchful_def)
  have nl: "\<not> loses_timer x e" if "\<forall>req. e \<noteq> VoteRequest req" for x e
    using that by (simp add: loses_timer_def)
  from assms(1) have "watched ms c' a'"
  proof cases
    case (timeout i x req)
    with watched_event [OF w timeout(3), of Fires x c'] show ?thesis
      by (simp add: nl)
  next
    case (expire i x)
    with watched_event [OF w expire(3), of Fires x c'] show ?thesis
      by (simp add: nl)
  next
    case (request_vote req j x resp)
    then have "\<not> loses_timer (timed (node c j) (a j)) (VoteRequest req)"
      using assms(3) by (auto simp: loses_timer_def stale_request_def)
    with request_vote watched_event [OF w request_vote(4), of "VoteRequest req" x c'] show ?thesis
      by simp
  next
    case (vote_reply j req resp i t x granted)
    with watched_event [OF w vote_reply(5), of "VoteReply t resp" x c'] show ?thesis
      by (simp add: nl)
  next
    case (count_votes i t x)
    with watched_event [OF w count_votes(3), of "Votes t (map snd (ballot c i t))" x c'] show ?thesis
      by (simp add: nl)
  next
    case (propose i data x)
    with watched_event [OF w propose(3), of "Proposal data" x c'] show ?thesis
      by (simp add: nl)
  next
    case (replicate i p t req)
    with w show ?thesis by (simp add: watched_def)
  next
    case (append j req x resp)
    with watched_event [OF w append(4), of "AppendRequest req" x c'] show ?thesis
      by (simp add: nl)
  next
    case (append_reply j req resp i x)
    with watched_event [OF w append_reply(5), of "AppendReply j (ae_Term req) (ae_Entries req) resp" x c'] show ?thesis
      by (simp add: nl)
  next
    case (restart i n' x)
    with watched_update [OF w, of c' i True] show ?thesis
      by (simp add: watchful_def node_Start_def)
  next
    case (unblock i k n')
    then have "watchful (timed (node c' i) (a i))"
      using w unblock_frame(1) [OF unblock(4)] by (simp add: watched_def watchful_def apply_frame_def)
    with unblock watched_update [OF w, of c' i "a i"] show ?thesis by simp
  next
    case (receive i n' m)
    then have "watchful (timed (node c' i) (a i))"
      using w receive_frame(1) [OF receive(4)] by (simp add: watched_def watchful_def apply_frame_def)
    with receive watched_update [OF w, of c' i "a i"] show ?thesis by simp
  qed
  then show ?thesis
    by (simp add: watched_def watchful_def)
qed

end
