(* ===== verification/Progress.thy ===== *)
theory Progress
  imports CatchUp TimedCluster
begin

text \<open>
  A reachable state of a cluster in which the members that do not lead have their election timers armed is no dead
  end. Whatever messages were lost
  and whatever leaders were deposed before, there is a continuation of the run of live steps (\<open>TimedCluster\<close>) in which the
  member with the most up-to-date log is elected (\<open>election.go\<close>), a command proposed to it
  (\<open>node.go\<close>) reaches every member (\<open>replication.go\<close>), and all of them commit it. The
  continuation is put together from the lemmas on one vote, one round and one peer.
\<close>

section \<open>The votes\<close>

text \<open>A ballot holds results of terms that the candidate has reached only.\<close>

lemma step_ballots:
  assumes step: "cluster_step ms c c'" and base: "base_inv ms c"
    and resps: "\<And>j req resp. (j, req, resp) \<in> vote_resps c \<Longrightarrow> req \<in> vote_reqs c"
    and old: "\<And>i t. ballot c i t \<noteq> [] \<Longrightarrow> t \<le> currentTerm (node c i)"
  shows "(j, req, resp) \<in> vote_resps c' \<Longrightarrow> req \<in> vote_reqs c'"
    and "ballot c' i t \<noteq> [] \<Longrightarrow> t \<le> currentTerm (node c' i)"
proof -
  show "req \<in> vote_reqs c'" if "(j, req, resp) \<in> vote_resps c'"
    using step that resps by cases (auto split: if_splits)
  have keep: "ballot c' i t = ballot c i t \<or> t \<le> currentTerm (node c i)"
    using step
  proof cases
    case (vote_reply j req resp k n' granted)
    then show ?thesis
      using cand_invD(1) [OF base_invD(4) [OF base] resps [OF vote_reply(2)]] by auto
  qed auto
  show "t \<le> currentTerm (node c' i)" if "ballot c' i t \<noteq> []"
    using keep that old [of i t] step_terms [OF step base_invD(1) [OF base], of i] by auto
qed

lemma reachable_ballots:
  assumes "reachable ms c"
  shows "ballot c i t \<noteq> [] \<Longrightarrow> t \<le> currentTerm (node c i)"
proof -
  have "(\<forall>j req resp. (j, req, resp) \<in> vote_resps c \<longrightarrow> req \<in> vote_reqs c) \<and>
      (\<forall>i t. ballot c i t \<noteq> [] \<longrightarrow> t \<le> currentTerm (node c i))"
    using assms
  proof induction
    case (step c c')
    from step_ballots [OF step.hyps(2) safe_invD(1) [OF reachable_safe_inv [OF step.hyps(1)]]] step.IH
    show ?case by blast
  qed (simp add: initial_def)
  then show "ballot c i t \<noteq> [] \<Longrightarrow> t \<le> currentTerm (node c i)"
    by blast
qed

lemma reachable_live: "(live_step ms)\<^sup>*\<^sup>* c c' \<Longrightarrow> reachable ms c \<Longrightarrow> reachable ms c'"
  by (rule reachable_steps [OF live_steps_cluster])

lemma reachable_live_step: "reachable ms c \<Longrightarrow> live_step ms c c' \<Longrightarrow> reachable ms c'"
  by (rule reachable_live [OF r_into_rtranclp])

text \<open>A candidate \<open>i\<close> of term \<open>t\<close> whose request the member \<open>j\<close> has not answered and will grant.\<close>

definition grants :: "Cluster \<Rightarrow> RequestVoteRequest \<Rightarrow> string \<Rightarrow> bool" where
  "grants c req j \<longleftrightarrow> j \<notin> fst ` set (ballot c (rv_CandidateId req) (rv_Term req)) \<and>
     currentTerm (node c j) < rv_Term req \<and> n_log (node c j) \<noteq> [] \<and>
     log_up_to_date (l_Term (last (n_log (node c j)))) (l_Index (last (n_log (node c j)))) req"

lemma one_vote:
  assumes req: "req \<in> vote_reqs c" "rv_CandidateId req = i" "rv_Term req = t"
    and i: "i \<in> set ms" "standing (node c i) t" and j: "j \<in> set ms" "j \<noteq> i" "grants c req j"
  shows "\<exists>c' n'. (live_step ms)\<^sup>*\<^sup>* c c' \<and> node c' = (node c)(j := n') \<and> currentTerm n' = t \<and>
    n_log n' = n_log (node c j) \<and> vote_reqs c' = vote_reqs c \<and>
    ballot c' = (ballot c)(i := (ballot c i)(t := ballot c i t @ [(j, True)]))"
proof -
  let ?n = "persistStateLocked ((step_down (node c j) t)\<lparr>votedFor := i\<rparr>)"
  let ?resp = "\<lparr>vr_Term = t, vr_VoteGranted = True\<rparr>"
  let ?c1 = "(put_node c j ?n)\<lparr>vote_resps := insert (j, req, ?resp) (vote_resps c),
      voted := insert (j, t, i, n_log (node c j)) (voted c)\<rparr>"
  have "HandleRequestVote (node c j) req = Some (?n, ?resp)"
    using j(3) req by (simp add: HandleRequestVote_eq [OF _ _ refl] grants_def)
  then have s1: "live_step ms c ?c1"
    using live_request_vote [OF req(1) j(1), of ?n ?resp] j(2) req by simp
  let ?c2 = "(put_node ?c1 i (node c i))\<lparr>ballot := (ballot ?c1)(i := (ballot ?c1 i)(t := ballot ?c1 i t @ [(j, True)]))\<rparr>"
  have "vote_response (node ?c1 i) t ?resp = (node c i, True)"
    using i(2) j(2) by (simp add: vote_response_def standing_def)
  moreover have "(j, req, ?resp) \<in> vote_resps ?c1" "j \<notin> fst ` set (ballot ?c1 i t)"
    using j(3) req by (simp_all add: grants_def)
  ultimately have "live_step ms ?c1 ?c2"
    using live_vote_reply [OF _ req(2) [symmetric] i(1) req(3) [symmetric]] by blast
  with s1 have "(live_step ms)\<^sup>*\<^sup>* c ?c2"
    by (meson converse_rtranclp_into_rtranclp r_into_rtranclp)
  moreover have "node ?c2 = (node c)(j := ?n)"
    using j(2) by (simp add: fun_eq_iff)
  ultimately show ?thesis
    by (intro exI [of _ ?c2] exI [of _ ?n]) simp
qed

lemma all_votes:
  assumes req: "req \<in> vote_reqs c" "rv_CandidateId req = i" "rv_Term req = t"
    and i: "i \<in> set ms" "standing (node c i) t"
    and js: "distinct js" "set js \<subseteq> set ms - {i}" "\<forall>j \<in> set js. grants c req j"
  shows "\<exists>c'. (live_step ms)\<^sup>*\<^sup>* c c' \<and> ballot c' i t = ballot c i t @ map (\<lambda>j. (j, True)) js \<and>
    (\<forall>k. n_log (node c' k) = n_log (node c k)) \<and> (\<forall>k. k \<notin> set js \<longrightarrow> node c' k = node c k) \<and>
    (\<forall>j \<in> set js. currentTerm (node c' j) = t)"
  using req i js
proof (induction js arbitrary: c)
  case (Cons j js)
  obtain c1 n' where c1: "(live_step ms)\<^sup>*\<^sup>* c c1" "node c1 = (node c)(j := n')" "currentTerm n' = t"
    "n_log n' = n_log (node c j)" "vote_reqs c1 = vote_reqs c"
    "ballot c1 = (ballot c)(i := (ballot c i)(t := ballot c i t @ [(j, True)]))"
    using one_vote [OF Cons.prems(1-5), of j] Cons.prems(7,8) by auto
  have "\<forall>k \<in> set js. grants c1 req k"
    using Cons.prems(2,3,6,8) c1(2,6) by (auto simp: grants_def)
  then obtain c2 where "(live_step ms)\<^sup>*\<^sup>* c1 c2" "ballot c2 i t = ballot c1 i t @ map (\<lambda>j. (j, True)) js"
    "\<forall>k. n_log (node c2 k) = n_log (node c1 k)" "\<forall>k. k \<notin> set js \<longrightarrow> node c2 k = node c1 k"
    "\<forall>j \<in> set js. currentTerm (node c2 j) = t"
    using Cons.IH [of c1] Cons.prems c1(2,5) by auto
  with c1 Cons.prems(6) show ?case
    by (intro exI [of _ c2]) (auto intro: rtranclp_trans)
qed auto
text \<open>With the votes of all members the candidate leads.\<close>

lemma cluster_size:
  assumes "members_ok ms c" "i \<in> set ms"
  shows "2 \<le> length ms" "length (peerIDs (node c i)) = length ms - 1"
proof -
  have ok: "Validate (n_cfg (node c i)) = None" "ClusterSize (n_cfg (node c i)) = length ms" "distinct ms"
    using assms by (auto simp: members_ok_def member_node_def)
  then show "2 \<le> length ms"
    by (cases "Peers (n_cfg (node c i))") (auto simp: Validate_def ClusterSize_def split: if_splits)
  show "length (peerIDs (node c i)) = length ms - 1"
    using member_fields(4,5) [OF assms] ok(3) assms(2) by (metis card_Diff_singleton distinct_card)
qed

lemma won_election:
  assumes reach: "reachable ms c" and req: "req \<in> vote_reqs c" "rv_CandidateId req = i" "rv_Term req = t"
    and i: "i \<in> set ms" "standing (node c i) t" "ballot c i t = []" "n_log (node c i) \<noteq> []"
    and js: "\<forall>j \<in> set ms - {i}. grants c req j"
  shows "\<exists>c'. (live_step ms)\<^sup>*\<^sup>* c c' \<and> n_role (node c' i) = Leader \<and>
    (\<forall>j \<in> set ms. currentTerm (node c' j) = t) \<and> (\<forall>k. n_log (node c' k) = n_log (node c k))"
proof -
  note mem = reachable_members_ok [OF reach]
  let ?n = "node c i" and ?js = "peerIDs (node c i)"
  note size = cluster_size [OF mem i(1)]
  have js': "distinct ?js" "set ?js \<subseteq> set ms - {i}" "\<forall>j \<in> set ?js. grants c req j"
    using js member_fields(4,5) [OF mem i(1)] by auto
  obtain c1 where c1: "(live_step ms)\<^sup>*\<^sup>* c c1" "ballot c1 i t = map (\<lambda>j. (j, True)) ?js"
    "\<forall>k. n_log (node c1 k) = n_log (node c k)" "\<forall>k. k \<notin> set ?js \<longrightarrow> node c1 k = node c k"
    "\<forall>j \<in> set ?js. currentTerm (node c1 j) = t"
    using all_votes [OF req i(1,2) js'] i(3) by auto
  have n1: "node c1 i = ?n"
    using c1(4) js'(2) by blast
  have "length (filter (\<lambda>b. b) (map snd (ballot c1 i t))) = length ms - 1"
    using size(2) by (simp add: c1(2) comp_def filter_map)
  moreover have "length ms div 2 \<le> length ms - 1"
    using size(1) by linarith
  ultimately obtain m where "tally (Quorum (n_cfg ?n)) 1 (map snd (ballot c1 i t)) = Some m"
    using tally_reaches [of 1 "Quorum (n_cfg ?n)" "map snd (ballot c1 i t)"] size(1) member_fields(3) [OF mem i(1)] by auto
  moreover have "?js \<noteq> []"
    using size by auto
  ultimately have start: "startElection (node c1 i) t (map snd (ballot c1 i t)) = Some (init_leader ?n (l_Index (last (n_log ?n))))"
    using i(2,4) by (simp add: n1 startElection_def elected_def standing_def lastLog_eq)
  let ?c2 = "(put_node c1 i (init_leader ?n (l_Index (last (n_log ?n)))))
      \<lparr>leader := (leader c1)(t := Some i), llog := (llog c1)(t := n_log ?n)\<rparr>"
  from live_count_votes [OF i(1) start] i(2) n1 have "live_step ms c1 ?c2"
    by (simp add: standing_def init_leader_def)
  with c1(1) have "(live_step ms)\<^sup>*\<^sup>* c ?c2"
    by (rule rtranclp.rtrancl_into_rtrancl)
  moreover have "currentTerm (node c1 j) = t" if "j \<in> set ms" "j \<noteq> i" for j
    using c1(5) member_fields(5) [OF mem i(1)] that by blast
  ultimately show ?thesis
    using c1(3) i(2) by (intro exI [of _ ?c2]) (auto simp: standing_def init_leader_def)
qed
section \<open>The election\<close>

lemma timeout_step:
  assumes "i \<in> set ms" "n_role (node c i) \<noteq> Leader" "n_log (node c i) \<noteq> []" "currentTerm (node c i) + 1 < 2 ^ 64"
    "n_id (node c i) = i"
  shows "\<exists>c' n' req. live_step ms c c' \<and> node c' = (node c)(i := n') \<and> standing n' (currentTerm (node c i) + 1) \<and>
    n_log n' = n_log (node c i) \<and> ballot c' = ballot c \<and> req \<in> vote_reqs c' \<and>
    req = \<lparr>rv_Term = currentTerm (node c i) + 1, rv_CandidateId = i, rv_LastLogIndex = l_Index (last (n_log (node c i))),
      rv_LastLogTerm = l_Term (last (n_log (node c i)))\<rparr>"
proof -
  let ?n = "node c i"
  let ?n' = "persistStateLocked (?n\<lparr>n_role := Candidate, currentTerm := currentTerm ?n + 1, votedFor := i\<rparr>)"
  let ?req = "\<lparr>rv_Term = currentTerm ?n + 1, rv_CandidateId = i, rv_LastLogIndex = l_Index (last (n_log ?n)),
      rv_LastLogTerm = l_Term (last (n_log ?n))\<rparr>"
  have "onElectionTimeout ?n = Some (?n', Some ?req)"
    using assms(2-5) by (simp add: onElectionTimeout_def lastLogIndexLocked_def lastLogTermLocked_def Let_def u64_def)
  from live_timeout [OF assms(1,4) this] show ?thesis
    by (intro exI [of _ "(put_node c i ?n')\<lparr>vote_reqs := insert ?req (vote_reqs c),
        voted := insert (i, currentTerm ?n', i, n_log ?n') (voted c)\<rparr>"] exI [of _ ?n'] exI [of _ ?req])
      (simp add: standing_def)
qed

text \<open>The member with the most up-to-date log.\<close>

lemma best_log:
  assumes "ms \<noteq> []"
  shows "\<exists>i \<in> set ms. \<forall>j \<in> set ms. up_to_date (n_log (node c i)) (n_log (node c j))"
  using assms
proof (induction ms)
  case (Cons k ms)
  show ?case
  proof (cases "ms = []")
    case False
    with Cons.IH obtain i where i: "i \<in> set ms" "\<forall>j \<in> set ms. up_to_date (n_log (node c i)) (n_log (node c j))"
      by blast
    have total: "up_to_date L M \<or> up_to_date M L" "up_to_date L L" for L M
      by (auto simp: up_to_date_def)
    have trans: "up_to_date K L \<Longrightarrow> up_to_date L M \<Longrightarrow> up_to_date K M" for K L M
      by (auto simp: up_to_date_def)
    from i total(1) [of "n_log (node c i)" "n_log (node c k)"] trans [of "n_log (node c k)" "n_log (node c i)"] show ?thesis
      by (cases "up_to_date (n_log (node c i)) (n_log (node c k))") (auto intro: total(2))
  qed (simp add: up_to_date_def)
qed simp

lemma leader_elected:
  assumes reach: "reachable ms c" and i: "i \<in> set ms" "n_role (node c i) \<noteq> Leader" "currentTerm (node c i) + 1 < 2 ^ 64"
    and top: "\<forall>j \<in> set ms. currentTerm (node c j) \<le> currentTerm (node c i)"
    and best: "\<forall>j \<in> set ms. up_to_date (n_log (node c i)) (n_log (node c j))"
  shows "\<exists>c'. (live_step ms)\<^sup>*\<^sup>* c c' \<and> n_role (node c' i) = Leader \<and>
    (\<forall>j \<in> set ms. currentTerm (node c' j) \<le> currentTerm (node c' i)) \<and> (\<forall>k. n_log (node c' k) = n_log (node c k))"
proof -
  note base = safe_invD(1) [OF reachable_safe_inv [OF reach]]
  have logs: "n_log (node c j) \<noteq> []" if "j \<in> set ms" for j
    using log_invD(1) [OF base_invD(3) [OF base] that] good_logD(2) by (auto simp: node_log_ok_def)
  let ?t = "currentTerm (node c i) + 1"
  obtain c1 n1 req where c1: "live_step ms c c1" "node c1 = (node c)(i := n1)" "standing n1 ?t"
    "n_log n1 = n_log (node c i)" "ballot c1 = ballot c" "req \<in> vote_reqs c1"
    "req = \<lparr>rv_Term = ?t, rv_CandidateId = i, rv_LastLogIndex = l_Index (last (n_log (node c i))),
      rv_LastLogTerm = l_Term (last (n_log (node c i)))\<rparr>"
    using timeout_step [OF i(1,2) logs [OF i(1)] i(3) member_fields(1) [OF base_invD(1) [OF base] i(1)]] by blast
  have ball: "ballot c1 i ?t = []"
    using reachable_ballots [OF reach, of i ?t] c1(5) by auto
  have "grants c1 req j" if "j \<in> set ms - {i}" for j
    using that top best logs c1(2) ball by (auto simp: grants_def c1(7) log_up_to_date_def up_to_date_def le_imp_less_Suc)
  moreover have "rv_CandidateId req = i" "rv_Term req = ?t" "standing (node c1 i) ?t" "n_log (node c1 i) \<noteq> []"
    using c1 logs [OF i(1)] by simp_all
  ultimately obtain c2 where "(live_step ms)\<^sup>*\<^sup>* c1 c2" "n_role (node c2 i) = Leader"
    "\<forall>j \<in> set ms. currentTerm (node c2 j) = ?t" "\<forall>k. n_log (node c2 k) = n_log (node c1 k)"
    using won_election [OF reachable_live_step [OF reach c1(1)] c1(6) _ _ i(1)] ball by metis
  with c1(1,2,4) i(1) show ?thesis
    by (intro exI [of _ c2]) (auto intro: converse_rtranclp_into_rtranclp)
qed
text \<open>Some member comes to lead the newest term: one that already does, or the one with the best
  log, after it has heard of the newest term.\<close>

lemma deposed:
  assumes "currentTerm n < rv_Term req" "n_log n \<noteq> []"
  shows "\<exists>n' resp. HandleRequestVote n req = Some (n', resp) \<and> currentTerm n' = rv_Term req \<and>
    n_role n' = Follower \<and> n_log n' = n_log n"
  using assms HandleRequestVote_eq [OF _ assms(2) refl, of req] by auto

lemma finite_set_max:
  fixes f :: "'a \<Rightarrow> nat"
  assumes "xs \<noteq> []"
  shows "\<exists>k \<in> set xs. \<forall>j \<in> set xs. f j \<le> f k"
proof -
  let ?A = "f ` set xs"
  have "Max ?A \<in> ?A"
    using assms by (intro Max_in) simp_all
  then obtain k where "k \<in> set xs" "f k = Max ?A"
    by force
  then show ?thesis
    by (intro bexI [of _ k]) simp_all
qed

text \<open>The best candidate hears of the newest term: as a follower or candidate from a node that stands for
  election first, as a deposed leader from the answer to its next request, which also arms its timer.\<close>

lemma term_spreads:
  assumes reach: "reachable ms c" and k: "k \<in> set ms" "n_role (node c k) \<noteq> Leader" "currentTerm (node c k) + 1 < 2 ^ 64"
    and top: "\<forall>j \<in> set ms. currentTerm (node c j) \<le> currentTerm (node c k)" and i: "i \<in> set ms" "k \<noteq> i" "n_role (node c i) \<noteq> Leader"
  shows "\<exists>c'. (live_step ms)\<^sup>*\<^sup>* c c' \<and> n_role (node c' i) = Follower \<and>
    currentTerm (node c' i) = currentTerm (node c k) + 1 \<and>
    (\<forall>j \<in> set ms. currentTerm (node c' j) \<le> currentTerm (node c' i)) \<and> (\<forall>j. n_log (node c' j) = n_log (node c j))"
proof -
  let ?t = "currentTerm (node c k) + 1"
  note base = safe_invD(1) [OF reachable_safe_inv [OF reach]]
  have logs: "n_log (node c j) \<noteq> []" if "j \<in> set ms" for j
    using log_invD(1) [OF base_invD(3) [OF base] that] good_logD(2) by (auto simp: node_log_ok_def)
  from timeout_step [OF k(1,2) logs [OF k(1)] k(3) member_fields(1) [OF base_invD(1) [OF base] k(1)]]
  obtain c1 n1 req where c1: "live_step ms c c1" "node c1 = (node c)(k := n1)" "standing n1 ?t"
    "n_log n1 = n_log (node c k)" "req \<in> vote_reqs c1" "rv_Term req = ?t" "rv_CandidateId req = k"
    by auto
  have ni: "node c1 i = node c i" "currentTerm (node c i) < rv_Term req"
    using i top c1(2,6) by (auto simp: le_imp_less_Suc)
  then obtain n2 resp where n2: "HandleRequestVote (node c1 i) req = Some (n2, resp)" "currentTerm n2 = ?t"
    "n_role n2 = Follower" "n_log n2 = n_log (node c i)"
    using deposed [OF ni(2) logs [OF i(1)]] c1(6) by auto
  obtain c2 where c2: "live_step ms c1 c2" "node c2 = (node c1)(i := n2)"
    using live_request_vote [OF c1(5) i(1) _ n2(1)] i(2,3) ni(1) c1(7) by fastforce
  have "(live_step ms)\<^sup>*\<^sup>* c c2"
    using c1(1) c2(1) by (meson converse_rtranclp_into_rtranclp r_into_rtranclp)
  moreover have "\<forall>j \<in> set ms. currentTerm (node c2 j) \<le> currentTerm (node c2 i)"
    using c1(2,3) c2(2) n2(2) top by (auto simp: standing_def le_SucI)
  moreover have "n_role (node c2 i) = Follower" "currentTerm (node c2 i) = ?t"
    "n_log (node c2 j) = n_log (node c j)" for j
    using c1(2,4) c2(2) n2(2-4) by simp_all
  ultimately show ?thesis by blast
qed

lemma term_heard:
  assumes reach: "reachable ms c" and i: "i \<in> set ms" "n_role (node c i) = Leader" and k: "k \<in> set ms"
    and less: "currentTerm (node c i) < currentTerm (node c k)"
  shows "\<exists>c' n'. (live_step ms)\<^sup>*\<^sup>* c c' \<and> node c' = (node c)(i := n') \<and> n_role n' = Follower \<and>
    currentTerm n' = currentTerm (node c k) \<and> n_log n' = n_log (node c i)"
proof -
  let ?n = "node c i" and ?m = "node c k"
  let ?t = "currentTerm ?n"
  have ik: "i \<noteq> k"
    using less by auto
  note mem = member_fields [OF reachable_members_ok [OF reach] i(1)]
  obtain req where req: "replicate_request ?n k ?t = Some req" "ae_LeaderId req = i" "ae_Term req = ?t"
    using i(2) mem(1) by (auto simp: replicate_request_def Let_def)
  let ?resp = "\<lparr>ar_Term = currentTerm ?m, ar_Success = False, ar_MatchIndex = 0\<rparr>"
  let ?c1 = "c\<lparr>append_reqs := insert (k, req) (append_reqs c)\<rparr>"
  let ?c2 = "(put_node ?c1 k ?m)\<lparr>append_resps := insert (k, req, ?resp) (append_resps ?c1)\<rparr>"
  let ?c3 = "put_node ?c2 i (step_down ?n (currentTerm ?m))"
  have "live_step ms c ?c1"
    using i(2) mem(5) k ik by (intro live_replicate [OF i(1) _ req(1)]) (auto simp: replicateToPeers_def)
  moreover have "live_step ms ?c1 ?c2"
    using less req(3) by (intro live_append [OF _ k]) (simp_all add: HandleAppendEntries_eq)
  moreover have "live_step ms ?c2 ?c3"
  proof (rule live_append_reply [OF _ req(2) [symmetric] i(1)])
    show "(k, req, ?resp) \<in> append_resps ?c2" by simp
    show "replicate_response (node ?c2 i) k (ae_Term req) (ae_Entries req) ?resp = Some (step_down ?n (currentTerm ?m))"
      using less ik by (simp add: replicate_response_def)
  qed
  ultimately have "(live_step ms)\<^sup>*\<^sup>* c ?c3"
    by (meson converse_rtranclp_into_rtranclp r_into_rtranclp)
  then show ?thesis
    by (intro exI [of _ ?c3] exI [of _ "step_down ?n (currentTerm ?m)"]) simp
qed

text \<open>A member with the best log that does not lead comes to lead.\<close>

lemma best_leads:
  assumes reach: "reachable ms c" and k: "k \<in> set ms" "\<forall>j \<in> set ms. currentTerm (node c j) \<le> currentTerm (node c k)"
      "currentTerm (node c k) + 2 < 2 ^ 64" "n_role (node c k) \<noteq> Leader"
    and i: "i \<in> set ms" "\<forall>j \<in> set ms. up_to_date (n_log (node c i)) (n_log (node c j))" "n_role (node c i) \<noteq> Leader"
  shows "\<exists>c'. (live_step ms)\<^sup>*\<^sup>* c c' \<and> n_role (node c' i) = Leader \<and>
    (\<forall>j \<in> set ms. currentTerm (node c' j) \<le> currentTerm (node c' i)) \<and> (\<forall>k. n_log (node c' k) = n_log (node c k))"
proof (cases "k = i")
  case True
  with leader_elected [OF reach i(1,3) _ _ i(2)] k(2,3) show ?thesis by auto
next
  case False
  obtain c2 where c2: "(live_step ms)\<^sup>*\<^sup>* c c2" "n_role (node c2 i) = Follower"
    "currentTerm (node c2 i) = currentTerm (node c k) + 1"
    "\<forall>j \<in> set ms. currentTerm (node c2 j) \<le> currentTerm (node c2 i)" "\<forall>j. n_log (node c2 j) = n_log (node c j)"
    using term_spreads [OF reach k(1,4) _ k(2) i(1) False i(3)] k(3) by auto
  then obtain c3 where "(live_step ms)\<^sup>*\<^sup>* c2 c3" "n_role (node c3 i) = Leader"
    "\<forall>j \<in> set ms. currentTerm (node c3 j) \<le> currentTerm (node c3 i)" "\<forall>k. n_log (node c3 k) = n_log (node c2 k)"
    using leader_elected [OF reachable_live [OF c2(1) reach] i(1) _ _ c2(4)] i(2) k(3) by auto
  with c2(1,5) show ?thesis
    by (intro exI [of _ c3]) (auto intro: rtranclp_trans)
qed

lemma leader_emerges:
  assumes reach: "reachable ms c" and ms: "ms \<noteq> []" and room: "\<forall>i \<in> set ms. currentTerm (node c i) + 2 < 2 ^ 64"
  shows "\<exists>c' i. (live_step ms)\<^sup>*\<^sup>* c c' \<and> i \<in> set ms \<and> n_role (node c' i) = Leader \<and>
    (\<forall>j \<in> set ms. currentTerm (node c' j) \<le> currentTerm (node c' i)) \<and> (\<forall>k. n_log (node c' k) = n_log (node c k))"
proof -
  obtain k where k: "k \<in> set ms" "\<forall>j \<in> set ms. currentTerm (node c j) \<le> currentTerm (node c k)"
    using finite_set_max [OF ms, of "\<lambda>j. currentTerm (node c j)"] by blast
  obtain i where i: "i \<in> set ms" "\<forall>j \<in> set ms. up_to_date (n_log (node c i)) (n_log (node c j))"
    using best_log [OF ms] by blast
  have room: "currentTerm (node c k) + 2 < 2 ^ 64"
    using room k(1) by blast
  show ?thesis
  proof (cases "n_role (node c k) = Leader")
    case True
    with k show ?thesis by blast
  next
    case False
    note kl = False
    show ?thesis
    proof (cases "n_role (node c i) = Leader")
      case False
      with best_leads [OF reach k room kl i] i(1) show ?thesis by blast
    next
      case True
      then consider "currentTerm (node c i) = currentTerm (node c k)" | "currentTerm (node c i) < currentTerm (node c k)"
        using k(2) i(1) le_neq_implies_less by blast
      then show ?thesis
      proof cases
        case 1
        with True i(1) k(2) show ?thesis
          by (intro exI [of _ c] exI [of _ i]) simp
      next
        case 2
        obtain c1 n1 where c1: "(live_step ms)\<^sup>*\<^sup>* c c1" "node c1 = (node c)(i := n1)" "n_role n1 = Follower"
          "currentTerm n1 = currentTerm (node c k)" "n_log n1 = n_log (node c i)"
          using term_heard [OF reach i(1) True k(1) 2] by blast
        have "\<forall>j \<in> set ms. currentTerm (node c1 j) \<le> currentTerm (node c1 i)"
          "\<forall>j \<in> set ms. up_to_date (n_log (node c1 i)) (n_log (node c1 j))" "n_role (node c1 i) \<noteq> Leader"
          "currentTerm (node c1 i) + 2 < 2 ^ 64" "\<forall>j. n_log (node c1 j) = n_log (node c j)"
          using c1(2-5) k(2) i room by simp_all
        with best_leads [OF reachable_live [OF c1(1) reach] i(1) this(1,4,3) i(1) this(2,3)] c1(1) i(1) show ?thesis
          by (metis rtranclp_trans)
      qed
    qed
  qed
qed

section \<open>Replication\<close>

text \<open>A round of \<open>replicateToPeer\<close> as three steps of the cluster.\<close>

lemma round_steps:
  assumes i: "i \<in> set ms" "n_role (node c i) = Leader" "currentTerm (node c i) = t" "n_id (node c i) = i"
    and p: "p \<in> set ms" "p \<noteq> i" "p \<in> set (peerIDs (node c i))"
    and round: "replicateToPeer (node c i) p t (node c p) = Some (n', m')"
  shows "\<exists>c'. (live_step ms)\<^sup>*\<^sup>* c c' \<and> node c' = (node c)(p := m', i := n')"
proof -
  obtain req where req: "replicate_request (node c i) p t = Some req" "ae_LeaderId req = i" "ae_Term req = t"
    using i(2-4) by (auto simp: replicate_request_def Let_def)
  with round obtain resp where h: "HandleAppendEntries (node c p) req = Some (m', resp)"
    "replicate_response (node c i) p t (ae_Entries req) resp = Some n'"
    by (auto simp: replicateToPeer_def split: option.splits)
  let ?c1 = "c\<lparr>append_reqs := insert (p, req) (append_reqs c)\<rparr>"
  let ?c2 = "(put_node ?c1 p m')\<lparr>append_resps := insert (p, req, resp) (append_resps ?c1)\<rparr>"
  have "live_step ms c ?c1"
    using i(2,3) p(3) by (intro live_replicate [OF i(1) _ req(1)]) (simp add: replicateToPeers_def)
  moreover have "live_step ms ?c1 ?c2"
    using h(1) by (intro live_append [OF _ p(1)]) simp_all
  moreover have "live_step ms ?c2 (put_node ?c2 i n')"
  proof (rule live_append_reply [OF _ req(2) [symmetric] i(1)])
    show "(p, req, resp) \<in> append_resps ?c2" by simp
    show "replicate_response (node ?c2 i) p (ae_Term req) (ae_Entries req) resp = Some n'"
      using h(2) p(2) req(3) by simp
  qed
  ultimately have "(live_step ms)\<^sup>*\<^sup>* c (put_node ?c2 i n')"
    by (meson converse_rtranclp_into_rtranclp r_into_rtranclp)
  then show ?thesis
    by (intro exI [of _ "put_node ?c2 i n'"]) simp
qed

text \<open>A leader \<open>i\<close> of the newest term.\<close>

definition leads :: "string list \<Rightarrow> Cluster \<Rightarrow> string \<Rightarrow> nat \<Rightarrow> LogEntry list \<Rightarrow> bool" where
  "leads ms c i t L \<longleftrightarrow> reachable ms c \<and> i \<in> set ms \<and> n_role (node c i) = Leader \<and> currentTerm (node c i) = t \<and>
     n_log (node c i) = L \<and> 2 \<le> length L \<and> length L \<le> 2 ^ 63 \<and> (\<forall>j \<in> set ms. currentTerm (node c j) \<le> t)"

lemma leadsD:
  assumes "leads ms c i t L"
  shows "reachable ms c" "i \<in> set ms" "n_role (node c i) = Leader" "currentTerm (node c i) = t"
    "n_log (node c i) = L" "2 \<le> length L" "length L \<le> 2 ^ 63" "j \<in> set ms \<Longrightarrow> currentTerm (node c j) \<le> t"
    "n_id (node c i) = i" "set (peerIDs (node c i)) = set ms - {i}"
    "p \<in> set ms \<Longrightarrow> p \<noteq> i \<Longrightarrow> in_touch (node c i) p t (node c p)"
proof -
  show *: "reachable ms c" "i \<in> set ms" "n_role (node c i) = Leader" "currentTerm (node c i) = t"
    "n_log (node c i) = L" "2 \<le> length L" "length L \<le> 2 ^ 63" "j \<in> set ms \<Longrightarrow> currentTerm (node c j) \<le> t" for j
    using assms unfolding leads_def by blast+
  show "n_id (node c i) = i" "set (peerIDs (node c i)) = set ms - {i}"
    using member_fields(1,5) [OF reachable_members_ok [OF *(1)] *(2)] .
  show "p \<in> set ms \<Longrightarrow> p \<noteq> i \<Longrightarrow> in_touch (node c i) p t (node c p)"
    using reachable_in_touch [OF *(1,2), of p] *(3,4,8) by auto
qed

lemma leads_round:
  assumes l: "leads ms c i t L" and p: "p \<in> set ms" "p \<noteq> i"
    and round: "replicateToPeer (node c i) p t (node c p) = Some (n', m')" "leads_on p (node c i) n'" "currentTerm m' \<le> t"
  shows "\<exists>c'. (live_step ms)\<^sup>*\<^sup>* c c' \<and> leads ms c' i t L \<and> node c' = (node c)(p := m', i := n')"
proof -
  have "p \<in> set (peerIDs (node c i))"
    using leadsD(10) [OF l] p by simp
  from round_steps [OF leadsD(2,3,4,9) [OF l] p this round(1)]
  obtain c' where c': "(live_step ms)\<^sup>*\<^sup>* c c'" "node c' = (node c)(p := m', i := n')"
    by blast
  have "leads ms c' i t L"
    using reachable_live [OF c'(1) leadsD(1) [OF l]] leadsD(2-8) [OF l] round(2,3) c'(2)
    by (auto simp: leads_def leads_on_def)
  with c' show ?thesis by blast
qed

text \<open>A peer that lacks the last entry gets it, after as many rounds as it takes.\<close>

lemma peer_catches_up:
  assumes "leads ms c i t L" "p \<in> set ms" "p \<noteq> i" "nextIndex (node c i) p < length L"
  shows "\<exists>c'. (live_step ms)\<^sup>*\<^sup>* c c' \<and> leads ms c' i t L \<and> leads_on p (node c i) (node c' i) \<and>
    matchIndex (node c' i) p = length L - 1 \<and> nextIndex (node c' i) p = length L \<and> (\<forall>N. \<not> committable (node c' i) N) \<and>
    take (length L) (n_log (node c' p)) = L \<and> (\<forall>k. k \<noteq> i \<longrightarrow> k \<noteq> p \<longrightarrow> node c' k = node c k)"
  using assms
proof (induction "nextIndex (node c i) p" arbitrary: c rule: less_induct)
  case less
  let ?n = "node c i" and ?m = "node c p"
  let ?x = "if nextIndex ?n p = 0 then 1 else nextIndex ?n p"
  note l = leadsD [OF less.prems(1)]
  note touch = l(11) [OF less.prems(2,3)]
  show ?case
  proof (cases "?x - 1 < length (n_log ?m) \<and> l_Term (n_log ?m ! (?x - 1)) = l_Term (n_log ?n ! (?x - 1))")
    case True
    moreover have "?x < length (n_log ?n)" "u64 (length (n_log ?n)) = length (n_log ?n)"
      using less.prems(4) l(5,6,7) by auto
    ultimately obtain n' m' where r: "replicateToPeer ?n p t ?m = Some (n', m')" "leads_on p ?n n'" "currentTerm m' = t"
      "take (length L) (n_log m') = L" "matchIndex n' p = length L - 1" "nextIndex n' p = length L" "\<forall>N. \<not> committable n' N"
      using round_accepted [OF touch refl] l(5) by auto
    with leads_round [OF less.prems(1-3) r(1,2)] less.prems(3) show ?thesis
      by auto
  next
    case False
    then have x: "1 < nextIndex ?n p"
      using in_touchD(6,7) [OF touch] by (cases "nextIndex ?n p \<le> 1") (auto simp: indexed_def)
    with False round_rejected [OF touch x] obtain n1 m1 where r: "replicateToPeer ?n p t ?m = Some (n1, m1)"
      "in_touch n1 p t m1" "leads_on p ?n n1" "nextIndex n1 p = nextIndex ?n p - 1"
      by auto
    obtain c1 where c1: "(live_step ms)\<^sup>*\<^sup>* c c1" "leads ms c1 i t L" "node c1 = (node c)(p := m1, i := n1)"
      using leads_round [OF less.prems(1-3) r(1,3) in_touchD(5) [OF r(2)]] by blast
    have "nextIndex (node c1 i) p < nextIndex ?n p" "nextIndex (node c1 i) p < length L"
      using c1(3) r(4) x less.prems(4) by simp_all
    from less.hyps [OF this(1) c1(2) less.prems(2,3) this(2)] obtain c2 where c2: "(live_step ms)\<^sup>*\<^sup>* c1 c2"
      "leads ms c2 i t L" "leads_on p (node c1 i) (node c2 i)" "matchIndex (node c2 i) p = length L - 1"
      "nextIndex (node c2 i) p = length L" "\<forall>N. \<not> committable (node c2 i) N"
      "take (length L) (n_log (node c2 p)) = L" "\<forall>k. k \<noteq> i \<longrightarrow> k \<noteq> p \<longrightarrow> node c2 k = node c1 k"
      by blast
    have "leads_on p ?n (node c2 i)"
      using c2(3) r(3) c1(3) by (auto simp: leads_on_def)
    with c2 c1 show ?thesis
      by (intro exI [of _ c2]) (auto intro: rtranclp_trans)
  qed
qed
lemma peers_catch_up:
  assumes "leads ms c i t L" "distinct ps" "set ps \<subseteq> set ms - {i}" "\<forall>p \<in> set ps. nextIndex (node c i) p < length L"
  shows "\<exists>c'. (live_step ms)\<^sup>*\<^sup>* c c' \<and> leads ms c' i t L \<and>
    (\<forall>p \<in> set ps. matchIndex (node c' i) p = length L - 1 \<and> nextIndex (node c' i) p = length L \<and>
       take (length L) (n_log (node c' p)) = L) \<and>
    (\<forall>p. p \<notin> set ps \<longrightarrow> matchIndex (node c' i) p = matchIndex (node c i) p \<and> nextIndex (node c' i) p = nextIndex (node c i) p) \<and>
    (\<forall>k. k \<noteq> i \<longrightarrow> k \<notin> set ps \<longrightarrow> node c' k = node c k) \<and>
    (ps \<noteq> [] \<longrightarrow> (\<forall>N. \<not> committable (node c' i) N))"
  using assms
proof (induction ps rule: rev_induct)
  case (snoc p ps)
  obtain c1 where c1: "(live_step ms)\<^sup>*\<^sup>* c c1" "leads ms c1 i t L"
    "\<forall>q \<in> set ps. matchIndex (node c1 i) q = length L - 1 \<and> nextIndex (node c1 i) q = length L \<and>
       take (length L) (n_log (node c1 q)) = L"
    "\<forall>q. q \<notin> set ps \<longrightarrow> matchIndex (node c1 i) q = matchIndex (node c i) q \<and> nextIndex (node c1 i) q = nextIndex (node c i) q"
    "\<forall>k. k \<noteq> i \<longrightarrow> k \<notin> set ps \<longrightarrow> node c1 k = node c k"
    using snoc.IH [OF snoc.prems(1)] snoc.prems(2-4) by auto
  have p: "p \<in> set ms" "p \<noteq> i" "p \<notin> set ps" "nextIndex (node c1 i) p < length L"
    using snoc.prems(2-4) c1(4) by auto
  from peer_catches_up [OF c1(2) p(1,2,4)] obtain c2 where c2: "(live_step ms)\<^sup>*\<^sup>* c1 c2" "leads ms c2 i t L"
    "leads_on p (node c1 i) (node c2 i)" "matchIndex (node c2 i) p = length L - 1" "nextIndex (node c2 i) p = length L"
    "\<forall>N. \<not> committable (node c2 i) N" "take (length L) (n_log (node c2 p)) = L"
    "\<forall>k. k \<noteq> i \<longrightarrow> k \<noteq> p \<longrightarrow> node c2 k = node c1 k"
    by blast
  have q: "nextIndex (node c2 i) q = nextIndex (node c1 i) q" "matchIndex (node c2 i) q = matchIndex (node c1 i) q"
      if "q \<noteq> p" for q
    using c2(3) that by (auto simp: leads_on_def)
  have "matchIndex (node c2 i) q = length L - 1 \<and> nextIndex (node c2 i) q = length L \<and> take (length L) (n_log (node c2 q)) = L"
    if "q \<in> set (ps @ [p])" for q
  proof (cases "q = p")
    case False
    with that have "q \<in> set ps" "q \<noteq> i"
      using snoc.prems(3) by auto
    with False c1(3) c2(8) q [OF False] show ?thesis by simp
  qed (use c2(4,5,7) in simp)
  moreover have "matchIndex (node c2 i) q = matchIndex (node c i) q \<and> nextIndex (node c2 i) q = nextIndex (node c i) q"
    if "q \<notin> set (ps @ [p])" for q
    using that q [of q] c1(4) by simp
  moreover have "node c2 k = node c k" if "k \<noteq> i" "k \<notin> set (ps @ [p])" for k
    using that c1(5) c2(8) by simp
  moreover have "(live_step ms)\<^sup>*\<^sup>* c c2"
    using c1(1) c2(1) by (rule rtranclp_trans)
  ultimately show ?case
    using c2(2,6) by blast
qed auto

text \<open>With the acknowledgements of all peers an entry of the current term is committed.\<close>

lemma leader_commits:
  assumes l: "leads ms c i t L" and term_last: "l_Term (last L) = t"
    and behind: "\<forall>p \<in> set ms - {i}. nextIndex (node c i) p < length L"
  shows "\<exists>c'. (live_step ms)\<^sup>*\<^sup>* c c' \<and> leads ms c' i t L \<and> commitIndex (node c' i) = length L - 1 \<and>
    (\<forall>p \<in> set ms - {i}. nextIndex (node c' i) p = length L \<and> take (length L) (n_log (node c' p)) = L)"
proof -
  note mem = reachable_members_ok [OF leadsD(1) [OF l]]
  let ?ps = "peerIDs (node c i)"
  have ps: "distinct ?ps" "set ?ps = set ms - {i}"
    using member_fields(4,5) [OF mem leadsD(2) [OF l]] .
  then have "\<forall>p \<in> set ?ps. nextIndex (node c i) p < length L"
    using behind by simp
  from peers_catch_up [OF l ps(1) _ this] obtain c' where c': "(live_step ms)\<^sup>*\<^sup>* c c'" "leads ms c' i t L"
    "\<forall>p \<in> set ?ps. matchIndex (node c' i) p = length L - 1 \<and> nextIndex (node c' i) p = length L \<and>
       take (length L) (n_log (node c' p)) = L" "?ps \<noteq> [] \<longrightarrow> (\<forall>N. \<not> committable (node c' i) N)"
    using ps(2) by blast
  note l' = leadsD [OF c'(2)]
  note mem' = reachable_members_ok [OF l'(1)]
  note size = cluster_size [OF mem leadsD(2) [OF l]] cluster_size [OF mem' l'(2)]
  have "?ps \<noteq> []"
    using size(1,2) by auto
  with c'(4) have settled: "\<not> committable (node c' i) (length L - 1)"
    by blast
  have "filter (\<lambda>p. length L - 1 \<le> matchIndex (node c' i) p) (peerIDs (node c' i)) = peerIDs (node c' i)"
    using c'(3) ps(2) l'(10) by (intro filter_True) auto
  then have "replicated (node c' i) (length L - 1) = length ms"
    using size(1,4) by (simp add: replicated_def)
  moreover have "Quorum (n_cfg (node c' i)) \<le> length ms"
    using member_fields(3) [OF mem' l'(2)] size(1) by linarith
  moreover have "L ! (length L - 1) = last L"
    using l'(6) by (subst last_conv_nth) auto
  ultimately have "\<not> commitIndex (node c' i) < length L - 1"
    using settled l'(4,5,6) term_last by (auto simp: committable_def)
  moreover have "commitIndex (node c' i) < length L"
    using commit_in_log [OF reachable_safe_inv [OF l'(1)] l'(2)] l'(5) by simp
  ultimately have "commitIndex (node c' i) = length L - 1"
    by linarith
  with c'(1-3) ps(2) show ?thesis
    by blast
qed

text \<open>With the next request each peer learns the commit index.\<close>

lemma peers_learn:
  assumes "leads ms c i t L" "commitIndex (node c i) = length L - 1" "distinct ps" "set ps \<subseteq> set ms - {i}"
    "\<forall>p \<in> set ps. nextIndex (node c i) p = length L \<and> take (length L) (n_log (node c p)) = L"
  shows "\<exists>c'. (live_step ms)\<^sup>*\<^sup>* c c' \<and> node c' i = node c i \<and> (\<forall>k. k \<notin> set ps \<longrightarrow> node c' k = node c k) \<and>
    (\<forall>p \<in> set ps. length L - 1 \<le> commitIndex (node c' p) \<and> take (length L) (n_log (node c' p)) = L)"
  using assms
proof (induction ps arbitrary: c)
  case (Cons p ps)
  let ?n = "node c i" and ?m = "node c p"
  note l = leadsD [OF Cons.prems(1)]
  have p: "p \<in> set ms" "p \<noteq> i" "nextIndex ?n p = length L" "take (length L) (n_log ?m) = L"
    using Cons.prems(4,5) by auto
  have x: "length L = (if nextIndex ?n p = 0 then 1 else nextIndex ?n p)"
    using p(3) l(6) by auto
  have "length L \<le> length (n_log ?m)" "L ! (length L - 1) = n_log ?m ! (length L - 1)"
    using p(4) l(6) by (metis length_take min.cobounded1, metis diff_less length_greater_0_conv less_one
        list.size(3) not_numeral_le_zero nth_take)
  then have "length L - 1 < length (n_log ?m)" "l_Term (n_log ?m ! (length L - 1)) = l_Term (n_log ?n ! (length L - 1))"
    using l(5,6) by auto
  from round_accepted [OF l(11) [OF p(1,2)] x this] l(5) Cons.prems(2) obtain m' where
    r: "replicateToPeer ?n p t ?m = Some (?n, m')" "take (length L) (n_log m') = L" "currentTerm m' = t"
      "length L - 1 \<le> commitIndex m'"
    by auto
  have "leads_on p ?n ?n"
    by (simp add: leads_on_def)
  from leads_round [OF Cons.prems(1) p(1,2) r(1) this] r(3) p(2) obtain c1 where
    c1: "(live_step ms)\<^sup>*\<^sup>* c c1" "leads ms c1 i t L" "node c1 = (node c)(p := m', i := ?n)"
    by auto
  have "\<exists>c'. (live_step ms)\<^sup>*\<^sup>* c1 c' \<and> node c' i = node c1 i \<and> (\<forall>k. k \<notin> set ps \<longrightarrow> node c' k = node c1 k) \<and>
      (\<forall>q \<in> set ps. length L - 1 \<le> commitIndex (node c' q) \<and> take (length L) (n_log (node c' q)) = L)"
    using Cons.prems(2-5) c1(3) by (intro Cons.IH [OF c1(2)]) auto
  then obtain c2 where "(live_step ms)\<^sup>*\<^sup>* c1 c2" "node c2 i = node c1 i" "\<forall>k. k \<notin> set ps \<longrightarrow> node c2 k = node c1 k"
      "\<forall>q \<in> set ps. length L - 1 \<le> commitIndex (node c2 q) \<and> take (length L) (n_log (node c2 q)) = L"
    by blast
  with c1(1,3) r(2,4) p(2) Cons.prems(3) show ?case
    by (intro exI [of _ c2]) (auto intro: rtranclp_trans)
qed auto
section \<open>A proposal\<close>

lemma propose_step:
  assumes reach: "reachable ms c" and i: "i \<in> set ms" "n_role (node c i) = Leader" "length (n_log (node c i)) < 2 ^ 63"
    and top: "\<forall>j \<in> set ms. currentTerm (node c j) \<le> currentTerm (node c i)"
  shows "\<exists>c'. live_step ms c c' \<and> (\<forall>p \<in> set ms - {i}. nextIndex (node c' i) p \<le> length (n_log (node c i))) \<and>
    leads ms c' i (currentTerm (node c i)) (n_log (node c i) @
      [\<lparr>l_Index = length (n_log (node c i)), l_Term = currentTerm (node c i), l_Data = data\<rparr>])"
proof -
  let ?n = "node c i"
  let ?L = "n_log ?n @ [\<lparr>l_Index = length (n_log ?n), l_Term = currentTerm ?n, l_Data = data\<rparr>]"
  note base = safe_invD(1) [OF reachable_safe_inv [OF reach]]
  have ok: "node_log_ok c i"
    using log_invD(1) [OF base_invD(3) [OF base] i(1)] .
  then have ix: "indexed (n_log ?n)" "n_log ?n \<noteq> []"
    using good_logD(1,2) by (auto simp: node_log_ok_def)
  have "lastLogIndexLocked ?n = Some (length (n_log ?n) - 1)" "u64 (length (n_log ?n) - 1 + 1) = length (n_log ?n)"
    using i(3) ix(2) by (simp_all add: lastLog_eq(1) indexed_last [OF ix(1)])
  then have "Propose ?n data = Some (persistStateLocked (?n\<lparr>n_log := ?L\<rparr>), length (n_log ?n), currentTerm ?n, True)"
    using i(2) unfolding Propose_def Let_def by simp
  from live_propose [OF i(1,3) this] obtain c' where
    c': "live_step ms c c'" "node c' = (node c)(i := persistStateLocked (?n\<lparr>n_log := ?L\<rparr>))"
    by fastforce
  have "set (peerIDs ?n) = set ms - {i}"
    using member_fields(5) [OF base_invD(1) [OF base] i(1)] .
  then have "\<forall>p \<in> set ms - {i}. nextIndex ?n p \<le> length (n_log ?n)"
    using ok i(2) unfolding node_log_ok_def by blast
  moreover have "leads ms c' i (currentTerm ?n) ?L"
    using reachable_live_step [OF reach c'(1)] c'(2) i top ix(2) by (simp add: leads_def Suc_le_eq)
  ultimately show ?thesis
    using c' by (intro exI [of _ c']) simp
qed

lemma command_committed:
  assumes "reachable ms c" and "ms \<noteq> []"
    and "\<forall>i \<in> set ms. currentTerm (node c i) + 2 < 2 ^ 64 \<and> length (n_log (node c i)) < 2 ^ 63"
  shows "\<exists>c' i. (live_step ms)\<^sup>*\<^sup>* c c' \<and> i \<in> set ms \<and> n_role (node c' i) = Leader \<and>
    n_log (node c' i) = n_log (node c i) @
      [\<lparr>l_Index = length (n_log (node c i)), l_Term = currentTerm (node c' i), l_Data = data\<rparr>] \<and>
    (\<forall>j \<in> set ms. length (n_log (node c i)) \<le> commitIndex (node c' j) \<and>
       take (length (n_log (node c' i))) (n_log (node c' j)) = n_log (node c' i))"
proof -
  obtain c1 i where c1: "(live_step ms)\<^sup>*\<^sup>* c c1" "i \<in> set ms" "n_role (node c1 i) = Leader"
    "\<forall>j \<in> set ms. currentTerm (node c1 j) \<le> currentTerm (node c1 i)" "\<forall>k. n_log (node c1 k) = n_log (node c k)"
    using leader_emerges [OF assms(1,2)] assms(3) by blast
  let ?l = "length (n_log (node c i))" and ?t = "currentTerm (node c1 i)"
  let ?L = "n_log (node c i) @ [\<lparr>l_Index = ?l, l_Term = ?t, l_Data = data\<rparr>]"
  have log1: "n_log (node c1 i) = n_log (node c i)" and len: "length (n_log (node c1 i)) < 2 ^ 63"
    using c1(2,5) assms(3) by simp_all
  from propose_step [OF reachable_live [OF c1(1) assms(1)] c1(2,3) len c1(4), of data] obtain c2 where
    c2: "live_step ms c1 c2" "\<forall>p \<in> set ms - {i}. nextIndex (node c2 i) p \<le> ?l" "leads ms c2 i ?t ?L"
    unfolding log1 by blast
  then have "\<forall>p \<in> set ms - {i}. nextIndex (node c2 i) p < length ?L"
    by (simp add: le_imp_less_Suc)
  from leader_commits [OF c2(3) _ this] obtain c3 where c3: "(live_step ms)\<^sup>*\<^sup>* c2 c3" "leads ms c3 i ?t ?L"
    "commitIndex (node c3 i) = length ?L - 1"
    "\<forall>p \<in> set ms - {i}. nextIndex (node c3 i) p = length ?L \<and> take (length ?L) (n_log (node c3 p)) = ?L"
    by auto
  note l3 = leadsD [OF c3(2)]
  let ?ps = "peerIDs (node c3 i)"
  have ps: "distinct ?ps" "set ?ps \<subseteq> set ms - {i}"
    using member_fields(4) [OF reachable_members_ok [OF l3(1)] l3(2)] l3(10) by simp_all
  have "\<forall>p \<in> set ?ps. nextIndex (node c3 i) p = length ?L \<and> take (length ?L) (n_log (node c3 p)) = ?L"
    using c3(4) ps(2) by blast
  from peers_learn [OF c3(2,3) ps this] obtain c4 where c4: "(live_step ms)\<^sup>*\<^sup>* c3 c4" "node c4 i = node c3 i"
    "\<forall>p \<in> set ?ps. length ?L - 1 \<le> commitIndex (node c4 p) \<and> take (length ?L) (n_log (node c4 p)) = ?L"
    by blast
  have "(live_step ms)\<^sup>*\<^sup>* c c4"
    using c1(1) c2(1) c3(1) c4(1) by (meson rtranclp.rtrancl_into_rtrancl rtranclp_trans)
  moreover have "?l \<le> commitIndex (node c4 j) \<and> take (length ?L) (n_log (node c4 j)) = ?L" if "j \<in> set ms" for j
    using c4(2,3) c3(3) l3(5,10) that by (cases "j = i") auto
  ultimately show ?thesis
    using l3(2-5) c4(2) by (intro exI [of _ c4] exI [of _ i]) (simp del: length_append)
qed

section \<open>Properties\<close>

text \<open>Property C6. A cluster with its timers can make progress: take any reachable state of the cluster in which
  every member that does not lead has an armed election timer (as after a start; \<open>election_timer_kept\<close> tells the one event that breaks
  this), whatever was lost, reordered or restarted before, and any command. Then there is a continuation, in which nodes stand for election
  only when their timers fire, such that some member leads, the command is appended to its log, every
  member has the leader's whole log and has committed it, and again every member that does not lead has an
  armed timer. So no such state that elections, conflicts and failures can lead to is a dead end, as long
  as the numbers stay in range.\<close>

theorem cluster_can_progress:
  assumes "timed_reachable ms (c, a)" and "ms \<noteq> []"
    and "\<forall>i \<in> set ms. n_role (node c i) \<noteq> Leader \<longrightarrow> a i"
    and "\<forall>i \<in> set ms. currentTerm (node c i) + 2 < 2 ^ 64 \<and> length (n_log (node c i)) < 2 ^ 63"
  shows "\<exists>c' a' i. (timed_step ms)\<^sup>*\<^sup>* (c, a) (c', a') \<and> i \<in> set ms \<and> n_role (node c' i) = Leader \<and>
    n_log (node c' i) = n_log (node c i) @
      [\<lparr>l_Index = length (n_log (node c i)), l_Term = currentTerm (node c' i), l_Data = data\<rparr>] \<and>
    (\<forall>j \<in> set ms. length (n_log (node c i)) \<le> commitIndex (node c' j) \<and>
       take (length (n_log (node c' i))) (n_log (node c' j)) = n_log (node c' i)) \<and>
    (\<forall>j \<in> set ms. n_role (node c' j) \<noteq> Leader \<longrightarrow> a' j)"
proof -
  have reach: "reachable ms c"
    using timed_reachable_cluster [OF assms(1)] by simp
  have w: "watched ms c a"
    using assms(3) by (simp add: watched_def watchful_def)
  obtain c' i where c': "(live_step ms)\<^sup>*\<^sup>* c c'" "i \<in> set ms" "n_role (node c' i) = Leader"
    "n_log (node c' i) = n_log (node c i) @
      [\<lparr>l_Index = length (n_log (node c i)), l_Term = currentTerm (node c' i), l_Data = data\<rparr>]"
    "\<forall>j \<in> set ms. length (n_log (node c i)) \<le> commitIndex (node c' j) \<and>
       take (length (n_log (node c' i))) (n_log (node c' j)) = n_log (node c' i)"
    using command_committed [OF reach assms(2,4)] by blast
  from live_steps_timed [OF c'(1) w] obtain a' where a': "(timed_step ms)\<^sup>*\<^sup>* (c, a) (c', a')" "watched ms c' a'"
    by blast
  then have "\<forall>j \<in> set ms. n_role (node c' j) \<noteq> Leader \<longrightarrow> a' j"
    by (simp add: watched_def watchful_def)
  with c'(2-5) a'(1) show ?thesis by blast
qed

theorem cluster_can_progress_witness:
  "\<exists>c c' a' i. initial [''a'', ''b''] c \<and> (timed_step [''a'', ''b''])\<^sup>*\<^sup>* (c, \<lambda>_. True) (c', a') \<and>
     i \<in> {''a'', ''b''} \<and> n_role (node c' i) = Leader \<and> l_Data (last (n_log (node c' i))) = [7] \<and>
     1 \<le> commitIndex (node c' ''a'') \<and> 1 \<le> commitIndex (node c' ''b'')"
proof -
  let ?ms = "[''a'', ''b'']"
  obtain c where c: "initial ?ms c" "\<forall>i \<in> set ?ms. currentTerm (node c i) = 0 \<and> length (n_log (node c i)) = 1"
  proof
    show "\<forall>i \<in> set ?ms. currentTerm (node demo_init i) = 0 \<and> length (n_log (node demo_init i)) = 1"
      by (simp add: demo_init_def demo_fields)
  qed (rule demo_initial)
  then have r: "timed_reachable ?ms (c, \<lambda>_. True)" "?ms \<noteq> []" "\<forall>i \<in> set ?ms. n_role (node c i) \<noteq> Leader \<longrightarrow> (\<lambda>_. True) i"
    "\<forall>i \<in> set ?ms. currentTerm (node c i) + 2 < 2 ^ 64 \<and> length (n_log (node c i)) < 2 ^ 63"
    by (auto intro!: timed_reachable.start simp: node_Start_def)
  from cluster_can_progress [OF r, of "[7]"] obtain c' a' i where c':
    "(timed_step ?ms)\<^sup>*\<^sup>* (c, \<lambda>_. True) (c', a')" "i \<in> set ?ms" "n_role (node c' i) = Leader"
    "n_log (node c' i) = n_log (node c i) @ [\<lparr>l_Index = length (n_log (node c i)), l_Term = currentTerm (node c' i), l_Data = [7]\<rparr>]"
    "\<forall>j \<in> set ?ms. length (n_log (node c i)) \<le> commitIndex (node c' j)"
    by blast
  have "length (n_log (node c i)) = 1" "\<forall>j \<in> set ?ms. 1 \<le> commitIndex (node c' j)"
    using c(2) c'(2,5) by fastforce+
  with c(1) c'(1-4) show ?thesis
    by (intro exI [of _ c] exI [of _ c'] exI [of _ a'] exI [of _ i]) simp
qed

end
