(* ===== verification/Heartbeats.thy ===== *)
theory Heartbeats
  imports Timers
begin

text \<open>
  The event loop of a node (\<open>runEventLoop\<close>, \<open>checkTimers\<close> of \<open>node.go\<close>) over time: it
  wakes up again and again and sends heartbeats when the last ones are
  \<open>HeartbeatInterval\<close> ago. Times are nanoseconds. The loop is a function of the
  moments at which it wakes up and of the node it finds then; \<open>delta\<close> bounds the distance of
  two moments (10 ms of sleep and the scheduling), \<open>latency\<close> the time until a heartbeat
  has reset the follower's election timer.
\<close>

section \<open>The loop\<close>

text \<open>The heartbeats sent, with their moment and term, until the context is done.\<close>

fun runEventLoop :: "int \<Rightarrow> (int \<times> Node) list \<Rightarrow> (int \<times> nat) list" where
  "runEventLoop lastHeartbeat [] = []"
| "runEventLoop lastHeartbeat ((timeNow, n) # ticks) =
     (case checkTimers n lastHeartbeat timeNow of
        (lastHeartbeat', None) \<Rightarrow> runEventLoop lastHeartbeat' ticks
      | (lastHeartbeat', Some term) \<Rightarrow> (timeNow, term) # runEventLoop lastHeartbeat' ticks)"

definition steady_ticks :: "int \<Rightarrow> int list \<Rightarrow> bool" where
  "steady_ticks delta ts \<longleftrightarrow> successively (\<lambda>a b. a < b \<and> b - a \<le> delta) ts"

text \<open>The node leads the term \<open>t\<close> with the configuration \<open>cfg\<close> whenever the loop wakes up.\<close>

definition leads_term :: "Config \<Rightarrow> nat \<Rightarrow> (int \<times> Node) list \<Rightarrow> bool" where
  "leads_term cfg t ticks \<longleftrightarrow> (\<forall>(now, n) \<in> set ticks. n_role n = Leader \<and> currentTerm n = t \<and> n_cfg n = cfg)"

section \<open>The distance of heartbeats\<close>

lemma heartbeat_gaps:
  assumes "leads_term cfg t ticks" "steady_ticks delta (p # map fst ticks)" "h \<le> p" "p - h < HeartbeatInterval cfg"
  shows "successively (\<lambda>a b. HeartbeatInterval cfg \<le> b - a \<and> b - a < HeartbeatInterval cfg + delta)
      (h # map fst (runEventLoop h ticks)) \<and>
    last (p # map fst ticks) - last (h # map fst (runEventLoop h ticks)) < HeartbeatInterval cfg \<and>
    set (map snd (runEventLoop h ticks)) \<subseteq> {t}"
  using assms
proof (induction h ticks arbitrary: p rule: runEventLoop.induct)
  case (2 h now n ticks)
  have now: "p < now" "now - p \<le> delta" "steady_ticks delta (now # map fst ticks)"
    using "2.prems"(2) by (simp_all add: steady_ticks_def)
  have n: "n_role n = Leader" "currentTerm n = t" "n_cfg n = cfg" "leads_term cfg t ticks"
    using "2.prems"(1) by (auto simp: leads_term_def)
  show ?case
  proof (cases "HeartbeatInterval cfg \<le> now - h")
    case True
    then have "checkTimers n h now = (now, Some t)"
      using n by (simp add: checkTimers_def)
    moreover have "0 < HeartbeatInterval cfg"
      using "2.prems"(3,4) by linarith
    ultimately show ?thesis
      using "2.IH"(2) [OF _ refl n(4) now(3)] True now(2) "2.prems"(4) by auto
  next
    case False
    then have "checkTimers n h now = (h, None)"
      using n by (simp add: checkTimers_def)
    with "2.IH"(1) [OF _ refl n(4) now(3)] False now(1) "2.prems"(3) show ?thesis
      by auto
  qed
qed simp

lemma arrivals_close:
  fixes d latency :: int
  assumes "successively (\<lambda>a b. b - a < d) hs" "list_all2 (\<lambda>h a. h \<le> a \<and> a \<le> h + latency) hs as"
  shows "successively (\<lambda>a b. b - a < d + latency) as"
  using assms
proof (induction hs arbitrary: as rule: induct_list012)
  case (3 h h' hs)
  then obtain a a' as' where as: "as = a # a' # as'" "a' \<le> h' + latency" "h \<le> a"
    "list_all2 (\<lambda>h a. h \<le> a \<and> a \<le> h + latency) (h' # hs) (a' # as')"
    by (auto simp: list_all2_Cons1)
  with 3 show ?case by auto
qed (auto simp: list_all2_Cons1)
section \<open>Properties\<close>

text \<open>Property C17. Heartbeats come in time: for a valid configuration (whose three heartbeat intervals do not overflow), while a node
  leads a term and its event loop wakes up at least every \<open>delta\<close>, the heartbeats are all for this term, and if
  sending, receiving and waking up together are faster than two heartbeat intervals less a
  millisecond, every heartbeat reaches a follower before the election timer that the previous one armed, with whatever
  random timeout, has run out. This is what the factor 3 of \<open>Validate\<close> is for.\<close>

theorem heartbeats_prevent_elections:
  assumes "Validate cfg = None" and "HeartbeatInterval cfg * 3 < 2 ^ 63"
    and "leads_term cfg t ticks" and "steady_ticks delta (elected_at # map fst ticks)"
    and "delta + latency + Millisecond \<le> 2 * HeartbeatInterval cfg"
    and "list_all2 (\<lambda>h a. h \<le> a \<and> a \<le> h + latency) (elected_at # map fst (runEventLoop elected_at ticks)) arrivals"
    and "n_cfg follower = cfg" and "0 \<le> r" and "r < election_range cfg"
  shows "\<exists>ms. resetElectionTimerLocked follower r = Some ms \<and>
    successively (\<lambda>a b. b - a < ms * Millisecond) arrivals \<and>
    set (map snd (runEventLoop elected_at ticks)) \<subseteq> {t} \<and>
    last (elected_at # map fst ticks) - last (elected_at # map fst (runEventLoop elected_at ticks)) < HeartbeatInterval cfg"
proof -
  have hb: "0 < HeartbeatInterval cfg" "wrap64 (HeartbeatInterval cfg * 3) \<le> ElectionTimeoutMin cfg"
    using assms(1) by (auto simp: Validate_def split: if_splits)
  then have lo: "HeartbeatInterval cfg * 3 \<le> ElectionTimeoutMin cfg"
    using assms(2) by (simp add: wrap64_def)
  obtain ms where ms: "resetElectionTimerLocked follower r = Some ms" "ElectionTimeoutMin cfg - Millisecond < ms * Millisecond"
    using election_timeout_range [of follower r] assms(1,7,8,9) by auto
  note gaps = heartbeat_gaps [OF assms(3,4) order_refl]
  have "successively (\<lambda>a b. b - a < HeartbeatInterval cfg + delta) (elected_at # map fst (runEventLoop elected_at ticks))"
    using gaps hb(1) by (auto elim: successively_mono)
  from arrivals_close [OF this assms(6)]
  have "successively (\<lambda>a b. b - a < ms * Millisecond) arrivals"
    by (rule successively_mono) (use lo ms(2) assms(5) in linarith)
  with ms(1) gaps hb(1) show ?thesis
    by simp
qed

text \<open>The default configuration: 50 ms, and a loop that wakes up every 10 ms.\<close>

theorem heartbeats_prevent_elections_witness:
  "runEventLoop 0 (map (\<lambda>k. (k * 10 * Millisecond, (fresh_node (DefaultConfig\<lparr>NodeID := ''a'', ListenAddr := '':1'', Peers := [''b''],
       DataDir := ''d''\<rparr>) [''b''] 8 [])\<lparr>n_role := Leader, currentTerm := 3\<rparr>)) [1, 2, 3, 4, 5, 6]) = [(50 * Millisecond, 3)] \<and>
   (\<exists>ms. resetElectionTimerLocked (fresh_node (DefaultConfig\<lparr>NodeID := ''a'', ListenAddr := '':1'', Peers := [''b''],
       DataDir := ''d''\<rparr>) [''a''] 8 []) 0 = Some ms \<and> 80 * Millisecond - 2 * Millisecond < ms * Millisecond)"
proof -
  let ?c = "DefaultConfig\<lparr>NodeID := ''a'', ListenAddr := '':1'', Peers := [''b''], DataDir := ''d''\<rparr>"
  let ?n = "(fresh_node ?c [''b''] 8 [])\<lparr>n_role := Leader, currentTerm := 3\<rparr>"
  let ?ticks = "map (\<lambda>k. (k * 10 * Millisecond, ?n)) [1, 2, 3, 4, 5, 6]"
  have c: "Validate ?c = None" "HeartbeatInterval ?c = 50 * Millisecond" "ElectionTimeoutMin ?c = 150 * Millisecond"
      "ElectionTimeoutMax ?c = 300 * Millisecond"
    by (simp_all add: Validate_def DefaultConfig_def Millisecond_def wrap64_def)
  have n: "n_role ?n = Leader" "currentTerm ?n = 3" "n_cfg ?n = ?c"
    by (simp_all add: fresh_node_def)
  have run: "runEventLoop 0 ?ticks = [(50 * Millisecond, 3)]"
    using n by (simp add: checkTimers_def c(2) Millisecond_def)
  have "leads_term ?c 3 ?ticks"
    using n by (simp add: leads_term_def)
  moreover have "steady_ticks (10 * Millisecond) (0 # map fst ?ticks)"
    by (simp add: steady_ticks_def Millisecond_def)
  moreover have "list_all2 (\<lambda>h a. h \<le> a \<and> a \<le> h + 80 * Millisecond) (0 # map fst (runEventLoop 0 ?ticks))
      [2 * Millisecond, 80 * Millisecond]"
    unfolding run by (simp add: Millisecond_def)
  moreover have "n_cfg (fresh_node ?c [''a''] 8 []) = ?c" "election_range ?c = 151"
    by (simp_all add: fresh_node_def election_range_def c(3,4) Millisecond_def)
  ultimately show ?thesis
    using heartbeats_prevent_elections [of ?c 3 ?ticks "10 * Millisecond" 0 "80 * Millisecond" "[2 * Millisecond, 80 * Millisecond]"
        "fresh_node ?c [''a''] 8 []" 0] run c(1,2) by (auto simp: Millisecond_def)
qed

end
