(* ===== verification/StorageTest.thy ===== *)
theory StorageTest
  imports StateMachine
begin

text \<open>
  The storage self test of the server program (\<open>runStorageTest\<close> of \<open>cmd/server/main.go\<close>): it writes
  numbered keys, reads all of them back, counts missing and wrong ones, deletes three keys
  and checks that they are gone; with \<open>-verify-only\<close> it only reads. The printed output is the
  record \<open>TestReport\<close>. The environment of the \<open>i\<close>-th write is \<open>env i\<close>; progress
  messages, timings and the signal handler are left out, and no tick of the compactor falls
  into the test.
\<close>

section \<open>Keys and values\<close>

text \<open>\<open>%04d\<close> and \<open>%06d\<close> of a non-negative number.\<close>

definition decimal_pad :: "nat \<Rightarrow> nat \<Rightarrow> string" where
  "decimal_pad w n = replicate (w - length (decimal n)) (CHR ''0'') @ decimal n"

definition test_key :: "nat \<Rightarrow> bytes" where
  "test_key i = string_bytes (''key_'' @ decimal_pad 4 i)"

definition test_value :: "nat \<Rightarrow> bytes" where
  "test_value i = string_bytes (''value_'' @ decimal_pad 4 i)"

definition deleted_keys :: "bytes list" where
  "deleted_keys = map string_bytes [''key_0000'', ''key_0001'', ''key_0002'']"

section \<open>The test\<close>

record TestReport =
  missingCount :: nat
  wrongCount :: nat
  passed :: bool
  afterDelete :: "(eng_error, bytes) outcome list"

text \<open>The write loop; an error ends the program with exit code 1.\<close>

fun write_keys :: "Engine \<Rightarrow> (nat \<Rightarrow> Env) \<Rightarrow> nat list \<Rightarrow> (eng_error, Engine) outcome" where
  "write_keys e env [] = Ok e"
| "write_keys e env (i # is) =
     (case engine_Put e (test_key i) (Some (test_value i)) (env i) of
        (e', Ok _) \<Rightarrow> write_keys e' env is
      | (e', Err x) \<Rightarrow> Err x
      | (e', Panic) \<Rightarrow> Panic)"

text \<open>The read loop, on the counters of missing and wrong keys; \<open>None\<close> is a panic.\<close>

fun verify_keys :: "Engine \<Rightarrow> bool \<Rightarrow> nat list \<Rightarrow> nat \<times> nat \<Rightarrow> (nat \<times> nat) option" where
  "verify_keys e verifyOnly [] (missing, wrong) = Some (missing, wrong)"
| "verify_keys e verifyOnly (i # is) (missing, wrong) =
     (if verifyOnly \<and> test_key i \<in> set deleted_keys then verify_keys e verifyOnly is (missing, wrong)
      else
        (case engine_Get e (test_key i) of
           Err x \<Rightarrow> verify_keys e verifyOnly is (missing + 1, wrong)
         | Panic \<Rightarrow> None
         | Ok v \<Rightarrow> verify_keys e verifyOnly is (missing, if v \<noteq> test_value i then wrong + 1 else wrong)))"

text \<open>The deletes, from the environment number \<open>j\<close> on; an error is logged only.\<close>

fun delete_keys :: "Engine \<Rightarrow> (nat \<Rightarrow> Env) \<Rightarrow> nat \<Rightarrow> bytes list \<Rightarrow> Engine option" where
  "delete_keys e env j [] = Some e"
| "delete_keys e env j (k # ks) =
     (case engine_Delete e k (env j) of (e', Panic) \<Rightarrow> None | (e', _) \<Rightarrow> delete_keys e' env (Suc j) ks)"

definition runStorageTest ::
  "fs \<Rightarrow> (nat \<Rightarrow> nat \<Rightarrow> bool) \<Rightarrow> OpenFaults \<Rightarrow> bool \<Rightarrow> int \<Rightarrow> (nat \<Rightarrow> Env)
    \<Rightarrow> (eng_error, Engine \<times> TestReport) outcome" where
  "runStorageTest d rnds io verifyOnly numKeys env =
     (let keys = [0..<nat numKeys]
      in case engine_Open rnds d io of
           Err x \<Rightarrow> Err x
         | Panic \<Rightarrow> Panic
         | Ok e0 \<Rightarrow>
             (case (if verifyOnly then Ok e0 else write_keys e0 env keys) of
                Err x \<Rightarrow> Err x
              | Panic \<Rightarrow> Panic
              | Ok e1 \<Rightarrow>
                  (case verify_keys e1 verifyOnly keys (0, 0) of
                     None \<Rightarrow> Panic
                   | Some (missing, wrong) \<Rightarrow>
                       (case (if verifyOnly then Some e1 else delete_keys e1 env (nat numKeys) deleted_keys) of
                          None \<Rightarrow> Panic
                        | Some e2 \<Rightarrow>
                            let report = \<lparr>missingCount = missing, wrongCount = wrong, passed = (missing = 0 \<and> wrong = 0),
                                  afterDelete = (if verifyOnly then [] else map (engine_Get e2) deleted_keys)\<rparr>
                            in if Panic \<in> set (afterDelete report) then Panic
                               else
                                 (case engine_Close e2 (env (nat numKeys + 3)) of
                                    (e3, Panic) \<Rightarrow> Panic
                                  | (e3, _) \<Rightarrow> Ok (e3, report))))))"

section \<open>Lemmas: keys\<close>

lemma decimal_pad_inj: "decimal_pad w n = decimal_pad w m \<Longrightarrow> n = m"
proof -
  have "foldl (\<lambda>a c. a * 10 + (of_char c - 48)) 0 (replicate k (CHR ''0'') @ s) =
      foldl (\<lambda>a c. a * 10 + (of_char c - 48)) (0 :: nat) s" for k s
    by (induction k) simp_all
  then have "foldl (\<lambda>a c. a * 10 + (of_char c - 48)) 0 (decimal_pad w n) = n" for n
    by (simp only: decimal_pad_def decimal_value)
  then show "decimal_pad w n = decimal_pad w m \<Longrightarrow> n = m"
    by metis
qed

lemma string_bytes_inj: "string_bytes s = string_bytes t \<Longrightarrow> s = t"
proof -
  have "char_of (unat (of_nat (of_char c) :: byte)) = c" for c :: char
    by (simp add: unat_byte_of_nat)
  then have "map (\<lambda>b. char_of (unat b)) (string_bytes s) = s" for s
    by (induction s) (simp_all add: string_bytes_def)
  then show "string_bytes s = string_bytes t \<Longrightarrow> s = t"
    by metis
qed

lemma test_key_inj [simp]: "test_key i = test_key j \<longleftrightarrow> i = j"
  using string_bytes_inj decimal_pad_inj by (fastforce simp: test_key_def)

lemma length_decimal_pad: "n < 2 ^ 63 \<Longrightarrow> w \<le> 19 \<Longrightarrow> length (decimal_pad w n) \<le> 19"
  using length_decimal [of n 19] by (simp add: decimal_pad_def)

lemma test_key_plain: "i < 2 ^ 63 \<Longrightarrow> plain_key (test_key i) \<and> length (test_key i) < 65529"
  using length_decimal_pad [of i 4] by (simp add: plain_key_def test_key_def string_bytes_def)

lemma test_value_small: "i < 2 ^ 63 \<Longrightarrow> length (test_value i) < 2 ^ 32 \<and> test_value i \<noteq> []"
  using length_decimal_pad [of i 4] by (simp add: test_value_def string_bytes_def)

lemma deleted_keys_eq: "deleted_keys = [test_key 0, test_key 1, test_key 2]"
  by code_simp

section \<open>Lemmas: a run with a clock\<close>

text \<open>With a clock that moves on between writes, no flush meets an existing table, and every run
  is one the engine's contract covers.\<close>

definition steady :: "nat \<Rightarrow> (command \<times> Env) list \<Rightarrow> bool" where
  "steady T cs \<longleftrightarrow> sorted_wrt (\<lambda>a b. now (snd a) < now (snd b)) cs \<and> (\<forall>(c, env) \<in> set cs.
     T \<le> now env \<and> wal_fault env = NoFault \<and> flush_fault env = SstNoFault \<and> plain_key (cmd_key c) \<and>
     (case c of CmdPut k v \<Rightarrow> small_value v | CmdDelete k \<Rightarrow> True))"

definition tables_before :: "nat \<Rightarrow> Engine \<Rightarrow> bool" where
  "tables_before T e \<longleftrightarrow> r_path ` set (sstables e) \<subseteq> table_name ` {..<T}"

lemma steady_Cons:
  "steady T ((c, env) # cs) \<longleftrightarrow> T \<le> now env \<and> wal_fault env = NoFault \<and> flush_fault env = SstNoFault \<and> plain_key (cmd_key c) \<and>
     (case c of CmdPut k v \<Rightarrow> small_value v | CmdDelete k \<Rightarrow> True) \<and> steady (Suc (now env)) cs"
  by (auto simp: steady_def Suc_le_eq)

lemma put_paths:
  "r_path ` set (sstables (fst (engine_Put e k v env))) \<subseteq> insert (table_name (now env)) (r_path ` set (sstables e))"
  using flush_paths [of "e\<lparr>disk := d, e_mem := m\<rparr>" env for d m]
  by (auto simp: engine_Put_def split: prod.split outcome.split option.split)

lemma delete_paths:
  "r_path ` set (sstables (fst (engine_Delete e k env))) \<subseteq> insert (table_name (now env)) (r_path ` set (sstables e))"
  using flush_paths [of "e\<lparr>disk := d, e_mem := m\<rparr>" env for d m]
  by (auto simp: engine_Delete_def split: prod.split outcome.split option.split)

lemma steady_good_run:
  "tables_before T e \<Longrightarrow> steady T cs \<Longrightarrow> eng.good_run e cs"
proof (induction cs arbitrary: T e)
  case (Cons x cs)
  obtain c env where x: "x = (c, env)" by (cases x)
  note st = Cons.prems(2) [unfolded x steady_Cons]
  have "table_name (now env) \<notin> table_name ` {..<T}"
    using st by (auto dest: table_name_inj)
  then have "table_name (now env) \<notin> r_path ` set (sstables e)"
    using Cons.prems(1) by (auto simp: tables_before_def)
  then have q: "quiet e env"
    using st by (simp add: quiet_def)
  have tb: "tables_before (Suc (now env)) e'"
    if "r_path ` set (sstables e') \<subseteq> insert (table_name (now env)) (r_path ` set (sstables e))" for e'
  proof -
    have "table_name ` {..<T} \<subseteq> table_name ` {..<Suc (now env)}"
      using st by (intro image_mono) auto
    with that Cons.prems(1) show ?thesis
      unfolding tables_before_def by blast
  qed
  show ?case
    using q st Cons.IH [OF tb [OF put_paths]] Cons.IH [OF tb [OF delete_paths]]
    by (cases c) (simp_all add: x)
qed simp

text \<open>The loops of the test are runs of commands; the write loop writes numbered keys.\<close>

definition numbered_puts ::
  "(nat \<Rightarrow> bytes) \<Rightarrow> (nat \<Rightarrow> bytes) \<Rightarrow> (nat \<Rightarrow> Env) \<Rightarrow> nat list \<Rightarrow> (command \<times> Env) list" where
  "numbered_puts key val env is = map (\<lambda>i. (CmdPut (key i) (val i), env i)) is"

abbreviation test_puts :: "(nat \<Rightarrow> Env) \<Rightarrow> nat list \<Rightarrow> (command \<times> Env) list" where
  "test_puts \<equiv> numbered_puts test_key test_value"

definition test_deletes :: "(nat \<Rightarrow> Env) \<Rightarrow> nat \<Rightarrow> (command \<times> Env) list" where
  "test_deletes env n = map (\<lambda>j. (CmdDelete (test_key j), env (n + j))) [0, 1, 2]"

lemma write_keys_exec: "eng.exec e (test_puts env is) = Some e' \<Longrightarrow> write_keys e env is = Ok e'"
  by (induction "is" arbitrary: e) (auto simp: numbered_puts_def split: prod.splits outcome.splits)

lemma delete_keys_exec: "eng.exec e (test_deletes env n) = Some e' \<Longrightarrow> delete_keys e env n deleted_keys = Some e'"
  by (auto simp: test_deletes_def deleted_keys_eq split: prod.splits outcome.splits)

lemma verify_keys_all:
  "(\<And>i. i \<in> set is \<Longrightarrow> verifyOnly \<and> test_key i \<in> set deleted_keys \<or> engine_Get e (test_key i) = Ok (test_value i)) \<Longrightarrow>
    verify_keys e verifyOnly is (m, w) = Some (m, w)"
proof (induction "is")
  case (Cons i "is")
  then have "verifyOnly \<and> test_key i \<in> set deleted_keys \<or> engine_Get e (test_key i) = Ok (test_value i)"
    "verify_keys e verifyOnly is (m, w) = Some (m, w)"
    by simp_all
  then show ?case by auto
qed simp

lemma last_command_append:
  "last_command k (xs @ ys) = (case last_command k ys of None \<Rightarrow> last_command k xs | Some c \<Rightarrow> Some c)"
  by (induction xs) (auto simp: last_command_simps split: option.split)

lemma last_command_numbered:
  assumes "inj key"
  shows "last_command (key i) (map fst (numbered_puts key val env is)) =
    (if i \<in> set is then Some (CmdPut (key i) (val i)) else None)"
  using assms by (induction "is") (auto simp: numbered_puts_def last_command_simps cmd_key_def inj_eq)

lemma test_key_injective: "inj test_key"
  by (simp add: inj_def)

lemmas last_command_puts = last_command_numbered [OF test_key_injective]

lemma last_command_deletes:
  "last_command (test_key i) (map fst (test_deletes env n)) = (if i \<in> {0, 1, 2} then Some (CmdDelete (test_key i)) else None)"
  by (simp add: test_deletes_def last_command_simps cmd_key_def)

lemma engine_Close_total:
  assumes "mem_rep (e_mem e) es w"
  shows "\<exists>e' r. engine_Close e env = (e', r) \<and> r \<noteq> Panic"
proof -
  obtain d x where w: "WriteSSTable (disk e) es (table_name (now env)) (flush_fault env) = (d, x)"
    by fastforce
  have "x \<noteq> Panic"
    using arg_cong [OF w, of snd] by (auto simp: WriteSSTable_eq Let_def split: if_splits sst_fault.splits)
  with w have "\<exists>e1. close_flush (e\<lparr>ctx_done := True\<rparr>) env = Some e1"
    using mem_Entries_rep [OF assms] by (cases x) (auto simp: close_flush_def)
  then show ?thesis
    by (auto simp: engine_Close_def wal_Close_def)
qed

lemma engine_inv_mem: "engine_inv e \<Longrightarrow> \<exists>es w. mem_rep (e_mem e) es w"
  by (auto simp: engine_inv_def engine_rep_def)

text \<open>The log record of a command, and acknowledged runs as histories.\<close>

definition cmd_record :: "command \<Rightarrow> WALRecord" where
  "cmd_record c = (case c of
     CmdPut k v \<Rightarrow> \<lparr>rec_Op = OpPut, rec_Key = k, rec_Value = Some v\<rparr>
   | CmdDelete k \<Rightarrow> \<lparr>rec_Op = OpDelete, rec_Key = k, rec_Value = None\<rparr>)"

lemma exec_served:
  "served e rs \<Longrightarrow> eng.exec e cs = Some e' \<Longrightarrow> \<forall>(c, env) \<in> set cs. rec_fits (cmd_record c) \<Longrightarrow>
    served e' (rs @ map (cmd_record \<circ> fst) cs)"
proof (induction e cs arbitrary: rs rule: eng.exec.induct)
  case (2 e c env cs)
  have "\<exists>e1. (case c of CmdPut k v \<Rightarrow> engine_Put e k (Some v) env | CmdDelete k \<Rightarrow> engine_Delete e k env) = (e1, Ok ()) \<and>
      eng.exec e1 cs = Some e'"
    using "2.prems"(2) by (auto split: prod.splits outcome.splits)
  then obtain e1 where e1: "(case c of CmdPut k v \<Rightarrow> engine_Put e k (Some v) env | CmdDelete k \<Rightarrow> engine_Delete e k env) = (e1, Ok ())"
      "eng.exec e1 cs = Some e'"
    by blast
  then have "served e1 (rs @ [cmd_record c])"
    using "2.prems"(1,3) by (cases c) (auto simp: cmd_record_def intro: served_put served_delete)
  from "2.IH" [OF e1(1) [symmetric] refl this e1(2)] "2.prems"(3) show ?case
    by simp
qed simp

lemma find_cmd_record:
  "find (\<lambda>r. rec_Key r = k) (rev (map (cmd_record \<circ> fst) cs)) = map_option cmd_record (last_command k (map fst cs))"
proof -
  have "find (\<lambda>r. rec_Key r = k) (map cmd_record xs) = map_option cmd_record (find (\<lambda>c. cmd_key c = k) xs)" for xs
    by (induction xs) (auto simp: cmd_record_def cmd_key_def split: command.split)
  from this [of "rev (map fst cs)"] show ?thesis
    by (simp add: last_command_def rev_map)
qed

text \<open>Tables are no larger than a full mem table allows.\<close>

definition small_tables :: "fs \<Rightarrow> bool" where
  "small_tables d \<longleftrightarrow> (\<forall>p f. filepath_Ext p = ''.sst'' \<longrightarrow> fs_read d p = Some f \<longrightarrow> length f \<le> 2 ^ 48)"

lemma length_sparse: "length (concat (map index_record (sparse i off es))) \<le> sum_list (map (\<lambda>e. 10 + entry_bytes e) es)"
proof (induction es arbitrary: i off)
  case (Cons e es)
  from Cons [of "i + 1" "off + length (sst_record e)"] show ?case
    by (auto simp: length_index_record entry_bytes_def)
qed simp

lemma length_sst_file: "length (sst_file es) \<le> 2 * sum_list (map entry_bytes es) + 17 * length es + 16"
proof -
  have "length (data_bytes es) = sum_list (map (\<lambda>e. 7 + entry_bytes e) es)"
    by (induction es) (simp_all add: data_bytes_def sst_record_def entry_bytes_def)
  then show ?thesis
    using length_sparse [of 0 0 es]
    by (simp add: sst_file_def write_entries_eq Let_def sum_list_addf sum_list_triv)
qed

lemma small_tables_write:
  assumes "small_tables d" "WriteSSTable d es p fault = (d', x)" "mem_rep m es w" "mem_Size m \<le> 2 ^ 40"
  shows "small_tables d'"
proof -
  have "int (length (sst_file es)) \<le> 2 * mem_Size m + 16"
    using length_sst_file [of es] mem_Size_rep [OF assms(3)] assms(3) by (simp add: mem_rep_def)
  then have "length (sst_file es) \<le> 2 ^ 48"
    using assms(4) by simp
  with assms(1,2) show ?thesis
    by (auto simp: small_tables_def WriteSSTable_eq Let_def update_conv' delete_conv' split: if_splits sst_fault.splits)
qed

lemma mem_write_size:
  assumes "mem_rep m es w" "mem_rep m' (put_entry x es) (Suc w)"
  shows "mem_Size m' \<le> mem_Size m + int (entry_bytes x) + 64"
proof -
  have "sum_list (map entry_bytes (put_entry x es)) \<le> entry_bytes x + sum_list (map entry_bytes es)"
    by (induction x es rule: put_entry.induct) auto
  then show ?thesis
    using mem_Size_rep [OF assms(1)] mem_Size_rep [OF assms(2)] by simp
qed

lemma small_tables_flush:
  assumes "small_tables (disk e)" "mem_rep (e_mem e) es w" "mem_Size (e_mem e) \<le> 2 ^ 40" "maybeFlushLocked e env = Some e'"
  shows "small_tables (disk e')"
  using assms small_tables_write [OF assms(1) _ assms(2,3)] mem_Entries_rep [OF assms(2)]
  by (auto simp: maybeFlushLocked_def flush_begin_def flush_end_def
      split: if_splits option.splits prod.splits outcome.splits)

lemma small_tables_log: "small_tables d \<Longrightarrow> small_tables (fs_write wal_name f d)"
  by (auto simp: small_tables_def update_conv')

lemma small_tables_put:
  assumes "engine_inv e" "quiet e env" "plain_key k" "small_value v" "small_tables (disk e)"
  shows "small_tables (disk (fst (engine_Put e k (Some v) env)))"
proof -
  obtain es w ts where rep: "engine_rep e es w ts" "mem_Size (e_mem e) < memTableMaxSize"
    using assms(1) by (auto simp: engine_inv_def)
  have mem: "mem_rep (e_mem e) es w"
    using rep(1) by (simp add: engine_rep_def)
  have k: "length k \<le> 65535" "k \<noteq> []"
    using assms(3) by (auto simp: plain_key_def)
  obtain c where ap: "wal_Append (disk e) (e_wal e) OpPut k (Some v) NoFault = (fs_write wal_name c (disk e), Ok ())"
    using append_ok [OF rep(1) k(1)] by blast
  obtain m where m: "mem_Put (e_mem e) k (Some v) (rnd env) = Some m"
      "mem_rep m (put_entry \<lparr>e_Key = k, e_Value = Some v, e_Op = OpPut\<rparr> es) (Suc w)"
    using mem_Put_rep [OF mem] by blast
  have "mem_Size m \<le> 2 ^ 40"
    using mem_write_size [OF mem m(2)] rep(2) k(1) assms(4) by (simp add: entry_bytes_def memTableMaxSize_def small_value_def)
  with small_tables_flush [of "e\<lparr>disk := fs_write wal_name c (disk e), e_mem := m\<rparr>" _ _ env] small_tables_log [OF assms(5)] m assms(2) k ap
  show ?thesis
    by (auto simp: engine_Put_def quiet_def split: option.split)
qed

lemma small_tables_delete:
  assumes "engine_inv e" "quiet e env" "plain_key k" "small_tables (disk e)"
  shows "small_tables (disk (fst (engine_Delete e k env)))"
proof -
  obtain es w ts where rep: "engine_rep e es w ts" "mem_Size (e_mem e) < memTableMaxSize"
    using assms(1) by (auto simp: engine_inv_def)
  have mem: "mem_rep (e_mem e) es w"
    using rep(1) by (simp add: engine_rep_def)
  have k: "length k \<le> 65535" "k \<noteq> []"
    using assms(3) by (auto simp: plain_key_def)
  obtain c where ap: "wal_Append (disk e) (e_wal e) OpDelete k None NoFault = (fs_write wal_name c (disk e), Ok ())"
    using append_ok [OF rep(1) k(1)] by blast
  obtain m where m: "mem_Delete (e_mem e) k (rnd env) = Some m"
      "mem_rep m (put_entry \<lparr>e_Key = k, e_Value = None, e_Op = OpDelete\<rparr> es) (Suc w)"
    using mem_Delete_rep [OF mem] by blast
  have "mem_Size m \<le> 2 ^ 40"
    using mem_write_size [OF mem m(2)] rep(2) k(1) by (simp add: entry_bytes_def memTableMaxSize_def)
  with small_tables_flush [of "e\<lparr>disk := fs_write wal_name c (disk e), e_mem := m\<rparr>" _ _ env] small_tables_log [OF assms(4)] m assms(2) k ap
  show ?thesis
    by (auto simp: engine_Delete_def quiet_def split: option.split)
qed

lemma exec_small_tables:
  "engine_inv e \<Longrightarrow> eng.good_run e cs \<Longrightarrow> small_tables (disk e) \<Longrightarrow> eng.exec e cs = Some e' \<Longrightarrow> small_tables (disk e')"
proof (induction e cs rule: eng.exec.induct)
  case (2 e c env cs)
  let ?r = "case c of CmdPut k v \<Rightarrow> engine_Put e k (Some v) env | CmdDelete k \<Rightarrow> engine_Delete e k env"
  have "\<exists>e1. ?r = (e1, Ok ()) \<and> engine_inv e1 \<and> eng.good_run e1 cs \<and> small_tables (disk e1)"
  proof (cases c)
    case (CmdPut k v)
    with "2.prems" eng.put_ok [of e env k v] small_tables_put [of e env k v] show ?thesis
      by (auto simp: cmd_key_def)
  next
    case (CmdDelete k)
    with "2.prems" eng.delete_ok [of e env k] small_tables_delete [of e env k] show ?thesis
      by (auto simp: cmd_key_def)
  qed
  then obtain e1 where e1: "?r = (e1, Ok ())" "engine_inv e1" "eng.good_run e1 cs" "small_tables (disk e1)"
    by blast
  from "2.IH" [OF e1(1) [symmetric] refl e1(2-4)] "2.prems"(4) e1(1) show ?case
    by simp
qed simp

lemma small_tables_close:
  assumes "engine_inv e" "small_tables (disk e)" "engine_Close e env = (e', r)" "r \<noteq> Panic"
  shows "small_tables (disk e')"
proof -
  obtain es w where mem: "mem_rep (e_mem e) es w" "mem_Size (e_mem e) \<le> 2 ^ 40"
    using assms(1) by (auto simp: engine_inv_def engine_rep_def memTableMaxSize_def)
  obtain e1 where e1: "close_flush (e\<lparr>ctx_done := True\<rparr>) env = Some e1" "disk e' = disk e1"
    using engine_Close_flush [OF assms(3,4)] by force
  then show ?thesis
    using assms(2) small_tables_write [OF assms(2) _ mem] mem_Entries_rep [OF mem(1)]
    by (auto simp: close_flush_def split: if_splits option.splits prod.splits outcome.splits)
qed

text \<open>The environments of the test.\<close>

definition benign_envs :: "(nat \<Rightarrow> Env) \<Rightarrow> bool" where
  "benign_envs env \<longleftrightarrow> strict_mono (\<lambda>i. now (env i)) \<and> (\<forall>i. wal_fault (env i) = NoFault \<and> flush_fault (env i) = SstNoFault)"

lemma benign_now: "benign_envs env \<Longrightarrow> now (env i) < now (env j) \<longleftrightarrow> i < j"
  using strict_mono_less [of "\<lambda>i. now (env i)"] by (simp add: benign_envs_def)

lemma steady_numbered:
  assumes "benign_envs env" "\<And>i. i < n \<Longrightarrow> plain_key (key i) \<and> small_value (val i)"
  shows "steady 0 (numbered_puts key val env [0..<n])"
  using assms by (auto simp: steady_def numbered_puts_def sorted_wrt_map benign_now cmd_key_def benign_envs_def)

lemma steady_test:
  assumes "benign_envs env" "n < 2 ^ 63"
  shows "steady 0 (test_puts env [0..<n] @ test_deletes env n)"
proof -
  have "steady 0 (test_puts env [0..<n])"
    using assms test_key_plain test_value_small by (intro steady_numbered) (auto simp: small_value_def)
  moreover have "plain_key (test_key i)" if "i \<in> {0, 1, 2}" for i
    using test_key_plain [of i] that by auto
  ultimately show ?thesis
    using assms(1)
    by (auto simp: steady_def sorted_wrt_append numbered_puts_def test_deletes_def benign_now [OF assms(1)] cmd_key_def benign_envs_def)
qed

text \<open>The writes, the reads and the deletes of the test on a new directory.\<close>

lemma test_on_new_directory:
  assumes "benign_envs env" "n < 2 ^ 63"
  obtains e1 e2 where "write_keys new_engine env [0..<n] = Ok e1" "verify_keys e1 False [0..<n] (0, 0) = Some (0, 0)"
    "delete_keys e1 env n deleted_keys = Some e2" "engine_inv e2" "map (engine_Get e2) deleted_keys = replicate 3 (Err ErrNotFound)"
    "small_tables (disk e2)" "served e2 (map (cmd_record \<circ> fst) (test_puts env [0..<n] @ test_deletes env n))"
proof -
  let ?puts = "test_puts env [0..<n]" and ?dels = "test_deletes env n"
  have "tables_before 0 new_engine"
    by (simp add: tables_before_def new_engine_def)
  from steady_good_run [OF this steady_test [OF assms]] have g: "eng.good_run new_engine (?puts @ ?dels)" .
  obtain e2 where e2: "eng.exec new_engine (?puts @ ?dels) = Some e2" "engine_inv e2"
      "\<forall>k. engine_Get e2 k = eng.cmd_answer (last_command k (map fst (?puts @ ?dels))) (engine_Get new_engine k)"
    using eng.exec_ok [OF new_engine_inv g] by blast
  obtain e1 where e1: "eng.exec new_engine ?puts = Some e1" "engine_inv e1" "eng.exec e1 ?dels = Some e2"
      "\<forall>k. engine_Get e1 k = eng.cmd_answer (last_command k (map fst ?puts)) (engine_Get new_engine k)"
    using eng.exec_ok [OF new_engine_inv eng.good_run_append1 [OF g]] e2(1) eng.exec_append [of new_engine ?puts ?dels] by auto
  have "engine_Get e1 (test_key i) = Ok (test_value i)" if "i < n" for i
    using e1(4) that by (simp add: last_command_puts eng.cmd_answer_def)
  then have v: "verify_keys e1 False [0..<n] (0, 0) = Some (0, 0)"
    by (intro verify_keys_all) simp
  have d: "engine_Get e2 (test_key i) = Err ErrNotFound" if "i \<in> {0, 1, 2}" for i
    using e2(3) that by (auto simp: last_command_append last_command_deletes eng.cmd_answer_def)
  have "served new_engine []"
    by (rule served_open [of undefined]) (simp add: engine_Open_empty new_engine_def)
  moreover have "rec_fits (cmd_record c)" if "(c, env') \<in> set (?puts @ ?dels)" for c env'
    using that assms(2) test_key_plain test_value_small by (auto simp: numbered_puts_def test_deletes_def cmd_record_def rec_fits_def)
  ultimately have "served e2 (map (cmd_record \<circ> fst) (?puts @ ?dels))"
    using exec_served [OF _ e2(1), of "[]"] by fastforce
  moreover have "small_tables (disk e2)"
    by (rule exec_small_tables [OF new_engine_inv g _ e2(1)]) (simp add: small_tables_def new_engine_def)
  ultimately show thesis
    using write_keys_exec [OF e1(1)] v delete_keys_exec [OF e1(3)] e2(2) d
    by (intro that) (simp_all add: deleted_keys_eq eval_nat_numeral)
qed

text \<open>The reads after a restart.\<close>

lemma verify_reopened:
  assumes "served e (map (cmd_record \<circ> fst) (test_puts env [0..<n] @ test_deletes env n))" "n < 2 ^ 63"
    and "rec_fits r" "l < length (rec_bytes r)"
    and "small_tables (disk e)"
  shows "\<exists>e'. engine_Open rnds (torn_log (disk e) r l) sound_disk = Ok e' \<and> (\<exists>es w. mem_rep (e_mem e') es w) \<and>
    verify_keys e' True [0..<n] (0, 0) = Some (0, 0)"
proof -
  obtain e' where e': "engine_Open rnds (torn_log (disk e) r l) sound_disk = Ok e'" "\<exists>es w. mem_rep (e_mem e') es w"
      "\<And>k r. find (\<lambda>r. rec_Key r = k) (rev (map (cmd_record \<circ> fst) (test_puts env [0..<n] @ test_deletes env n))) = Some r \<Longrightarrow>
        engine_Get e' k = record_answer r"
    using served_reopen [OF assms(1,3,4), of rnds] assms(5) unfolding small_tables_def by blast
  have "engine_Get e' (test_key i) = Ok (test_value i)" if "i < n" "test_key i \<notin> set deleted_keys" for i
  proof -
    have "last_command (test_key i) (map fst (test_puts env [0..<n] @ test_deletes env n)) = Some (CmdPut (test_key i) (test_value i))"
      using that by (auto simp: last_command_append last_command_puts last_command_deletes deleted_keys_eq)
    with e'(3) [of "test_key i"] find_cmd_record [of "test_key i" "test_puts env [0..<n] @ test_deletes env n"]
    have "engine_Get e' (test_key i) = record_answer (cmd_record (CmdPut (test_key i) (test_value i)))"
      by simp
    with test_value_small [of i] that(1) assms(2) show ?thesis
      by (auto simp: record_answer_def cmd_record_def OpPut_def OpDelete_def)
  qed
  then have "verify_keys e' True [0..<n] (0, 0) = Some (0, 0)"
    by (intro verify_keys_all) auto
  with e' show ?thesis by blast
qed

lemma new_directory_run:
  assumes "benign_envs env" "numKeys < 2 ^ 63"
  shows "\<exists>e. runStorageTest [] rnds sound_disk False numKeys env =
    Ok (e, \<lparr>missingCount = 0, wrongCount = 0, passed = True, afterDelete = replicate 3 (Err ErrNotFound)\<rparr>)"
proof -
  have "nat numKeys < 2 ^ 63"
    using assms(2) by simp
  with assms(1) obtain e1 e2 where t: "write_keys new_engine env [0..<nat numKeys] = Ok e1"
      "verify_keys e1 False [0..<nat numKeys] (0, 0) = Some (0, 0)"
      "delete_keys e1 env (nat numKeys) deleted_keys = Some e2" "engine_inv e2"
      "map (engine_Get e2) deleted_keys = replicate 3 (Err ErrNotFound)"
    by (rule test_on_new_directory)
  obtain e3 r where "engine_Close e2 (env (nat numKeys + 3)) = (e3, r)" "r \<noteq> Panic"
    using engine_Close_total engine_inv_mem [OF t(4)] by blast
  moreover have "engine_Open rnds [] sound_disk = Ok new_engine"
    by (simp add: engine_Open_empty new_engine_def)
  ultimately show ?thesis
    using t by (cases r) (simp_all add: runStorageTest_def Let_def)
qed

section \<open>Properties\<close>

text \<open>Fact. The self test passes on a new directory: with working writes and a clock that moves on between them, for every
  number of keys, \<open>runStorageTest\<close> returns with no missing and no wrong key, also when the mem table is
  flushed during the test, and finds the three deleted keys gone.\<close>

theorem storage_test_passes:
  assumes "strict_mono (\<lambda>i. now (env i))" and "\<forall>i. wal_fault (env i) = NoFault \<and> flush_fault (env i) = SstNoFault"
    and "numKeys < 2 ^ 63"
  shows "\<exists>e. runStorageTest [] rnds sound_disk False numKeys env =
    Ok (e, \<lparr>missingCount = 0, wrongCount = 0, passed = True, afterDelete = replicate 3 (Err ErrNotFound)\<rparr>)"
  using new_directory_run assms by (simp add: benign_envs_def)

theorem storage_test_passes_witness:
  "\<exists>e. runStorageTest [] (\<lambda>_ _. False) sound_disk False 10000
      (\<lambda>i. \<lparr>rnd = \<lambda>_. False, wal_fault = NoFault, now = i, flush_fault = SstNoFault, close_fault = CloseOk\<rparr>) =
    Ok (e, \<lparr>missingCount = 0, wrongCount = 0, passed = True, afterDelete = replicate 3 (Err ErrNotFound)\<rparr>)"
  by (rule storage_test_passes) (simp_all add: strict_mono_def)

text \<open>Property C23. The self test shows recovery: after a test run on a new directory has ended, and even if the log then ends in a
  torn record, a run with \<open>-verify-only\<close> for the same number of keys finds every key except the
  deleted ones with its value and reports success.\<close>

theorem storage_test_recovers:
  assumes "strict_mono (\<lambda>i. now (env i))" and "\<forall>i. wal_fault (env i) = NoFault \<and> flush_fault (env i) = SstNoFault"
    and "numKeys < 2 ^ 63" and "runStorageTest [] rnds sound_disk False numKeys env = Ok (e, report)"
    and "rec_fits r" and "l < length (rec_bytes r)"
  shows "\<exists>e'. runStorageTest (torn_log (disk e) r l) rnds' sound_disk True numKeys env' =
    Ok (e', \<lparr>missingCount = 0, wrongCount = 0, passed = True, afterDelete = []\<rparr>)"
proof -
  let ?n = "nat numKeys"
  have n: "benign_envs env" "?n < 2 ^ 63"
    using assms(1-3) by (simp_all add: benign_envs_def)
  then obtain e1 e2 where t: "write_keys new_engine env [0..<?n] = Ok e1" "verify_keys e1 False [0..<?n] (0, 0) = Some (0, 0)"
      "delete_keys e1 env ?n deleted_keys = Some e2" "engine_inv e2" "map (engine_Get e2) deleted_keys = replicate 3 (Err ErrNotFound)"
      "small_tables (disk e2)" "served e2 (map (cmd_record \<circ> fst) (test_puts env [0..<?n] @ test_deletes env ?n))"
    by (rule test_on_new_directory)
  have "engine_Open rnds [] sound_disk = Ok new_engine"
    by (simp add: engine_Open_empty new_engine_def)
  then obtain x where cl: "engine_Close e2 (env (?n + 3)) = (e, x)" "x \<noteq> Panic"
    using assms(4) t(1-5) by (auto simp: runStorageTest_def Let_def split: option.splits prod.splits outcome.splits)
  obtain e' where e': "engine_Open rnds' (torn_log (disk e) r l) sound_disk = Ok e'"
      "\<exists>es w. mem_rep (e_mem e') es w" "verify_keys e' True [0..<?n] (0, 0) = Some (0, 0)"
    using verify_reopened [OF served_close [OF t(7) cl] n(2) assms(5,6) small_tables_close [OF t(4,6) cl]] by blast
  then obtain e'' y where "engine_Close e' (env' (?n + 3)) = (e'', y)" "y \<noteq> Panic"
    using engine_Close_total by blast
  with e' show ?thesis
    by (cases y) (simp_all add: runStorageTest_def Let_def)
qed

theorem storage_test_recovers_witness:
  "\<exists>e report e'. runStorageTest [] (\<lambda>_ _. False) sound_disk False 10000
      (\<lambda>i. \<lparr>rnd = \<lambda>_. False, wal_fault = NoFault, now = i, flush_fault = SstNoFault, close_fault = CloseOk\<rparr>) = Ok (e, report) \<and>
    runStorageTest (torn_log (disk e) \<lparr>rec_Op = OpPut, rec_Key = [107], rec_Value = Some [3]\<rparr> 12) (\<lambda>_ _. True) sound_disk True 10000
      (\<lambda>i. \<lparr>rnd = \<lambda>_. False, wal_fault = NoFault, now = i, flush_fault = SstNoFault, close_fault = CloseOk\<rparr>) =
    Ok (e', \<lparr>missingCount = 0, wrongCount = 0, passed = True, afterDelete = []\<rparr>)"
proof -
  let ?env = "\<lambda>i. \<lparr>rnd = \<lambda>_. False, wal_fault = NoFault, now = i, flush_fault = SstNoFault, close_fault = CloseOk\<rparr>"
  let ?r = "\<lparr>rec_Op = OpPut, rec_Key = [107], rec_Value = Some [3]\<rparr>"
  have env: "strict_mono (\<lambda>i. now (?env i))" "\<forall>i. wal_fault (?env i) = NoFault \<and> flush_fault (?env i) = SstNoFault"
    by (simp_all add: strict_mono_def)
  obtain e report where e: "runStorageTest [] (\<lambda>_ _. False) sound_disk False 10000 ?env = Ok (e, report)"
    using new_directory_run [of ?env 10000 "\<lambda>_ _. False"] env by (auto simp: benign_envs_def)
  have "rec_fits ?r" "12 < length (rec_bytes ?r)"
    by (simp_all add: rec_fits_def rec_bytes_def length_wal_record walHeaderSize_def)
  from storage_test_recovers [OF env _ e this, of "\<lambda>_ _. True" ?env] e show ?thesis
    by auto
qed

end
