(* ===== verification/Benchmark.thy ===== *)
theory Benchmark
  imports StorageTest "HOL-Library.Log_Nat"
begin

text \<open>
  The benchmark program (\<open>cmd/benchmark/main.go\<close>): it removes the data directory, opens an
  engine, writes and reads numbered keys, and prints percentiles of the latencies. The
  measured durations are arguments, the printed percentiles the record \<open>BenchReport\<close>. The index of a
  percentile is computed in \<open>float64\<close>, so the product of two doubles is modelled with its
  rounding to 53 bits. Total times, throughput and the layout of the output are left out.
\<close>

section \<open>Doubles\<close>

text \<open>A non-negative double \<open>(m, e)\<close> is \<open>m * 2 ^ e\<close>. Rounding keeps 53 bits and goes to the
  nearest, ties to even.\<close>

definition round_half_even :: "nat \<Rightarrow> nat \<Rightarrow> nat" where
  "round_half_even x s =
     (let q = x div 2 ^ s; r = x mod 2 ^ s
      in if 2 ^ s < 2 * r \<or> 2 ^ s = 2 * r \<and> odd q then q + 1 else q)"

definition round53 :: "nat \<Rightarrow> int \<Rightarrow> nat \<times> int" where
  "round53 m e =
     (let s = floorlog 2 m - 53
      in if s = 0 then (m, e) else (round_half_even m s, e + int s))"

definition float64 :: "nat \<Rightarrow> nat \<times> int" where
  "float64 n = round53 n 0"

definition mult64 :: "nat \<times> int \<Rightarrow> nat \<times> int \<Rightarrow> nat \<times> int" where
  "mult64 a b = round53 (fst a * fst b) (snd a + snd b)"

text \<open>The conversion to \<open>int\<close> drops the fraction.\<close>

definition trunc64 :: "nat \<times> int \<Rightarrow> nat" where
  "trunc64 a = (if 0 \<le> snd a then fst a * 2 ^ nat (snd a) else fst a div 2 ^ nat (- snd a))"

text \<open>The constants 0.50, 0.95 and 0.99 as doubles.\<close>

definition c50 :: "nat \<times> int" where "c50 = (2 ^ 52, -53)"
definition c95 :: "nat \<times> int" where "c95 = (8556839292003942, -53)"
definition c99 :: "nat \<times> int" where "c99 = (8917127262193582, -53)"

definition percentile_index :: "nat \<Rightarrow> nat \<times> int \<Rightarrow> nat" where
  "percentile_index n c = trunc64 (mult64 (float64 n) c)"

section \<open>The program\<close>

definition bench_key :: "nat \<Rightarrow> bytes" where
  "bench_key i = string_bytes (''bench_key_'' @ decimal_pad 6 i)"

definition bench_value :: "nat \<Rightarrow> bytes" where
  "bench_value i = string_bytes (''bench_val_'' @ decimal_pad 6 i)"

text \<open>The write loop; an error is logged only, \<open>None\<close> is a panic.\<close>

fun bench_writes :: "Engine \<Rightarrow> (nat \<Rightarrow> Env) \<Rightarrow> nat list \<Rightarrow> Engine option" where
  "bench_writes e env [] = Some e"
| "bench_writes e env (i # is) =
     (case engine_Put e (bench_key i) (Some (bench_value i)) (env i) of
        (e', Panic) \<Rightarrow> None
      | (e', _) \<Rightarrow> bench_writes e' env is)"

text \<open>The read loop discards the results; it tells whether it ended without a panic.\<close>

fun bench_reads :: "Engine \<Rightarrow> nat list \<Rightarrow> bool" where
  "bench_reads e [] = True"
| "bench_reads e (i # is) = (engine_Get e (bench_key i) \<noteq> Panic \<and> bench_reads e is)"

definition sortLatencies :: "int list \<Rightarrow> int list" where
  "sortLatencies lats = sort lats"

record Percentiles =
  p50 :: int
  p95 :: int
  p99 :: int

text \<open>\<open>None\<close> is an index out of range.\<close>

definition percentiles :: "int list \<Rightarrow> Percentiles option" where
  "percentiles lats =
     (let n = length lats; s = sortLatencies lats; i50 = percentile_index n c50;
          i95 = percentile_index n c95; i99 = percentile_index n c99
      in if i50 < n \<and> i95 < n \<and> i99 < n then Some \<lparr>p50 = s ! i50, p95 = s ! i95, p99 = s ! i99\<rparr> else None)"

record BenchReport =
  writes :: Percentiles
  reads :: Percentiles

text \<open>\<open>remove_ok\<close> tells whether the old directory could be removed; \<open>lat\<close> and \<open>lat'\<close> are the
  measured durations. \<open>make\<close> panics for a negative length and for more bytes than can be
  addressed; a duration takes eight bytes.\<close>

definition benchmark ::
  "fs \<Rightarrow> bool \<Rightarrow> (nat \<Rightarrow> nat \<Rightarrow> bool) \<Rightarrow> OpenFaults \<Rightarrow> int \<Rightarrow> (nat \<Rightarrow> Env) \<Rightarrow> (nat \<Rightarrow> int) \<Rightarrow> (nat \<Rightarrow> int)
    \<Rightarrow> (eng_error, Engine \<times> BenchReport) outcome" where
  "benchmark d remove_ok rnds io numOps env lat lat' =
     (case engine_Open rnds (if remove_ok then [] else d) io of
        Err x \<Rightarrow> Err x
      | Panic \<Rightarrow> Panic
      | Ok e0 \<Rightarrow>
          if make_panics (8 * numOps) then Panic
          else
            let ops = [0..<nat numOps]
            in case bench_writes e0 env ops of
                 None \<Rightarrow> Panic
               | Some e1 \<Rightarrow>
                   (case percentiles (map lat ops) of
                      None \<Rightarrow> Panic
                    | Some ws \<Rightarrow>
                        if \<not> bench_reads e1 ops then Panic
                        else
                          (case percentiles (map lat' ops) of
                             None \<Rightarrow> Panic
                           | Some rs \<Rightarrow>
                               (case engine_Close e1 (env (nat numOps)) of
                                  (e2, Panic) \<Rightarrow> Panic
                                | (e2, _) \<Rightarrow> Ok (e2, \<lparr>writes = ws, reads = rs\<rparr>)))))"

section \<open>Lemmas: rounding\<close>

lemma round_half_even_upper: "2 * (round_half_even x s * 2 ^ s) \<le> 2 * x + 2 ^ s"
proof -
  define q r where "q = x div 2 ^ s" and "r = x mod 2 ^ s"
  have x: "x = q * 2 ^ s + r"
    by (simp only: q_def r_def div_mult_mod_eq)
  have "round_half_even x s = q \<or> round_half_even x s = q + 1 \<and> 2 ^ s \<le> 2 * r"
    by (auto simp: round_half_even_def Let_def q_def [symmetric] r_def [symmetric])
  then show ?thesis
    unfolding x by (elim disjE conjE) (simp_all add: add_mult_distrib)
qed

lemma round_half_even_0 [simp]: "round_half_even x 0 = x"
  by (simp add: round_half_even_def)

lemma round_half_even_mono:
  assumes "x \<le> y"
  shows "round_half_even x s \<le> round_half_even y s"
proof (cases "x div 2 ^ s = y div 2 ^ s")
  case True
  have "x mod 2 ^ s \<le> y mod 2 ^ s"
    using assms div_mult_mod_eq [of x "2 ^ s"] div_mult_mod_eq [of y "2 ^ s"] True by (metis add_le_cancel_left)
  with True show ?thesis
    by (auto simp: round_half_even_def Let_def)
next
  case False
  then have "x div 2 ^ s + 1 \<le> y div 2 ^ s"
    using div_le_mono [OF assms, of "2 ^ s"] by simp
  moreover have "round_half_even x s \<le> x div 2 ^ s + 1" "y div 2 ^ s \<le> round_half_even y s"
    by (simp_all add: round_half_even_def Let_def)
  ultimately show ?thesis by linarith
qed

text \<open>The rounded value, scaled to an integer.\<close>

definition rounded :: "nat \<Rightarrow> nat" where
  "rounded m = (let s = floorlog 2 m - 53 in round_half_even m s * 2 ^ s)"

lemma significant_bits:
  assumes "s = floorlog 2 m - 53" "0 < s"
  shows "2 ^ (s + 52) \<le> m" "2 ^ 52 \<le> round_half_even m s" "round_half_even m s \<le> 2 ^ 53"
proof -
  have f: "floorlog 2 m = s + 53" "0 < m"
    using assms by (auto simp: floorlog_def split: if_splits)
  then have m: "2 ^ (s + 52) \<le> m" "m < 2 ^ (s + 53)"
    using floorlog_bounds [of m 2] unfolding f(1) by (simp_all add: add.commute)
  then show "2 ^ (s + 52) \<le> m" by simp
  have "2 ^ 52 * 2 ^ s \<le> m" "m < 2 ^ 53 * 2 ^ s"
    using m by (simp_all only: power_add mult.commute)
  then have q: "2 ^ 52 \<le> m div 2 ^ s" "m div 2 ^ s < 2 ^ 53"
    by (simp_all only: less_eq_div_iff_mult_less_eq div_less_iff_less_mult zero_less_power zero_less_numeral)
  have "m div 2 ^ s \<le> round_half_even m s" "round_half_even m s \<le> m div 2 ^ s + 1"
    by (simp_all add: round_half_even_def Let_def)
  with q show "2 ^ 52 \<le> round_half_even m s" "round_half_even m s \<le> 2 ^ 53"
    by linarith+
qed

lemma rounded_mono:
  assumes "m \<le> n"
  shows "rounded m \<le> rounded n"
proof -
  define s t where "s = floorlog 2 m - 53" and "t = floorlog 2 n - 53"
  have st: "s \<le> t"
    using floorlog_mono [OF assms, of 2] by (simp add: s_def t_def)
  show ?thesis
  proof (cases "s = t")
    case True
    then show ?thesis
      using round_half_even_mono [OF assms, of t] by (simp add: rounded_def s_def [symmetric] t_def [symmetric])
  next
    case False
    then have lt: "s < t"
      using st by simp
    have "round_half_even m s \<le> 2 ^ 53"
    proof (cases "s = 0")
      case True
      then have "floorlog 2 m \<le> 53"
        by (simp add: s_def)
      moreover have "m < 2 ^ floorlog 2 m"
        using floorlog_bounds [of m 2] by (cases "m = 0") auto
      ultimately have "m < 2 ^ 53"
        using power_increasing [of "floorlog 2 m" 53 "2 :: nat"] by (simp only: less_le_trans)
      with True show ?thesis by simp
    qed (use significant_bits(3) [OF s_def] in simp)
    then have "rounded m \<le> 2 ^ 53 * 2 ^ s"
      by (simp add: rounded_def s_def [symmetric])
    also have "\<dots> = 2 ^ 52 * 2 ^ Suc s"
      by simp
    also have "\<dots> \<le> 2 ^ 52 * 2 ^ t"
      using lt by (intro mult_le_mono2 power_increasing) simp_all
    also have "\<dots> \<le> rounded n"
      using significant_bits(2) [OF t_def] lt by (simp add: rounded_def t_def [symmetric])
    finally show ?thesis .
  qed
qed

lemma rounded_upper: "2 ^ 53 * rounded m \<le> (2 ^ 53 + 1) * m"
proof -
  define s where "s = floorlog 2 m - 53"
  show ?thesis
  proof (cases "s = 0")
    case True
    then show ?thesis by (simp add: rounded_def s_def [symmetric])
  next
    case False
    then have "2 ^ (s + 52) \<le> m"
      using significant_bits(1) [OF s_def] by simp
    then have "2 ^ 52 * 2 ^ s \<le> m"
      by (simp only: power_add mult.commute)
    with round_half_even_upper [of m s] show ?thesis
      by (simp add: rounded_def s_def [symmetric])
  qed
qed

lemma trunc64_round53: "trunc64 (round53 m (-53)) = rounded m div 2 ^ 53"
proof -
  define s where "s = floorlog 2 m - 53"
  have r: "round53 m (-53) = (round_half_even m s, int s - 53)"
    by (simp add: round53_def Let_def s_def [symmetric])
  show ?thesis
  proof (cases "53 \<le> s")
    case True
    then have "(2 :: nat) ^ s = 2 ^ (s - 53) * 2 ^ 53"
      by (simp only: power_add [symmetric] le_add_diff_inverse2)
    moreover have "nat (int s - 53) = s - 53"
      using True by simp
    ultimately show ?thesis
      using True by (simp add: r trunc64_def rounded_def s_def [symmetric])
  next
    case False
    then have "(2 :: nat) ^ 53 = 2 ^ (53 - s) * 2 ^ s"
      by (simp only: power_add [symmetric]) simp
    then have "rounded m div 2 ^ 53 = round_half_even m s div 2 ^ (53 - s)"
      by (simp only: rounded_def Let_def s_def [symmetric] div_mult_mult2 zero_neq_numeral power_not_zero not_False_eq_True)
    moreover have "nat (53 - int s) = 53 - s"
      using False by simp
    ultimately show ?thesis
      using False by (simp add: r trunc64_def)
  qed
qed

lemma percentile_index_eq:
  assumes "n < 2 ^ 53"
  shows "percentile_index n (c, -53) = rounded (n * c) div 2 ^ 53"
proof -
  have "floorlog 2 n \<le> 53"
    using assms by (intro floorlog_leI) simp_all
  then have "float64 n = (n, 0)"
    by (simp add: float64_def round53_def)
  then show ?thesis
    by (simp add: percentile_index_def mult64_def trunc64_round53)
qed

lemma percentile_index_less:
  assumes "0 < n" "n < 2 ^ 53" "c \<le> 8917127262193582"
  shows "percentile_index n (c, -53) < n"
proof -
  have "2 ^ 53 * rounded (n * c) \<le> (2 ^ 53 + 1) * (n * c)"
    by (rule rounded_upper)
  also have "\<dots> \<le> (2 ^ 53 + 1) * (n * 8917127262193582)"
    using assms(3) by simp
  also have "\<dots> < 2 ^ 53 * (n * 2 ^ 53)"
    using assms(1) by simp
  finally have "rounded (n * c) < n * 2 ^ 53"
    by simp
  then show ?thesis
    unfolding percentile_index_eq [OF assms(2)] by (simp add: div_less_iff_less_mult)
qed
section \<open>Lemmas: the program\<close>

text \<open>The percentiles of a non-empty list are elements of it and in order.\<close>

lemma percentiles_ordered:
  assumes "lats \<noteq> []" "length lats < 2 ^ 53"
  shows "\<exists>p. percentiles lats = Some p \<and> p50 p \<le> p95 p \<and> p95 p \<le> p99 p \<and> {p50 p, p95 p, p99 p} \<subseteq> set lats"
proof -
  let ?n = "length lats" and ?s = "sort lats"
  have n: "0 < ?n" using assms(1) by simp
  have less: "percentile_index ?n c50 < ?n" "percentile_index ?n c95 < ?n" "percentile_index ?n c99 < ?n"
    unfolding c50_def c95_def c99_def by (rule percentile_index_less [OF n assms(2)], simp)+
  have mono: "percentile_index ?n (a, -53) \<le> percentile_index ?n (b, -53)" if "a \<le> b" for a b
    unfolding percentile_index_eq [OF assms(2)] using that by (intro div_le_mono rounded_mono) simp
  have le: "percentile_index ?n c50 \<le> percentile_index ?n c95" "percentile_index ?n c95 \<le> percentile_index ?n c99"
    unfolding c50_def c95_def c99_def by (rule mono, simp)+
  have "?s ! i \<in> set lats" if "i < ?n" for i
    using that by (metis length_sort nth_mem set_sort)
  with less le show ?thesis
    by (simp add: percentiles_def Let_def sortLatencies_def sorted_nth_mono)
qed

lemma bench_key_injective: "inj bench_key"
  using string_bytes_inj decimal_pad_inj by (fastforce simp: bench_key_def inj_def)

lemma bench_sizes: "i < 2 ^ 63 \<Longrightarrow> plain_key (bench_key i) \<and> small_value (bench_value i)"
  using length_decimal_pad [of i 6]
  by (simp add: plain_key_def bench_key_def bench_value_def small_value_def string_bytes_def)

lemma bench_writes_exec:
  "eng.exec e (numbered_puts bench_key bench_value env is) = Some e' \<Longrightarrow> bench_writes e env is = Some e'"
  by (induction "is" arbitrary: e) (auto simp: numbered_puts_def split: prod.splits outcome.splits)

lemma bench_reads_all: "(\<And>i. i \<in> set is \<Longrightarrow> engine_Get e (bench_key i) \<noteq> Panic) \<Longrightarrow> bench_reads e is"
  by (induction "is") auto

lemma bench_on_new_directory:
  assumes "benign_envs env" "n < 2 ^ 63"
  obtains e where "bench_writes new_engine env [0..<n] = Some e" "engine_inv e"
    "\<And>i. i < n \<Longrightarrow> engine_Get e (bench_key i) = Ok (bench_value i)"
proof -
  let ?puts = "numbered_puts bench_key bench_value env [0..<n]"
  have "tables_before 0 new_engine"
    by (simp add: tables_before_def new_engine_def)
  moreover have "steady 0 ?puts"
    using bench_sizes assms(2) by (intro steady_numbered [OF assms(1)]) simp
  ultimately have g: "eng.good_run new_engine ?puts"
    by (rule steady_good_run)
  obtain e where e: "eng.exec new_engine ?puts = Some e" "engine_inv e"
      "\<forall>k. engine_Get e k = eng.cmd_answer (last_command k (map fst ?puts)) (engine_Get new_engine k)"
    using eng.exec_ok [OF new_engine_inv g] by blast
  have "engine_Get e (bench_key i) = Ok (bench_value i)" if "i < n" for i
    using e(3) that by (simp add: last_command_numbered [OF bench_key_injective] eng.cmd_answer_def)
  with bench_writes_exec [OF e(1)] e(2) show thesis
    by (rule that)
qed

section \<open>Properties\<close>

text \<open>Property C24. The benchmark: with working writes and a clock that moves on, for every positive number of operations
  up to \<open>2 ^ 45\<close>, the length of the longest slice of durations that can be made, it
  returns; all its reads are hits, each with the value written; the three percentiles of the
  write and of the read latencies, whose indexes are computed in floating point, are measured
  latencies and in order. For zero operations it panics, since a
  percentile of an empty slice is read, and for a negative or larger number since the slice
  cannot be made. (That the machine has the memory for the slices is taken for granted.)\<close>

theorem benchmark_completes:
  assumes "strict_mono (\<lambda>i. now (env i))" and "\<forall>i. wal_fault (env i) = NoFault \<and> flush_fault (env i) = SstNoFault"
  shows "(0 < numOps \<and> numOps \<le> 2 ^ 45 \<longrightarrow> (\<exists>e1 e2 ws rs. bench_writes new_engine env [0..<nat numOps] = Some e1 \<and>
      (\<forall>i < nat numOps. engine_Get e1 (bench_key i) = Ok (bench_value i)) \<and>
      benchmark d True rnds sound_disk numOps env lat lat' = Ok (e2, \<lparr>writes = ws, reads = rs\<rparr>) \<and>
      p50 ws \<le> p95 ws \<and> p95 ws \<le> p99 ws \<and> {p50 ws, p95 ws, p99 ws} \<subseteq> lat ` {..<nat numOps} \<and>
      p50 rs \<le> p95 rs \<and> p95 rs \<le> p99 rs \<and> {p50 rs, p95 rs, p99 rs} \<subseteq> lat' ` {..<nat numOps})) \<and>
    (numOps \<le> 0 \<or> 2 ^ 45 < numOps \<longrightarrow> benchmark d True rnds sound_disk numOps env lat lat' = Panic)"
proof (intro conjI impI)
  have opened: "engine_Open rnds [] sound_disk = Ok new_engine"
    by (simp add: engine_Open_empty new_engine_def)
  show "benchmark d True rnds sound_disk numOps env lat lat' = Panic" if "numOps \<le> 0 \<or> 2 ^ 45 < numOps"
    using that opened by (cases "make_panics (8 * numOps)") (simp_all add: benchmark_def percentiles_def make_panics_def)
  assume pos': "0 < numOps \<and> numOps \<le> 2 ^ 45"
  then have pos: "0 < numOps" "numOps \<le> 2 ^ 45" and mk: "\<not> make_panics (8 * numOps)"
    by (simp_all add: make_panics_def)
  let ?n = "nat numOps"
  have n: "?n < 2 ^ 53" "[0..<?n] \<noteq> []" "?n < 2 ^ 63"
    using pos by (auto simp: nat_less_iff)
  have "benign_envs env"
    using assms(1,2) by (simp add: benign_envs_def)
  from bench_on_new_directory [OF this n(3)] obtain e1 where e1: "bench_writes new_engine env [0..<?n] = Some e1"
    "engine_inv e1" "\<And>i. i < ?n \<Longrightarrow> engine_Get e1 (bench_key i) = Ok (bench_value i)"
    by blast
  have pct: "\<exists>p. percentiles (map f [0..<?n]) = Some p \<and> p50 p \<le> p95 p \<and> p95 p \<le> p99 p \<and>
      {p50 p, p95 p, p99 p} \<subseteq> f ` {..<?n}" for f
    using percentiles_ordered [of "map f [0..<?n]"] n(1,2) by (simp add: atLeast0LessThan del: upt_eq_Nil_conv)
  obtain ws rs where ws: "percentiles (map lat [0..<?n]) = Some ws" "p50 ws \<le> p95 ws" "p95 ws \<le> p99 ws"
      "{p50 ws, p95 ws, p99 ws} \<subseteq> lat ` {..<?n}"
    and rs: "percentiles (map lat' [0..<?n]) = Some rs" "p50 rs \<le> p95 rs" "p95 rs \<le> p99 rs"
      "{p50 rs, p95 rs, p99 rs} \<subseteq> lat' ` {..<?n}"
    using pct [of lat] pct [of lat'] by blast
  have "bench_reads e1 [0..<?n]"
    using e1(3) by (intro bench_reads_all) simp
  moreover obtain e2 r where "engine_Close e1 (env ?n) = (e2, r)" "r \<noteq> Panic"
    using engine_Close_total engine_inv_mem [OF e1(2)] by blast
  ultimately have "benchmark d True rnds sound_disk numOps env lat lat' = Ok (e2, \<lparr>writes = ws, reads = rs\<rparr>)"
    using opened e1(1) ws(1) rs(1) pos mk by (cases r) (simp_all add: benchmark_def Let_def)
  with e1(1,3) ws(2-4) rs(2-4) show "\<exists>e1 e2 ws rs. bench_writes new_engine env [0..<?n] = Some e1 \<and>
      (\<forall>i < ?n. engine_Get e1 (bench_key i) = Ok (bench_value i)) \<and>
      benchmark d True rnds sound_disk numOps env lat lat' = Ok (e2, \<lparr>writes = ws, reads = rs\<rparr>) \<and>
      p50 ws \<le> p95 ws \<and> p95 ws \<le> p99 ws \<and> {p50 ws, p95 ws, p99 ws} \<subseteq> lat ` {..<?n} \<and>
      p50 rs \<le> p95 rs \<and> p95 rs \<le> p99 rs \<and> {p50 rs, p95 rs, p99 rs} \<subseteq> lat' ` {..<?n}"
    by blast
qed

theorem benchmark_completes_witness:
  "(\<exists>e ws rs. benchmark [] True (\<lambda>_ _. False) sound_disk 5000
      (\<lambda>i. \<lparr>rnd = \<lambda>_. False, wal_fault = NoFault, now = i, flush_fault = SstNoFault, close_fault = CloseOk\<rparr>) int (\<lambda>i. 7) =
      Ok (e, \<lparr>writes = ws, reads = rs\<rparr>) \<and> p99 rs = 7) \<and>
   benchmark [] True (\<lambda>_ _. False) sound_disk 0
      (\<lambda>i. \<lparr>rnd = \<lambda>_. False, wal_fault = NoFault, now = i, flush_fault = SstNoFault, close_fault = CloseOk\<rparr>) int (\<lambda>i. 7) = Panic \<and>
   benchmark [] True (\<lambda>_ _. False) sound_disk (2 ^ 46)
      (\<lambda>i. \<lparr>rnd = \<lambda>_. False, wal_fault = NoFault, now = i, flush_fault = SstNoFault, close_fault = CloseOk\<rparr>) int (\<lambda>i. 7) = Panic"
proof -
  let ?env = "\<lambda>i. \<lparr>rnd = \<lambda>_. False, wal_fault = NoFault, now = i, flush_fault = SstNoFault, close_fault = CloseOk\<rparr>"
  have env: "strict_mono (\<lambda>i. now (?env i))" "\<forall>i. wal_fault (?env i) = NoFault \<and> flush_fault (?env i) = SstNoFault"
    by (simp_all add: strict_mono_def)
  from benchmark_completes [OF env, of 5000 "[]" "\<lambda>_ _. False" int "\<lambda>i. 7"]
    benchmark_completes [OF env, of 0 "[]" "\<lambda>_ _. False" int "\<lambda>i. 7"]
    benchmark_completes [OF env, of "2 ^ 46" "[]" "\<lambda>_ _. False" int "\<lambda>i. 7"] show ?thesis
    by fastforce
qed

end
