(* ===== verification/Server.thy ===== *)
theory Server
  imports Cluster RPC Timers StorageTest "HOL-Library.Sublist"
begin

text \<open>
  The server program (\<open>cmd/server/main.go\<close>) in cluster mode: the \<open>-peers\<close> flag, the
  configuration, the connection of the peer pool, the creation of the components and their
  shutdown. The strings of the command line are bytes, as in Go; the functions of the
  package \<open>strings\<close> are modelled for arbitrary bytes. The dial of a connection and the
  contents of the data directory are arguments. The engine's and the Raft node's files lie in the
  same directory and have different names, so each component keeps its own view of it.
\<close>

section \<open>Package strings\<close>

text \<open>The UTF-8 encodings of the characters that \<open>unicode.IsSpace\<close> accepts.\<close>

definition white_space :: "string list" where
  "white_space =
     [[CHR 0x09], [CHR 0x0A], [CHR 0x0B], [CHR 0x0C], [CHR 0x0D], [CHR 0x20],
      [CHR 0xC2, CHR 0x85], [CHR 0xC2, CHR 0xA0], [CHR 0xE1, CHR 0x9A, CHR 0x80]] @
     map (\<lambda>b. [CHR 0xE2, CHR 0x80, char_of b]) [0x80..<0x8B] @
     [[CHR 0xE2, CHR 0x80, CHR 0xA8], [CHR 0xE2, CHR 0x80, CHR 0xA9], [CHR 0xE2, CHR 0x80, CHR 0xAF],
      [CHR 0xE2, CHR 0x81, CHR 0x9F], [CHR 0xE3, CHR 0x80, CHR 0x80 :: char]]"

function trim_front :: "string list \<Rightarrow> string \<Rightarrow> string" where
  "trim_front ws s =
     (case find (\<lambda>w. w \<noteq> [] \<and> prefix w s) ws of None \<Rightarrow> s | Some w \<Rightarrow> trim_front ws (drop (length w) s))"
  by pat_completeness auto
termination
  by (relation "measure (\<lambda>(ws, s). length s)") (auto simp: find_Some_iff prefix_def)

declare trim_front.simps [simp del]

definition TrimSpace :: "string \<Rightarrow> string" where
  "TrimSpace s = rev (trim_front (map rev white_space) (rev (trim_front white_space s)))"

fun Split :: "string \<Rightarrow> char \<Rightarrow> string list" where
  "Split [] sep = [[]]"
| "Split (x # s) sep =
     (if x = sep then [] # Split s sep else (case Split s sep of [] \<Rightarrow> [[x]] | p # ps \<Rightarrow> (x # p) # ps))"

text \<open>\<open>SplitN\<close> with the limit 2.\<close>

definition SplitN2 :: "string \<Rightarrow> char \<Rightarrow> string list" where
  "SplitN2 s sep =
     (if sep \<in> set s then [takeWhile (\<lambda>c. c \<noteq> sep) s, tl (dropWhile (\<lambda>c. c \<noteq> sep) s)] else [s])"

section \<open>Flags and configuration\<close>

record Flags =
  f_phase1 :: bool
  f_verifyOnly :: bool
  f_numKeys :: int
  f_id :: string
  f_addr :: string
  f_peers :: string
  f_data :: string

text \<open>The loop over the specifications: the map of the peers' addresses, and the list of addresses.\<close>

fun parse_specs :: "string list \<Rightarrow> (string \<times> string) list \<times> string list \<Rightarrow> (string \<times> string) list \<times> string list" where
  "parse_specs [] (peerMap, peerAddrs) = (peerMap, peerAddrs)"
| "parse_specs (spec # specs) (peerMap, peerAddrs) =
     (case SplitN2 (TrimSpace spec) (CHR ''='') of
        [i, a] \<Rightarrow> parse_specs specs (AList.update i a peerMap, peerAddrs @ [a])
      | _ \<Rightarrow> parse_specs specs (peerMap, peerAddrs))"

definition parse_peers :: "string \<Rightarrow> (string \<times> string) list \<times> string list" where
  "parse_peers peersFlag = (if peersFlag = [] then ([], []) else parse_specs (Split peersFlag (CHR '','')) ([], []))"

definition node_config :: "Flags \<Rightarrow> Config" where
  "node_config fl = DefaultConfig\<lparr>NodeID := f_id fl, ListenAddr := f_addr fl,
     Peers := snd (parse_peers (f_peers fl)), DataDir := f_data fl\<rparr>"

text \<open>Whether the program runs the storage self test instead of a node.\<close>

definition storage_test_mode :: "Flags \<Rightarrow> bool" where
  "storage_test_mode fl \<longleftrightarrow> f_id fl = [] \<or> f_phase1 fl \<or> f_verifyOnly fl"

section \<open>Start and stop\<close>

text \<open>The components of a running node. The state machine holds the engine; the service uses the
  same engine and the same node.\<close>

record ServerProc =
  p_cfg :: Config
  p_pool :: PeerPool
  p_node :: Timed
  p_sm :: StateMachine

datatype start_error = EngineOpenFailed eng_error | NodeFailed config_error

text \<open>\<open>range\<close> over the map visits its entries in an arbitrary \<open>order\<close>; a failed dial is logged only.\<close>

definition connect_peers :: "PeerPool \<Rightarrow> (string \<times> string) list \<Rightarrow> (string \<Rightarrow> bool) \<Rightarrow> PeerPool" where
  "connect_peers pool order dial_ok = fold (\<lambda>(i, a) p. fst (Connect p i a (dial_ok a))) order pool"

definition applyCh_capacity :: nat where "applyCh_capacity = 256"

definition start_node ::
  "Flags \<Rightarrow> ((string \<times> string) list \<Rightarrow> (string \<times> string) list) \<Rightarrow> (string \<Rightarrow> bool) \<Rightarrow> (nat \<Rightarrow> nat \<Rightarrow> bool)
    \<Rightarrow> OpenFaults \<Rightarrow> fs \<Rightarrow> (start_error, ServerProc) outcome" where
  "start_node fl order dial_ok rnds io d =
     (let cfg = node_config fl
      in case engine_Open rnds d io of
           Err x \<Rightarrow> Err (EngineOpenFailed x)
         | Panic \<Rightarrow> Panic
         | Ok engine \<Rightarrow>
             let pool = connect_peers (NewPeerPool (NodeID cfg)) (order (fst (parse_peers (f_peers fl)))) dial_ok
             in case NewNode cfg (PeerIDs pool) applyCh_capacity d of
                  Err x \<Rightarrow> Err (NodeFailed x)
                | Panic \<Rightarrow> Panic
                | Ok raftNode \<Rightarrow>
                    Ok \<lparr>p_cfg = cfg, p_pool = pool, p_node = node_Start raftNode, p_sm = NewStateMachine engine\<rparr>)"

text \<open>The service of a running node.\<close>

definition grpc_server :: "ServerProc \<Rightarrow> GRPCServer" where
  "grpc_server p = NewGRPCServer (NodeID (p_cfg p)) (Some (t_node (p_node p))) (Some (storageEngine (p_sm p)))"

text \<open>The goroutine that serves; an error is logged and the node goes on without its service.\<close>

definition serve_node :: "ServerProc \<Rightarrow> bool \<Rightarrow> bool \<Rightarrow> GRPCServer" where
  "serve_node p listen_ok serve_ok = fst (grpc_Start (grpc_server p) (ListenAddr (p_cfg p)) listen_ok serve_ok)"

definition stop_node :: "ServerProc \<Rightarrow> Env \<Rightarrow> ServerProc option" where
  "stop_node p env =
     (case engine_Close (storageEngine (p_sm p)) env of
        (e, Panic) \<Rightarrow> None
      | (e, _) \<Rightarrow>
          Some (p\<lparr>p_node := node_Stop (p_node p), p_pool := pool_Close (p_pool p),
                  p_sm := (p_sm p)\<lparr>storageEngine := e\<rparr>\<rparr>))"

text \<open>The shutdown: the components and the service.\<close>

definition shutdown :: "ServerProc \<Rightarrow> GRPCServer \<Rightarrow> Env \<Rightarrow> (ServerProc \<times> GRPCServer) option" where
  "shutdown p s env = map_option (\<lambda>p'. (p', grpc_Stop s)) (stop_node p env)"

text \<open>The whole program: the report of the self test, or a running node.\<close>

definition server_main ::
  "Flags \<Rightarrow> ((string \<times> string) list \<Rightarrow> (string \<times> string) list) \<Rightarrow> (string \<Rightarrow> bool) \<Rightarrow> (nat \<Rightarrow> nat \<Rightarrow> bool)
    \<Rightarrow> OpenFaults \<Rightarrow> (nat \<Rightarrow> Env) \<Rightarrow> fs \<Rightarrow> (start_error + eng_error, ServerProc + TestReport) outcome" where
  "server_main fl order dial_ok rnds io env d =
     (if storage_test_mode fl
      then (case runStorageTest d rnds io (f_verifyOnly fl) (f_numKeys fl) env of
              Ok (e, report) \<Rightarrow> Ok (Inr report) | Err x \<Rightarrow> Err (Inr x) | Panic \<Rightarrow> Panic)
      else (case start_node fl order dial_ok rnds io d of
              Ok p \<Rightarrow> Ok (Inl p) | Err x \<Rightarrow> Err (Inl x) | Panic \<Rightarrow> Panic))"

section \<open>Lemmas: the peers flag\<close>

text \<open>The flag for a list of peers, and what a peer's id and address must not contain.\<close>

fun peers_flag :: "(string \<times> string) list \<Rightarrow> string" where
  "peers_flag [] = []"
| "peers_flag [(i, a)] = i @ ''='' @ a"
| "peers_flag ((i, a) # ps) = i @ ''='' @ a @ '','' @ peers_flag ps"

definition plain_spec :: "string \<times> string \<Rightarrow> bool" where
  "plain_spec s \<longleftrightarrow> (case s of (i, a) \<Rightarrow>
     CHR ''='' \<notin> set i \<and> CHR '','' \<notin> set i \<union> set a \<and> TrimSpace (i @ ''='' @ a) = i @ ''='' @ a)"

lemma Split_one: "sep \<notin> set s \<Longrightarrow> Split s sep = [s]"
  by (induction s) auto

lemma Split_more: "sep \<notin> set s \<Longrightarrow> Split (s @ sep # t) sep = s # Split t sep"
  by (induction s) auto

lemma Split_peers_flag:
  assumes "\<forall>s \<in> set ps. plain_spec s" "ps \<noteq> []"
  shows "Split (peers_flag ps) (CHR '','') = map (\<lambda>(i, a). i @ ''='' @ a) ps"
  using assms
proof (induction ps rule: peers_flag.induct)
  case (2 i a)
  then show ?case by (simp add: plain_spec_def Split_one)
next
  case (3 i a q ps)
  then have "CHR '','' \<notin> set (i @ ''='' @ a)"
    by (auto simp: plain_spec_def)
  from Split_more [OF this, of "peers_flag (q # ps)"] 3 show ?case
    by simp
qed simp

lemma SplitN2_spec: "CHR ''='' \<notin> set i \<Longrightarrow> SplitN2 (i @ ''='' @ a) (CHR ''='') = [i, a]"
  by (auto simp: SplitN2_def takeWhile_append dropWhile_append)

lemma parse_specs_plain:
  assumes "\<forall>s \<in> set ps. plain_spec s"
  shows "parse_specs (map (\<lambda>(i, a). i @ ''='' @ a) ps) (m, as) = (fold (\<lambda>(i, a). AList.update i a) ps m, as @ map snd ps)"
  using assms
proof (induction ps arbitrary: m as)
  case (Cons s ps)
  obtain i a where s: "s = (i, a)" by (cases s)
  with Cons.prems have "TrimSpace (i @ ''='' @ a) = i @ ''='' @ a" "SplitN2 (i @ ''='' @ a) (CHR ''='') = [i, a]"
    using SplitN2_spec [of i a] by (auto simp: plain_spec_def)
  with Cons s show ?case by simp
qed simp

lemma fold_update_distinct:
  "distinct (map fst (m @ ps)) \<Longrightarrow> fold (\<lambda>(i, a). AList.update i a) ps m = m @ ps"
proof (induction ps arbitrary: m)
  case (Cons s ps)
  obtain i a where s: "s = (i, a)" by (cases s)
  have "AList.update i a m = m @ [(i, a)]" if "i \<notin> fst ` set m"
    using that by (induction m) auto
  with Cons s show ?case by auto
qed simp

lemma peers_flag_empty: "peers_flag ps = [] \<longleftrightarrow> ps = []"
  by (cases ps rule: peers_flag.cases) auto

lemma parse_peers_flag:
  assumes "distinct (map fst ps)" "\<forall>s \<in> set ps. plain_spec s"
  shows "parse_peers (peers_flag ps) = (ps, map snd ps)"
proof (cases "ps = []")
  case False
  then show ?thesis
    unfolding parse_peers_def using Split_peers_flag [OF assms(2) False] parse_specs_plain [OF assms(2), of "[]" "[]"]
      fold_update_distinct [of "[]" ps] assms(1) by (simp add: peers_flag_empty)
qed (simp add: parse_peers_def)

section \<open>Lemmas: starting a node\<close>

lemma connect_peers_ids:
  assumes "distinct (PeerIDs p @ map fst ps)" "\<forall>(i, a) \<in> set ps. dial_ok a"
  shows "PeerIDs (connect_peers p ps dial_ok) = PeerIDs p @ map fst ps"
  using assms
proof (induction ps arbitrary: p)
  case (Cons s ps)
  obtain i a where s: "s = (i, a)" by (cases s)
  have "PeerIDs (fst (Connect p i a True)) = PeerIDs p @ [i]"
    using Cons.prems(1) s by (auto simp: Connect_def PeerIDs_def map_of_eq_None_iff)
  with Cons.IH [of "fst (Connect p i a True)"] Cons.prems s show ?case
    by (simp add: connect_peers_def)
qed (simp add: connect_peers_def)

lemma NewPeerPool_ids [simp]: "PeerIDs (NewPeerPool i) = []"
  by (simp add: NewPeerPool_def PeerIDs_def)

lemma node_config_fields [simp]:
  "NodeID (node_config fl) = f_id fl" "ListenAddr (node_config fl) = f_addr fl" "DataDir (node_config fl) = f_data fl"
  "Peers (node_config fl) = snd (parse_peers (f_peers fl))"
  by (simp_all add: node_config_def DefaultConfig_def)

lemma node_config_valid:
  assumes "f_id fl \<noteq> []" "f_addr fl \<noteq> []" "f_data fl \<noteq> []" "snd (parse_peers (f_peers fl)) \<noteq> []"
  shows "Validate (node_config fl) = None"
  using assms by (simp add: Validate_def node_config_def DefaultConfig_def Millisecond_def wrap64_def)

text \<open>A node on an empty data directory.\<close>

lemma NewNode_empty: "Validate cfg = None \<Longrightarrow> NewNode cfg peers cap [] = Ok (fresh_node cfg peers cap [])"
  by (simp add: NewNode_def loadState_def fresh_node_def)

lemma start_node_empty:
  assumes "Validate (node_config fl) = None"
  shows "start_node fl order dial_ok rnds sound_disk [] =
    (let pool = connect_peers (NewPeerPool (f_id fl)) (order (fst (parse_peers (f_peers fl)))) dial_ok
     in Ok \<lparr>p_cfg = node_config fl, p_pool = pool,
        p_node = node_Start (fresh_node (node_config fl) (PeerIDs pool) applyCh_capacity []), p_sm = NewStateMachine new_engine\<rparr>)"
  using NewNode_empty [OF assms] by (simp add: start_node_def Let_def engine_Open_empty new_engine_def)

text \<open>The flags of a node of a cluster: its own id, and all the other members as peers.\<close>

definition member_flags :: "string list \<Rightarrow> (string \<Rightarrow> string) \<Rightarrow> string \<Rightarrow> Flags \<Rightarrow> bool" where
  "member_flags ms addr i fl \<longleftrightarrow> f_id fl = i \<and> f_addr fl \<noteq> [] \<and> f_data fl \<noteq> [] \<and>
     f_peers fl = peers_flag (map (\<lambda>j. (j, addr j)) (filter (\<lambda>j. j \<noteq> i) ms))"

lemma length_others: "distinct ms \<Longrightarrow> i \<in> set ms \<Longrightarrow> Suc (length (filter (\<lambda>j. j \<noteq> i) ms)) = length ms"
proof (induction ms)
  case (Cons j ms)
  have "filter (\<lambda>j. j \<noteq> i) ms = ms" if "i \<notin> set ms"
    using that by (intro filter_True) auto
  with Cons show ?case by auto
qed simp

lemma start_member:
  assumes "distinct ms" "i \<in> set ms" "i \<noteq> []" "2 \<le> length ms" "member_flags ms addr i fl"
    and "\<forall>j \<in> set ms. plain_spec (j, addr j)" "\<And>m. set (order m) = set m \<and> distinct (map fst (order m)) = distinct (map fst m)"
  shows "\<exists>p. start_node fl order (\<lambda>_. True) rnds sound_disk [] = Ok p \<and> member_node ms i (t_node (p_node p)) \<and> armed (p_node p) \<and>
    t_node (p_node p) = fresh_node (p_cfg p) (PeerIDs (p_pool p)) applyCh_capacity []"
proof -
  let ?others = "filter (\<lambda>j. j \<noteq> i) ms" and ?ps = "map (\<lambda>j. (j, addr j)) (filter (\<lambda>j. j \<noteq> i) ms)"
  have fl: "f_id fl = i" "f_addr fl \<noteq> []" "f_data fl \<noteq> []" "f_peers fl = peers_flag ?ps"
    using assms(5) by (simp_all add: member_flags_def)
  have fst: "map fst ?ps = ?others"
    by (simp add: comp_def)
  have dst: "distinct (map fst ?ps)"
    using assms(1) by (simp only: fst distinct_filter)
  have pp: "parse_peers (f_peers fl) = (?ps, map snd ?ps)"
    unfolding fl(4) using dst assms(6) by (intro parse_peers_flag) auto
  have len: "Suc (length ?others) = length ms"
    using length_others [OF assms(1,2)] .
  then have "?others \<noteq> []"
    using assms(4) by auto
  then have v: "Validate (node_config fl) = None"
    using fl assms(3) pp by (intro node_config_valid) simp_all
  have od: "distinct (map fst (order ?ps))" "set (map fst (order ?ps)) = set ms - {i}"
    using dst assms(7) [of ?ps] by (auto simp: image_image)
  then have ids: "PeerIDs (connect_peers (NewPeerPool i) (order ?ps) (\<lambda>_. True)) = map fst (order ?ps)"
    by (subst connect_peers_ids) auto
  have "ClusterSize (node_config fl) = length ms"
    using pp len by (simp add: ClusterSize_def)
  with v fl(1) assms(3) ids od show ?thesis
    by (simp add: start_node_empty [OF v] Let_def pp node_Start_def member_node_def fresh_node_def)
qed

section \<open>Properties\<close>

text \<open>Fact. The \<open>-peers\<close> flag is read back: for peers with different ids, whose ids and addresses contain no
  separator and no outer white space, the flag that lists them as \<open>id=addr\<close> gives exactly these peers, in the order of
  the flag, so that the quorum of the configuration is the majority of the node and its peers.\<close>

theorem peers_flag_roundtrip:
  assumes "distinct (map fst ps)" and "\<forall>s \<in> set ps. plain_spec s"
  shows "parse_peers (peers_flag ps) = (ps, map snd ps) \<and>
    Quorum (node_config (fl\<lparr>f_peers := peers_flag ps\<rparr>)) = (1 + length ps) div 2 + 1"
  using parse_peers_flag [OF assms] by (simp add: Quorum_def ClusterSize_def)

lemma demo_specs: "plain_spec (''a'', '':5001'')" "plain_spec (''b'', '':5002'')"
  by code_simp+

theorem peers_flag_roundtrip_witness:
  "parse_peers ''a=:5001,b=:5002'' = ([(''a'', '':5001''), (''b'', '':5002'')], ['':5001'', '':5002''])"
  using peers_flag_roundtrip [of "[(''a'', '':5001''), (''b'', '':5002'')]"] demo_specs by simp

text \<open>Property C9. Servers that are started with the flags of one cluster form the initial state of the cluster model: if every
  member gets its own id and all the others as peers, on an empty data directory, with any
  order of the connections, then every \<open>start_node\<close> succeeds with an armed election timer, and the nodes are those of
  an initial cluster. So the safety theorems hold for the running program.\<close>

theorem started_servers_form_cluster:
  assumes "distinct ms" and "[] \<notin> set ms" and "2 \<le> length ms"
    and "\<forall>i \<in> set ms. member_flags ms addr i (fl i)" and "\<forall>i \<in> set ms. plain_spec (i, addr i)"
    and "\<forall>i m. set (order i m) = set m \<and> distinct (map fst (order i m)) = distinct (map fst m)"
  shows "\<exists>procs. (\<forall>i \<in> set ms. start_node (fl i) (order i) (\<lambda>_. True) rnds sound_disk [] = Ok (procs i) \<and> armed (p_node (procs i))) \<and>
    initial ms \<lparr>node = (\<lambda>i. t_node (p_node (procs i))), vote_reqs = {}, vote_resps = {}, ballot = (\<lambda>_ _. []),
      append_reqs = {}, append_resps = {}, received = (\<lambda>_. []), voted = {}, leader = (\<lambda>_. None), llog = (\<lambda>_. [])\<rparr>"
proof -
  have "\<exists>p. start_node (fl i) (order i) (\<lambda>_. True) rnds sound_disk [] = Ok p \<and> member_node ms i (t_node (p_node p)) \<and> armed (p_node p) \<and>
      t_node (p_node p) = fresh_node (p_cfg p) (PeerIDs (p_pool p)) applyCh_capacity []" if "i \<in> set ms" for i
    using that assms by (intro start_member [of ms i addr]) auto
  then have "\<forall>i. \<exists>p. i \<in> set ms \<longrightarrow> start_node (fl i) (order i) (\<lambda>_. True) rnds sound_disk [] = Ok p \<and>
      member_node ms i (t_node (p_node p)) \<and> armed (p_node p) \<and>
      t_node (p_node p) = fresh_node (p_cfg p) (PeerIDs (p_pool p)) applyCh_capacity []"
    by blast
  then obtain procs where procs: "\<And>i. i \<in> set ms \<Longrightarrow> start_node (fl i) (order i) (\<lambda>_. True) rnds sound_disk [] = Ok (procs i) \<and>
      member_node ms i (t_node (p_node (procs i))) \<and> armed (p_node (procs i)) \<and>
      t_node (p_node (procs i)) = fresh_node (p_cfg (procs i)) (PeerIDs (p_pool (procs i))) applyCh_capacity []"
    by metis
  then show ?thesis
    using assms(1) by (intro exI [of _ procs]) (force simp: initial_def)
qed

theorem started_servers_form_cluster_witness:
  "\<exists>pa pb. start_node \<lparr>f_phase1 = False, f_verifyOnly = False, f_numKeys = 0, f_id = ''a'', f_addr = '':5001'',
       f_peers = ''b=:5002'', f_data = ''da''\<rparr> id (\<lambda>_. True) (\<lambda>_ _. False) sound_disk [] = Ok pa \<and>
     start_node \<lparr>f_phase1 = False, f_verifyOnly = False, f_numKeys = 0, f_id = ''b'', f_addr = '':5002'',
       f_peers = ''a=:5001'', f_data = ''db''\<rparr> id (\<lambda>_. True) (\<lambda>_ _. False) sound_disk [] = Ok pb \<and>
     (\<exists>c. initial [''a'', ''b''] c \<and> node c ''a'' = t_node (p_node pa) \<and> node c ''b'' = t_node (p_node pb))"
proof -
  let ?fa = "\<lparr>f_phase1 = False, f_verifyOnly = False, f_numKeys = 0, f_id = ''a'', f_addr = '':5001'',
       f_peers = ''b=:5002'', f_data = ''da''\<rparr>"
  let ?fb = "\<lparr>f_phase1 = False, f_verifyOnly = False, f_numKeys = 0, f_id = ''b'', f_addr = '':5002'',
       f_peers = ''a=:5001'', f_data = ''db''\<rparr>"
  let ?addr = "\<lambda>i. if i = ''a'' then '':5001'' else '':5002''" and ?fl = "\<lambda>i. if i = ''a'' then ?fa else ?fb"
  have "\<forall>i \<in> set [''a'', ''b'']. member_flags [''a'', ''b''] ?addr i (?fl i)"
    by (simp add: member_flags_def)
  moreover have "\<forall>i \<in> set [''a'', ''b'']. plain_spec (i, ?addr i)"
    using demo_specs by simp
  ultimately have "\<exists>procs. (\<forall>i \<in> set [''a'', ''b'']. start_node (?fl i) id (\<lambda>_. True) (\<lambda>_ _. False) sound_disk [] = Ok (procs i) \<and> armed (p_node (procs i))) \<and>
    initial [''a'', ''b''] \<lparr>node = (\<lambda>i. t_node (p_node (procs i))), vote_reqs = {}, vote_resps = {}, ballot = (\<lambda>_ _. []),
      append_reqs = {}, append_resps = {}, received = (\<lambda>_. []), voted = {}, leader = (\<lambda>_. None), llog = (\<lambda>_. [])\<rparr>"
    by (intro started_servers_form_cluster [of _ ?addr ?fl "\<lambda>_. id"]) simp_all
  then show ?thesis
    by fastforce
qed

text \<open>Fact. A node that lists itself among two peers wins every election alone: the request that it sends to itself is granted,
  and its own vote counts twice. Nothing rejects such flags, and in a cluster of two nodes started
  this way both can lead the same term.\<close>

theorem self_peer_wins_alone:
  assumes "f_id fl \<noteq> []" and "f_addr fl \<noteq> []" and "f_data fl \<noteq> []" and "length (snd (parse_peers (f_peers fl))) = 2"
    and "start_node fl order dial_ok rnds sound_disk [] = Ok p" and "f_id fl \<in> set (PeerIDs (p_pool p))"
  shows "\<exists>n1 req n2 resp n3. onElectionTimeout (t_node (p_node p)) = Some (n1, Some req) \<and>
    HandleRequestVote n1 req = Some (n2, resp) \<and> vote_response n2 1 resp = (n2, True) \<and>
    startElection n2 1 [True] = Some n3 \<and> n_role n3 = Leader \<and> currentTerm n3 = 1 \<and> n_id n3 = f_id fl"
proof -
  have "Validate (node_config fl) = None"
    using assms(1-4) by (intro node_config_valid) auto
  from start_node_empty [OF this, of order dial_ok rnds] assms(5)
  have n: "t_node (p_node p) = fresh_node (node_config fl) (PeerIDs (p_pool p)) applyCh_capacity []"
    by (auto simp: Let_def node_Start_def)
  define n0 where "n0 = t_node (p_node p)"
  have n0: "n_role n0 = Follower" "currentTerm n0 = 0" "n_id n0 = f_id fl" "n_log n0 = [\<lparr>l_Index = 0, l_Term = 0, l_Data = []\<rparr>]"
      "Quorum (n_cfg n0) = 2" "peerIDs n0 \<noteq> []"
    using assms(4,6) by (auto simp: n0_def n fresh_node_def Quorum_def ClusterSize_def)
  let ?n1 = "persistStateLocked (n0\<lparr>n_role := Candidate, currentTerm := 1, votedFor := f_id fl\<rparr>)"
  let ?req = "\<lparr>rv_Term = 1, rv_CandidateId = f_id fl, rv_LastLogIndex = 0, rv_LastLogTerm = 0\<rparr>"
  have t: "onElectionTimeout n0 = Some (?n1, Some ?req)"
    using n0 by (simp add: onElectionTimeout_def lastLogIndexLocked_def lastLogTermLocked_def Let_def u64_def)
  have "\<exists>n2. HandleRequestVote ?n1 ?req = Some (n2, \<lparr>vr_Term = 1, vr_VoteGranted = True\<rparr>) \<and>
      n_role n2 = Candidate \<and> currentTerm n2 = 1 \<and> n_log n2 = n_log n0 \<and> n_cfg n2 = n_cfg n0 \<and> n_id n2 = f_id fl \<and> peerIDs n2 = peerIDs n0"
    using n0 by (simp add: HandleRequestVote_def lastLogIndexLocked_def lastLogTermLocked_def Let_def log_up_to_date_def)
  then obtain n2 where n2: "HandleRequestVote ?n1 ?req = Some (n2, \<lparr>vr_Term = 1, vr_VoteGranted = True\<rparr>)"
      "n_role n2 = Candidate" "currentTerm n2 = 1" "n_log n2 = n_log n0" "n_cfg n2 = n_cfg n0" "n_id n2 = f_id fl" "peerIDs n2 = peerIDs n0"
    by blast
  then have "vote_response n2 1 \<lparr>vr_Term = 1, vr_VoteGranted = True\<rparr> = (n2, True)"
    "startElection n2 1 [True] = Some (init_leader n2 0)"
    using n0 by (simp_all add: vote_response_def startElection_def elected_def lastLogIndexLocked_def)
  with t n2 show ?thesis
    unfolding n0_def [symmetric] by (auto simp: init_leader_def)
qed

theorem self_peer_wins_alone_witness:
  "\<exists>p n1 req n2 resp n3. start_node \<lparr>f_phase1 = False, f_verifyOnly = False, f_numKeys = 0, f_id = ''a'', f_addr = '':5001'',
       f_peers = ''a=:5001,b=:5002'', f_data = ''da''\<rparr> id (\<lambda>_. True) (\<lambda>_ _. False) sound_disk [] = Ok p \<and>
     onElectionTimeout (t_node (p_node p)) = Some (n1, Some req) \<and> HandleRequestVote n1 req = Some (n2, resp) \<and>
     startElection n2 1 [True] = Some n3 \<and> n_role n3 = Leader"
proof -
  let ?fl = "\<lparr>f_phase1 = False, f_verifyOnly = False, f_numKeys = 0, f_id = ''a'', f_addr = '':5001'',
       f_peers = ''a=:5001,b=:5002'', f_data = ''da''\<rparr>"
  have pp: "parse_peers (f_peers ?fl) = ([(''a'', '':5001''), (''b'', '':5002'')], ['':5001'', '':5002''])"
    using parse_peers_flag [of "[(''a'', '':5001''), (''b'', '':5002'')]"] demo_specs by simp
  then have v: "Validate (node_config ?fl) = None"
    by (intro node_config_valid) simp_all
  obtain p where p: "start_node ?fl id (\<lambda>_. True) (\<lambda>_ _. False) sound_disk [] = Ok p" "PeerIDs (p_pool p) = [''a'', ''b'']"
    using start_node_empty [OF v, of id "\<lambda>_. True" "\<lambda>_ _. False"] connect_peers_ids [of "NewPeerPool ''a''"] pp
    by (auto simp: Let_def)
  have "f_id ?fl \<noteq> []" "f_addr ?fl \<noteq> []" "f_data ?fl \<noteq> []" "length (snd (parse_peers (f_peers ?fl))) = 2"
      "f_id ?fl \<in> set (PeerIDs (p_pool p))"
    using pp p(2) by simp_all
  from self_peer_wins_alone [OF this(1-4) p(1) this(5)] p(1) show ?thesis
    by blast
qed

text \<open>Fact. Peers that are not connected at the start block elections for good: the quorum counts every
  entry of the flag, but votes come from the connected peers only, and an entry that repeats an
  id or whose address cannot be dialled is never connected later. If too few peers are
  connected, no result of an election makes the node a leader.\<close>

theorem unconnected_peers_block_election:
  assumes "start_node fl order dial_ok rnds io d = Ok p"
    and "length (PeerIDs (p_pool p)) < (1 + length (snd (parse_peers (f_peers fl)))) div 2"
  shows "n_cfg (t_node (p_node p)) = node_config fl \<and> peerIDs (t_node (p_node p)) = PeerIDs (p_pool p) \<and>
    (\<forall>n t results. n_cfg n = node_config fl \<and> length results \<le> length (PeerIDs (p_pool p)) \<longrightarrow> startElection n t results = Some n)"
proof (intro conjI allI impI)
  show "n_cfg (t_node (p_node p)) = node_config fl" "peerIDs (t_node (p_node p)) = PeerIDs (p_pool p)"
    using assms(1) loadState_frame [of "fresh_node (node_config fl) (PeerIDs (p_pool p)) applyCh_capacity d"]
    by (auto simp: start_node_def Let_def NewNode_def node_Start_def fresh_node_def split: outcome.splits option.splits)
  fix n :: Node and t :: nat and results :: "bool list"
  assume n: "n_cfg n = node_config fl \<and> length results \<le> length (PeerIDs (p_pool p))"
  have "tally q v bs = None" if "v + length bs < q" for q v bs
    using that by (induction q v bs rule: tally.induct) auto
  with n assms(2) show "startElection n t results = Some n"
    by (simp add: startElection_def Quorum_def ClusterSize_def)
qed

theorem unconnected_peers_block_election_witness:
  "\<exists>p. start_node \<lparr>f_phase1 = False, f_verifyOnly = False, f_numKeys = 0, f_id = ''c'', f_addr = '':5003'',
       f_peers = ''a=:5001,a=:5001,b=:5002'', f_data = ''dc''\<rparr> id (\<lambda>a. a = '':5002'') (\<lambda>_ _. False) sound_disk [] = Ok p \<and>
     PeerIDs (p_pool p) = [''b''] \<and> startElection (t_node (p_node p)) 1 [True] = Some (t_node (p_node p))"
proof -
  let ?fl = "\<lparr>f_phase1 = False, f_verifyOnly = False, f_numKeys = 0, f_id = ''c'', f_addr = '':5003'',
       f_peers = ''a=:5001,a=:5001,b=:5002'', f_data = ''dc''\<rparr>"
  let ?ps = "[(''a'', '':5001''), (''a'', '':5001''), (''b'', '':5002'')]"
  have "Split (peers_flag ?ps) (CHR '','') = map (\<lambda>(i, a). i @ ''='' @ a) ?ps"
    using demo_specs by (intro Split_peers_flag) simp_all
  then have pp: "parse_peers (f_peers ?fl) = ([(''a'', '':5001''), (''b'', '':5002'')], ['':5001'', '':5001'', '':5002''])"
    using parse_specs_plain [of ?ps "[]" "[]"] demo_specs by (simp add: parse_peers_def)
  then have v: "Validate (node_config ?fl) = None"
    by (intro node_config_valid) simp_all
  obtain p where p: "start_node ?fl id (\<lambda>a. a = '':5002'') (\<lambda>_ _. False) sound_disk [] = Ok p" "PeerIDs (p_pool p) = [''b'']"
    using start_node_empty [OF v, of id "\<lambda>a. a = '':5002''" "\<lambda>_ _. False"] pp
    by (auto simp: Let_def connect_peers_def Connect_def NewPeerPool_def PeerIDs_def)
  have "length (PeerIDs (p_pool p)) < (1 + length (snd (parse_peers (f_peers ?fl)))) div 2"
    using pp p(2) by simp
  from unconnected_peers_block_election [OF p(1) this] p show ?thesis
    by (intro exI [of _ p]) simp
qed

text \<open>Fact. A server that cannot listen disturbs the cluster: the error is only logged, so the node runs without its
  service. No heartbeat can reach it; its timer fires, and each time its request makes a leader
  of a term that is not newer step down, while the timer is armed again.\<close>

theorem deaf_server_deposes_leader:
  assumes "start_node fl order dial_ok rnds io d = Ok p" and "n_role (t_node (p_node p)) \<noteq> Leader"
    and "n_log (t_node (p_node p)) \<noteq> []" and "currentTerm (t_node (p_node p)) + 1 < 2 ^ 64"
    and "n_role n = Leader" and "n_log n \<noteq> []" and "currentTerm n \<le> currentTerm (t_node (p_node p))"
  shows "g_server (serve_node p False serve_ok) = NoServer \<and>
    (\<exists>x req n' resp. timer_fires (p_node p) = Some (x, Some req) \<and> armed x \<and>
       HandleRequestVote n req = Some (n', resp) \<and> n_role n' = Follower)"
proof -
  have a: "armed (p_node p)"
    using assms(1) by (auto simp: start_node_def Let_def node_Start_def split: outcome.splits)
  obtain n1 req where t: "onElectionTimeout (t_node (p_node p)) = Some (n1, Some req)"
    "rv_Term req = currentTerm (t_node (p_node p)) + 1"
    using assms(2-4) by (simp add: onElectionTimeout_def lastLogIndexLocked_def lastLogTermLocked_def Let_def u64_def)
  have "\<not> rv_Term req < currentTerm n" "rv_Term req > currentTerm n"
    using t(2) assms(7) by simp_all
  from HandleRequestVote_eq [OF this(1) assms(6) refl] this(2)
  have "\<exists>n' resp. HandleRequestVote n req = Some (n', resp) \<and> n_role n' = Follower"
    by simp
  with a t(1) assms(2) show ?thesis
    by (auto simp: serve_node_def grpc_Start_def grpc_server_def NewGRPCServer_def timer_fires_def)
qed

theorem deaf_server_deposes_leader_witness:
  "\<exists>p x req n' resp. start_node \<lparr>f_phase1 = False, f_verifyOnly = False, f_numKeys = 0, f_id = ''b'', f_addr = '':5002'',
       f_peers = ''a=:5001'', f_data = ''db''\<rparr> id (\<lambda>_. True) (\<lambda>_ _. False) sound_disk [] = Ok p \<and>
     timer_fires (p_node p) = Some (x, Some req) \<and>
     HandleRequestVote ((fresh_node DefaultConfig [''b''] 8 [])\<lparr>n_role := Leader\<rparr>) req = Some (n', resp) \<and> n_role n' = Follower"
proof -
  let ?fl = "\<lparr>f_phase1 = False, f_verifyOnly = False, f_numKeys = 0, f_id = ''b'', f_addr = '':5002'',
       f_peers = ''a=:5001'', f_data = ''db''\<rparr>"
  let ?n = "(fresh_node DefaultConfig [''b''] 8 [])\<lparr>n_role := Leader\<rparr>"
  have "parse_peers (f_peers ?fl) = ([(''a'', '':5001'')], ['':5001''])"
    using parse_peers_flag [of "[(''a'', '':5001'')]"] demo_specs by simp
  then have v: "Validate (node_config ?fl) = None"
    by (intro node_config_valid) simp_all
  obtain p where p: "start_node ?fl id (\<lambda>_. True) (\<lambda>_ _. False) sound_disk [] = Ok p"
    "t_node (p_node p) = fresh_node (node_config ?fl) (PeerIDs (p_pool p)) applyCh_capacity []"
    using start_node_empty [OF v, of id "\<lambda>_. True" "\<lambda>_ _. False"] by (auto simp: Let_def node_Start_def)
  have "n_role (t_node (p_node p)) \<noteq> Leader" "n_log (t_node (p_node p)) \<noteq> []" "currentTerm (t_node (p_node p)) + 1 < 2 ^ 64"
    "n_role ?n = Leader" "n_log ?n \<noteq> []" "currentTerm ?n \<le> currentTerm (t_node (p_node p))"
    by (simp_all add: p(2) fresh_node_def)
  from deaf_server_deposes_leader [OF p(1) this] p(1) show ?thesis
    by blast
qed

end
