(* ===== verification/Spec2Isabelle.thy ===== *)
theory Spec2Isabelle
  imports Replicas Progress Heartbeats Benchmark Server
begin

text \<open>
  \<^bold>\<open>GRANITE: a replicated key-value store.\<close>

  GRANITE (Go, under \<open>src/\<close>) keeps a map from keys to values on every node of a cluster. A client
  sends \<open>Put\<close>, \<open>Delete\<close> and \<open>Get\<close> to a gRPC server. The leader's Raft node appends the
  encoded command to its log and replicates it; a committed entry goes over a channel to the
  state machine, which decodes it and calls the storage engine. The engine is a
  log-structured merge tree: a write-ahead log, a mem table (skip list), sorted string
  tables, and a background compactor.

  \<^bold>\<open>Theories, in the order of the code.\<close>

  \<^item> \<open>Prelude\<close>: byte strings and slices (\<open>nil\<close> is \<open>None\<close>), the type \<open>outcome\<close> of a fallible call
    (\<open>Ok\<close>, \<open>Err\<close>, \<open>Panic\<close>), little-endian fields, the order of keys, and the lemmas the
    components share.
  \<^item> \<open>Config\<close> (\<open>internal/config/config.go\<close>): \<open>Validate\<close>, \<open>ClusterSize\<close>, \<open>Quorum\<close>. The locale
    \<open>quorum_system\<close> is what the elections and the commit rule need of a quorum; the majorities of
    a configuration interpret it.
  \<^item> \<open>WAL\<close> (\<open>internal/storage/wal.go\<close>): the record format with its CRC-32, \<open>Append\<close> with the faults of
    \<open>write\<close> and \<open>fsync\<close>, \<open>ReadWALRecords\<close> with read errors, \<open>Close\<close>. Round trip after a crash, detection
    of damage, and the panic on long keys.
  \<^item> \<open>SkipList\<close>, \<open>MemTable\<close> (\<open>internal/storage/memtable.go\<close>): the skip list on a heap of nodes with
    their \<open>forward\<close> arrays; random levels are an argument. It refines a key-sorted list (locale
    \<open>sorted_store\<close>).
  \<^item> \<open>Recovery\<close> (\<open>internal/storage/recovery.go\<close>): replay and truncation of the log, with the I/O errors
    of each step.
  \<^item> \<open>SSTable\<close> (\<open>internal/storage/sstable.go\<close>): the writer (temporary file, rename, deferred removal), the reader with its
    sparse index, binary search and scan. \<open>Compaction\<close> (\<open>internal/storage/compaction.go\<close>): choice,
    reading and merging of tables.
  \<^item> \<open>Engine\<close> (\<open>internal/storage/engine.go\<close>): \<open>Open\<close>, \<open>Put\<close>, \<open>Get\<close>, \<open>Delete\<close>, the flush in its two lock
    regions, the compaction results, \<open>Close\<close>. The engine interprets the locale \<open>kv_store\<close>, the contract on
    which the state machine rests; the inductive relation \<open>served\<close> is a history of acknowledged
    writes, flushes, compactions, shutdowns and crashes.
  \<^item> \<open>RaftNode\<close> (\<open>internal/raft/node.go\<close>): the node record, its state file on a disk that may fail, \<open>NewNode\<close>, \<open>Propose\<close>.
    \<open>Election\<close> (\<open>election.go\<close>), \<open>Replication\<close> (\<open>replication.go\<close>), \<open>Snapshot\<close> (\<open>snapshot.go\<close>): the handlers and
    the goroutines; every lock region is one definition, so that interleavings are sequences
    of definitions. A panic (a log access out of range) is the value \<open>None\<close>.
  \<^item> \<open>Timers\<close>: the one-shot election timer of a node with every call of
    \<open>resetElectionTimerLocked\<close>, \<open>Start\<close> and \<open>Stop\<close>. \<open>Heartbeats\<close>: the event loop of the leader over
    time.
  \<^item> \<open>StateMachine\<close> (\<open>state_machine.go\<close>): the command encoding and the applier, a fold over the messages it
    receives until it is stopped.
  \<^item> \<open>RPC\<close> (\<open>internal/rpc\<close>): the peer pool, the service handlers, and the service's start and stop. The Go interface \<open>RaftProposer\<close> is the
    locale \<open>raft_proposer\<close>, interpreted by the Raft node. The gRPC stubs are arguments.
  \<^item> \<open>StorageTest\<close>, \<open>Server\<close> (\<open>cmd/server/main.go\<close>): the storage self test; the flags, the wiring of a node and its
    shutdown. \<open>Benchmark\<close> (\<open>cmd/benchmark/main.go\<close>): the measured loops and the percentiles, with the
    floating-point arithmetic of their indexes.
  \<^item> \<open>Cluster\<close>: the nodes of a cluster over a network that loses, repeats, delays and reorders
    messages, with nodes that restart from their state file and state machines that take
    messages off the apply channel, as an inductive step relation over the
    handlers above. The state carries the ghost history of votes, leaders and their logs that the
    proofs need. \<open>ClusterRun\<close> is a concrete run, which instantiates the theorems. \<open>TimedCluster\<close> adds the election
    timers: the same steps with the handlers of \<open>Timers\<close>, so that a node stands only when its timer fires.
  \<^item> \<open>ElectionSafety\<close>, \<open>LogMatching\<close>, \<open>LeaderCompleteness\<close>, \<open>CommitSafety\<close>, \<open>Delivery\<close>: the invariants of that
    relation, each layer using the one before. \<open>CatchUp\<close> is the progress of replication between two nodes, \<open>Progress\<close>
    that of a whole cluster; \<open>Replicas\<close> joins the cluster with the state machines and engines.

  \<^bold>\<open>What is shown.\<close> Storage: an acknowledged write survives every history of flushes,
  compactions, shutdowns and crashes (\<open>engine_durable\<close>); the mem table implements a sorted map and the engine, without
  compaction and on keys that its table scan cannot take for others, a map; writing a table is atomic; every format reads back what was written; the self test of the program passes and
  passes again after a crash. Raft: at most one leader per term, matching logs, leader
  completeness, agreement of committed entries, no panic, exactly-once delivery to the state
  machine, catching up of followers; from every reachable state in which the members that do not lead have their election
  timers armed, a leader can be elected and
  a new command committed by all members (\<open>cluster_can_progress\<close>); which nodes keep an election timer, and that heartbeats
  arrive before it runs out. Composition: servers
  started with consistent flags form an initial cluster, client writes reach the leader's log and nothing else,
  and replicas that have received the same indexes have received the same commands and, under the conditions of the
  engine's contract, answer the keys written alike. Theorems named after a
  failure (\<open>compaction_resurrects_old_value\<close>, \<open>flush_window\<close>, \<open>failed_append_loses_next_write\<close>,
  \<open>snapshot_breaks_commit\<close>, \<open>leader_left_without_timer\<close>, \<open>restart_replays_old_value\<close>, \<open>deaf_server_deposes_leader\<close>,
  \<open>recover_read_error\<close>, \<open>unsaved_vote_cast_twice\<close>,
  and others) state where the code departs from what it means to do.

  \<^bold>\<open>Bounds and loops.\<close> Terms, indexes and log positions are natural numbers, reduced modulo \<open>2 ^ 64\<close> where
  the code adds; the steps of a cluster exclude those that would overflow. Fields of a format are cut to their width as the code does.
  Loops are structural recursions or functions with a termination proof; the walks of the skip
  list are partial functions, and their invariant shows that they return. There is no fuel, and the numbers of
  messages, steps, nodes and keys are unbounded.

  \<^bold>\<open>Not modelled.\<close> Logging; the gRPC library and the generated protocol buffers (their
  messages are records of \<open>RaftNode\<close>); wall-clock time (timers fire, compaction ticks and
  timeouts happen at arbitrary moments; only \<open>Heartbeats\<close> has moments, and they and the measured durations are
  arguments); the Go memory model (a lock region is atomic); signals; errors of the
  file system other than those named in \<open>write_fault\<close>, \<open>read_fault\<close>, \<open>close_fault\<close>, \<open>sst_fault\<close>, \<open>snapshot_fault\<close>,
  \<open>persist_fault\<close>, \<open>RecoverFaults\<close> and \<open>OpenFaults\<close> (the nodes of a cluster have a working disk). The cluster relation has no snapshot steps: no code calls
  \<open>TakeSnapshot\<close> or sends a snapshot, and \<open>Snapshot\<close> shows what breaks if it does.
\<close>

end
